(* ===== verification/Prelude.thy ===== *)
theory Prelude
  imports Main "HOL-Library.Word" "HOL-Library.Finite_Map"
begin

text \<open>
  Shared vocabulary of the development: Go's byte strings, its fixed-width integers, the
  operations of the packages \<open>strings\<close> and \<open>bytes\<close> the sources call, finite maps with an explicit
  iteration order, and the two generic interfaces (a codec, a transition system with an
  invariant) that several components instantiate.
\<close>

named_theorems go_arith \<open>facts on Go's fixed-width integers\<close>
named_theorems wf_rules \<open>rules that establish well-formedness of values and states\<close>
named_theorems codec_simps \<open>rewrite rules of the parsers and printers\<close>

section \<open>Bytes, strings and integers\<close>

text \<open>A Go \<open>string\<close> or \<open>[]byte\<close> is a list of 8-bit characters.\<close>

type_synonym bytes = string
type_synonym ('k, 'v) gomap = "('k, 'v) fmap"

abbreviation NL :: char where
  "NL \<equiv> CHR 0x0A"

abbreviation DQ :: char where
  "DQ \<equiv> CHR 0x22"

abbreviation BSL :: char where
  "BSL \<equiv> CHR 0x5C"

text \<open>
  Signed integers are HOL integers; every place where the Go value can leave its width applies
  the two's complement wrap-around \<open>i64\<close> or \<open>i32\<close>. Go's \<open>int\<close> has 64 bits on the supported
  platforms.
\<close>

definition i64 :: "int \<Rightarrow> int" where
  "i64 n = signed_take_bit 63 n"

definition i32 :: "int \<Rightarrow> int" where
  "i32 n = signed_take_bit 31 n"

definition in_i64 :: "int \<Rightarrow> bool" where
  "in_i64 n \<longleftrightarrow> - (2 ^ 63) \<le> n \<and> n < 2 ^ 63"

definition in_i32 :: "int \<Rightarrow> bool" where
  "in_i32 n \<longleftrightarrow> - (2 ^ 31) \<le> n \<and> n < 2 ^ 31"

section \<open>Package strings\<close>

fun IndexByte :: "bytes \<Rightarrow> char \<Rightarrow> nat option" where
  "IndexByte [] c = None"
| "IndexByte (x # xs) c = (if x = c then Some 0 else map_option Suc (IndexByte xs c))"

definition HasPrefix :: "bytes \<Rightarrow> bytes \<Rightarrow> bool" where
  "HasPrefix s p \<longleftrightarrow> take (length p) s = p"

definition HasSuffix :: "bytes \<Rightarrow> bytes \<Rightarrow> bool" where
  "HasSuffix s p \<longleftrightarrow> HasPrefix (rev s) (rev p)"

definition TrimPrefix :: "bytes \<Rightarrow> bytes \<Rightarrow> bytes" where
  "TrimPrefix s p = (if HasPrefix s p then drop (length p) s else s)"

definition TrimSuffix :: "bytes \<Rightarrow> bytes \<Rightarrow> bytes" where
  "TrimSuffix s p = (if HasSuffix s p then take (length s - length p) s else s)"

fun Contains :: "bytes \<Rightarrow> bytes \<Rightarrow> bool" where
  "Contains [] q \<longleftrightarrow> q = []"
| "Contains (x # xs) q \<longleftrightarrow> HasPrefix (x # xs) q \<or> Contains xs q"

definition ContainsAny :: "bytes \<Rightarrow> bytes \<Rightarrow> bool" where
  "ContainsAny s cs \<longleftrightarrow> list_ex (\<lambda>c. c \<in> set cs) s"

text \<open>
  \<open>strings.TrimSpace\<close> removes Unicode white space; over bytes these are the UTF-8 encodings
  listed here. A suffix of a string that is such an encoding is also what the decoder of the last
  rune finds, since only the first byte of each encoding can start a rune.
\<close>

definition spaceSeqs :: "bytes list" where
  "spaceSeqs = map (map char_of)
     ([[9], [10], [11], [12], [13], [32], [0xC2, 0x85], [0xC2, 0xA0], [0xE1, 0x9A, 0x80],
       [0xE2, 0x80, 0xA8], [0xE2, 0x80, 0xA9], [0xE2, 0x80, 0xAF], [0xE2, 0x81, 0x9F],
       [0xE3, 0x80, 0x80]]
      @ map (\<lambda>k. [0xE2, 0x80, 0x80 + k]) [0..<11] :: nat list list)"

function trimSeqs :: "bytes list \<Rightarrow> bytes \<Rightarrow> bytes" where
  "trimSeqs ws s =
     (case find (\<lambda>w. w \<noteq> [] \<and> HasPrefix s w) ws of
        None \<Rightarrow> s
      | Some w \<Rightarrow> trimSeqs ws (drop (length w) s))"
  by pat_completeness auto
termination
  by (relation "measure (\<lambda>(ws, s). length s)")
     (auto simp: find_Some_iff HasPrefix_def, metis diff_less length_greater_0_conv take_Nil)

declare trimSeqs.simps [simp del]

definition TrimSpace :: "bytes \<Rightarrow> bytes" where
  "TrimSpace s = rev (trimSeqs (map rev spaceSeqs) (rev (trimSeqs spaceSeqs s)))"

section \<open>Iteration over Go maps\<close>

text \<open>
  The order in which \<open>range\<close> visits a map is not specified by Go. Each loop over a map therefore
  takes the list of keys in the order they are visited; a list is such an order when it
  enumerates the map's keys without repetition.
\<close>

definition iter_order :: "('k, 'v) gomap \<Rightarrow> 'k list \<Rightarrow> bool" where
  "iter_order m ks \<longleftrightarrow> distinct ks \<and> fset_of_list ks = fmdom m"

definition maplen :: "('k, 'v) gomap \<Rightarrow> nat" where
  "maplen m = fcard (fmdom m)"

text \<open>Running a callback that may panic (\<open>None\<close>) over a list of items.\<close>

fun foldOpt :: "('a \<Rightarrow> 's \<Rightarrow> 's option) \<Rightarrow> 'a list \<Rightarrow> 's \<Rightarrow> 's option" where
  "foldOpt f [] s = Some s"
| "foldOpt f (x # xs) s = Option.bind (f x s) (foldOpt f xs)"

text \<open>Slicing \<open>items[lo:hi]\<close> panics unless \<open>0 \<le> lo \<le> hi \<le> len\<close>.\<close>

definition goslice :: "'a list \<Rightarrow> int \<Rightarrow> int \<Rightarrow> 'a list option" where
  "goslice xs lo hi =
     (if 0 \<le> lo \<and> lo \<le> hi \<and> hi \<le> int (length xs)
      then Some (take (nat (hi - lo)) (drop (nat lo) xs)) else None)"

section \<open>Integer facts\<close>

lemma in_i64_0 [simp]: "in_i64 0"
  by (simp add: in_i64_def)

lemma i64_id [go_arith]: "in_i64 n \<Longrightarrow> i64 n = n"
  by (simp add: i64_def in_i64_def signed_take_bit_int_eq_self)

lemma i32_id [go_arith]: "in_i32 n \<Longrightarrow> i32 n = n"
  by (simp add: i32_def in_i32_def signed_take_bit_int_eq_self)

lemma in_i64_i64 [simp, wf_rules]: "in_i64 (i64 n)"
  using signed_take_bit_int_greater_eq_minus_exp [of 63 n] signed_take_bit_int_less_exp [of 63 n]
  by (simp add: i64_def in_i64_def)

lemma in_i32_in_i64 [wf_rules]: "in_i32 n \<Longrightarrow> in_i64 n"
  by (simp add: in_i32_def in_i64_def)

lemma i64_add_i64_left [simp]: "i64 (i64 a + b) = i64 (a + b)"
  unfolding i64_def signed_take_bit_eq_iff_take_bit_eq
  by (metis signed_take_bit_add signed_take_bit_signed_take_bit min.idem
      signed_take_bit_eq_iff_take_bit_eq)

lemma i64_add_i64_right [simp]: "i64 (a + i64 b) = i64 (a + b)"
  using i64_add_i64_left [of b a] by (simp add: add.commute)

section \<open>String facts\<close>

lemma HasPrefix_append [simp]: "HasPrefix (p @ s) p"
  by (simp add: HasPrefix_def)

lemma HasPrefix_iff: "HasPrefix s p \<longleftrightarrow> (\<exists>t. s = p @ t)"
  unfolding HasPrefix_def by (metis append_eq_conv_conj append_take_drop_id)

lemma IndexByte_None [simp]: "IndexByte s c = None \<longleftrightarrow> c \<notin> set s"
  by (induction s) auto

lemma IndexByte_split: "c \<notin> set s \<Longrightarrow> IndexByte (s @ c # t) c = Some (length s)"
  by (induction s) auto

lemma IndexByte_SomeD:
  assumes "IndexByte s c = Some i"
  shows "i < length s \<and> s ! i = c \<and> c \<notin> set (take i s)"
  using assms
proof (induction s arbitrary: i)
  case Nil
  then show ?case by simp
next
  case (Cons x xs)
  then show ?case by (cases i) (auto split: if_splits)
qed

lemma IndexByte_SomeE:
  assumes "IndexByte s c = Some i"
  obtains u v where "s = u @ c # v" and "length u = i" and "c \<notin> set u"
  using IndexByte_SomeD [OF assms] id_take_nth_drop [of i s] by (metis length_take min.absorb4)

lemma takeWhile_neq_append: "c \<notin> set s \<Longrightarrow> takeWhile (\<lambda>x. x \<noteq> c) (s @ c # t) = s"
  by (induction s) auto

lemma dropWhile_neq_append: "c \<notin> set s \<Longrightarrow> dropWhile (\<lambda>x. x \<noteq> c) (s @ c # t) = c # t"
  by (induction s) auto

lemma trimSeqs_noop:
  "(\<And>w. w \<in> set ws \<Longrightarrow> w \<noteq> [] \<Longrightarrow> \<not> HasPrefix s w) \<Longrightarrow> trimSeqs ws s = s"
  by (subst trimSeqs.simps) (auto split: option.splits simp: find_Some_iff)

lemma trimSeqs_hd:
  assumes "s \<noteq> []" and "\<And>w. w \<in> set ws \<Longrightarrow> w \<noteq> [] \<Longrightarrow> hd w \<noteq> hd s"
  shows "trimSeqs ws s = s"
  using assms by (intro trimSeqs_noop) (metis HasPrefix_iff hd_append2)

section \<open>Map iteration facts\<close>

lemma iter_order_set: "iter_order m ks \<Longrightarrow> set ks = fset (fmdom m)"
  by (metis iter_order_def fset_of_list.rep_eq)

lemma iter_order_mem: "iter_order m ks \<Longrightarrow> k \<in> set ks \<longleftrightarrow> fmlookup m k \<noteq> None"
  by (simp add: iter_order_set) (metis fmdomE fmdomI fmdom_notI option.distinct(1))

lemma iter_order_empty [simp]: "iter_order fmempty ks \<longleftrightarrow> ks = []"
  unfolding iter_order_def by (cases ks) auto

lemma foldOpt_append:
  "foldOpt f (xs @ ys) s = Option.bind (foldOpt f xs s) (foldOpt f ys)"
proof (induction xs arbitrary: s)
  case Nil
  then show ?case by simp
next
  case (Cons x xs)
  then show ?case by (cases "f x s") simp_all
qed

lemma foldOpt_inv:
  assumes "foldOpt f xs s = Some t" and "P s"
    and "\<And>x s t. x \<in> set xs \<Longrightarrow> P s \<Longrightarrow> f x s = Some t \<Longrightarrow> P t"
  shows "P t"
  using assms
proof (induction xs arbitrary: s)
  case Nil
  then show ?case by simp
next
  case (Cons x xs)
  then obtain r where "f x s = Some r" and "foldOpt f xs r = Some t"
    by (auto simp: Option.bind_eq_Some_conv)
  with Cons show ?case by (metis list.set_intros)
qed

lemma foldOpt_total:
  assumes "\<And>x s. x \<in> set xs \<Longrightarrow> f x s = Some (g x s)"
  shows "foldOpt f xs s = Some (fold g xs s)"
  using assms by (induction xs arbitrary: s) auto

lemma goslice_full_range:
  "0 \<le> lo \<Longrightarrow> lo \<le> hi \<Longrightarrow> hi \<le> int (length xs)
   \<Longrightarrow> goslice xs lo hi = Some (take (nat (hi - lo)) (drop (nat lo) xs))"
  by (simp add: goslice_def)

section \<open>Generic interfaces\<close>

text \<open>A codec: whatever the encoder writes for an admissible value, the decoder reads back.\<close>

locale codec =
  fixes enc :: "'a \<Rightarrow> 'b"
    and dec :: "'b \<Rightarrow> 'a option"
    and ok :: "'a \<Rightarrow> bool"
  assumes dec_enc: "ok x \<Longrightarrow> dec (enc x) = Some x"
begin

lemma enc_inj: "ok x \<Longrightarrow> ok y \<Longrightarrow> enc x = enc y \<Longrightarrow> x = y"
  by (metis dec_enc option.inject)

lemma dec_map_enc: "(\<And>x. x \<in> set xs \<Longrightarrow> ok x) \<Longrightarrow> map dec (map enc xs) = map Some xs"
  by (simp add: dec_enc)

end

text \<open>A store of values under keys, as the sharded maps of the sources are used: a lookup sees the
  last write to its key and no other.\<close>

locale point_map =
  fixes get :: "'k \<Rightarrow> 's \<Rightarrow> 'v option"
    and put :: "'k \<Rightarrow> 'v \<Rightarrow> 's \<Rightarrow> 's"
    and del :: "'k \<Rightarrow> 's \<Rightarrow> 's"
  assumes get_put: "get k' (put k v s) = (if k' = k then Some v else get k' s)"
    and get_del: "get k' (del k s) = (if k' = k then None else get k' s)"
begin

lemma get_put_same: "get k (put k v s) = Some v"
  by (simp add: get_put)

lemma get_put_other: "k' \<noteq> k \<Longrightarrow> get k' (put k v s) = get k' s"
  by (simp add: get_put)

lemma get_fold_put:
  "get k (fold (\<lambda>(k, v). put k v) kvs s) = (case map_of (rev kvs) k of None \<Rightarrow> get k s | Some v \<Rightarrow> Some v)"
  by (induction kvs arbitrary: s) (auto simp: get_put map_add_def split: option.splits)

end

text \<open>A transition system with an invariant: what the start has and every step keeps holds in
  every state a run visits.\<close>

locale invariant_system =
  fixes init :: "'s \<Rightarrow> bool"
    and step :: "'s \<Rightarrow> 's \<Rightarrow> bool"
    and inv :: "'s \<Rightarrow> bool"
  assumes inv_init: "init s \<Longrightarrow> inv s"
    and inv_step: "inv s \<Longrightarrow> step s t \<Longrightarrow> inv t"
begin

lemma inv_run: "step\<^sup>*\<^sup>* s t \<Longrightarrow> inv s \<Longrightarrow> inv t"
  by (induction rule: rtranclp_induct) (auto intro: inv_step)

lemma inv_reachable: "init s \<Longrightarrow> step\<^sup>*\<^sup>* s t \<Longrightarrow> inv t"
  by (blast intro: inv_run inv_init)

end

end
