(* ===== verification/Strconv.thy ===== *)
theory Strconv
  imports Prelude
begin

text \<open>
  Package \<open>strconv\<close> as far as the sources use it: decimal printing of integers
  (\<open>AppendInt\<close>, \<open>FormatInt\<close>, \<open>Itoa\<close>, \<open>FormatUint\<close>) and the parsers \<open>ParseUint\<close>, \<open>ParseInt\<close>
  and \<open>Atoi\<close> with their two error values. A parser returns its value together with the error:
  callers that ignore the error still use the value, which is 0 for a syntax error and the
  nearest representable number for a range error.
\<close>

datatype num_err = ErrSyntax | ErrRange

definition digit_char :: "nat \<Rightarrow> char" where
  "digit_char d = char_of (48 + d)"

fun fmt_nat :: "nat \<Rightarrow> bytes" where
  "fmt_nat n = (if n < 10 then [digit_char n] else fmt_nat (n div 10) @ [digit_char (n mod 10)])"

declare fmt_nat.simps [simp del]

definition FormatInt :: "int \<Rightarrow> bytes" where
  "FormatInt n = (if n < 0 then CHR ''-'' # fmt_nat (nat (- n)) else fmt_nat (nat n))"

definition digit_val :: "char \<Rightarrow> nat option" where
  "digit_val ch =
     (let c = (of_char ch :: nat) in
      if 48 \<le> c \<and> c \<le> 57 then Some (c - 48)
      else if 97 \<le> c \<and> c \<le> 122 then Some (c - 87)
      else if 65 \<le> c \<and> c \<le> 90 then Some (c - 55)
      else None)"

text \<open>The loop of \<open>ParseUint\<close>: a range error ends it at once, before later characters are read.\<close>

fun uintLoop :: "nat \<Rightarrow> nat \<Rightarrow> nat \<Rightarrow> bytes \<Rightarrow> nat \<times> num_err option" where
  "uintLoop base mx n [] = (n, None)"
| "uintLoop base mx n (c # cs) =
     (case digit_val c of
        None \<Rightarrow> (0, Some ErrSyntax)
      | Some d \<Rightarrow>
          if base \<le> d then (0, Some ErrSyntax)
          else if mx < n * base + d then (mx, Some ErrRange)
          else uintLoop base mx (n * base + d) cs)"

definition ParseUint :: "bytes \<Rightarrow> nat \<Rightarrow> nat \<Rightarrow> nat \<times> num_err option" where
  "ParseUint s base bits =
     (if s = [] then (0, Some ErrSyntax) else uintLoop base (2 ^ bits - 1) 0 s)"

text \<open>\<open>ParseInt(s, 10, 64)\<close>; \<open>Atoi\<close> accepts the same strings and returns the same values.\<close>

definition ParseInt :: "bytes \<Rightarrow> int \<times> num_err option" where
  "ParseInt s =
     (if s = [] then (0, Some ErrSyntax)
      else
        let neg = (hd s = CHR ''-'');
            ds = (if hd s = CHR ''+'' \<or> neg then tl s else s);
            (un, err) = ParseUint ds 10 64
        in if err = Some ErrSyntax then (0, err)
           else if \<not> neg \<and> 2 ^ 63 \<le> un then (2 ^ 63 - 1, Some ErrRange)
           else if neg \<and> 2 ^ 63 < un then (- (2 ^ 63), Some ErrRange)
           else (if neg then - int un else int un, None))"

abbreviation Atoi :: "bytes \<Rightarrow> int \<times> num_err option" where
  "Atoi \<equiv> ParseInt"

abbreviation Itoa :: "int \<Rightarrow> bytes" where
  "Itoa \<equiv> FormatInt"

section \<open>Printing, then parsing\<close>

definition dec_value :: "nat \<Rightarrow> bytes \<Rightarrow> nat" where
  "dec_value acc ds = foldl (\<lambda>n c. n * 10 + (of_char c - 48)) acc ds"

definition is_dec :: "char \<Rightarrow> bool" where
  "is_dec c \<longleftrightarrow> 48 \<le> (of_char c :: nat) \<and> of_char c \<le> (57 :: nat)"

lemma of_char_digit_char [simp]: "d < 10 \<Longrightarrow> (of_char (digit_char d) :: nat) = 48 + d"
  by (simp add: digit_char_def)

lemma digit_chars: "digit_char (Suc 0) = CHR ''1''" "digit_char 0 = CHR ''0''" "digit_char 3 = CHR ''3''"
  by code_simp+

lemma is_dec_digit_char [simp]: "d < 10 \<Longrightarrow> is_dec (digit_char d)"
  by (simp add: is_dec_def)

lemma digit_val_dec: "is_dec c \<Longrightarrow> digit_val c = Some (of_char c - 48)"
  by (simp add: digit_val_def is_dec_def Let_def)

lemma is_dec_fmt_nat: "c \<in> set (fmt_nat n) \<Longrightarrow> is_dec c"
proof (induction n rule: fmt_nat.induct)
  case (1 n)
  then show ?case by (cases "n < 10") (auto simp: fmt_nat.simps [of n])
qed

lemma fmt_nat_not_Nil [simp]: "fmt_nat n \<noteq> []"
  by (subst fmt_nat.simps) simp

lemma dec_value_fmt_nat: "dec_value 0 (fmt_nat n) = n"
proof (induction n rule: fmt_nat.induct)
  case (1 n)
  then show ?case by (cases "n < 10") (simp_all add: fmt_nat.simps [of n] dec_value_def)
qed

lemma dec_value_mono: "acc \<le> dec_value acc ds"
  unfolding dec_value_def
proof (induction ds arbitrary: acc)
  case (Cons d ds)
  have "acc \<le> acc * 10 + (of_char d - 48)" by simp
  also have "\<dots> \<le> foldl (\<lambda>n c. n * 10 + (of_char c - 48)) (acc * 10 + (of_char d - 48)) ds"
    by (rule Cons.IH)
  finally show ?case by simp
qed simp

lemma uintLoop_dec:
  assumes "\<And>c. c \<in> set ds \<Longrightarrow> is_dec c" and "dec_value acc ds \<le> mx"
  shows "uintLoop 10 mx acc ds = (dec_value acc ds, None)"
  using assms
proof (induction ds arbitrary: acc)
  case Nil
  then show ?case by (simp add: dec_value_def)
next
  case (Cons d ds)
  let ?n = "acc * 10 + (of_char d - 48)"
  have d: "is_dec d" using Cons.prems(1) by simp
  have dv: "dec_value acc (d # ds) = dec_value ?n ds" by (simp add: dec_value_def)
  have "?n \<le> mx" using Cons.prems(2) dec_value_mono [of ?n ds] by (simp add: dv)
  moreover have "(of_char d :: nat) - 48 < 10" using d unfolding is_dec_def by linarith
  ultimately show ?case using Cons d by (simp add: digit_val_dec dv not_less)
qed

lemma ParseUint_fmt_nat:
  "n < 2 ^ bits \<Longrightarrow> ParseUint (fmt_nat n) 10 bits = (n, None)"
  by (simp add: ParseUint_def uintLoop_dec is_dec_fmt_nat dec_value_fmt_nat less_eq_nat.simps
      le_diff_conv2 Suc_leI)

lemma hd_fmt_nat: "is_dec (hd (fmt_nat n))"
  using fmt_nat_not_Nil hd_in_set is_dec_fmt_nat by blast

lemma hd_fmt_nat_not_sign: "hd (fmt_nat n) \<noteq> CHR ''-''" "hd (fmt_nat n) \<noteq> CHR ''+''"
  using hd_fmt_nat [of n] by (auto simp: is_dec_def)

lemma ParseInt_FormatInt [codec_simps]:
  assumes "in_i64 n"
  shows "ParseInt (FormatInt n) = (n, None)"
proof (cases "n < 0")
  case True
  with assms have "nat (- n) \<le> 2 ^ 63" by (simp add: in_i64_def)
  moreover from this have "ParseUint (fmt_nat (nat (- n))) 10 64 = (nat (- n), None)"
    by (intro ParseUint_fmt_nat) simp
  ultimately show ?thesis using True by (simp add: ParseInt_def FormatInt_def)
next
  case False
  with assms have b: "nat n < 2 ^ 63" by (simp add: in_i64_def)
  then have "ParseUint (fmt_nat (nat n)) 10 64 = (nat n, None)"
    by (intro ParseUint_fmt_nat) simp
  with False b show ?thesis
    by (simp add: ParseInt_def FormatInt_def hd_fmt_nat_not_sign)
qed

interpretation dec_int: codec FormatInt
  "\<lambda>s. case ParseInt s of (n, None) \<Rightarrow> Some n | _ \<Rightarrow> None" in_i64
  by unfold_locales (simp add: ParseInt_FormatInt)

lemma in_i64_ParseInt [wf_rules]: "in_i64 (fst (ParseInt s))"
  by (auto simp: ParseInt_def in_i64_def Let_def split: prod.splits)

section \<open>The characters of a printed number\<close>

lemma FormatInt_not_Nil [simp]: "FormatInt n \<noteq> []"
  by (simp add: FormatInt_def)

lemma FormatInt_chars: "c \<in> set (FormatInt n) \<Longrightarrow> is_dec c \<or> c = CHR ''-''"
  by (auto simp: FormatInt_def is_dec_fmt_nat split: if_splits)

lemma not_in_FormatInt [simp]:
  "\<not> is_dec c \<Longrightarrow> c \<noteq> CHR ''-'' \<Longrightarrow> c \<notin> set (FormatInt n)"
  using FormatInt_chars by blast

lemma is_dec_simps [simp]:
  "\<not> is_dec NL" "\<not> is_dec DQ" "\<not> is_dec BSL" "\<not> is_dec CHR '',''" "\<not> is_dec CHR ''}''"
  "\<not> is_dec CHR '':''" "\<not> is_dec CHR '' ''" "\<not> is_dec CHR 0x09" "\<not> is_dec CHR ''|''"
  "\<not> is_dec CHR ''n''" "\<not> is_dec CHR 0x0D"
  by (simp_all add: is_dec_def)

lemma space_first_not_num:
  assumes "w \<in> set spaceSeqs" and "w \<noteq> []"
  shows "\<not> is_dec (hd w) \<and> hd w \<noteq> CHR ''-''"
proof -
  have "list_all (\<lambda>w. \<not> is_dec (hd w) \<and> hd w \<noteq> CHR ''-'') spaceSeqs"
    by (simp add: spaceSeqs_def is_dec_def upt_rec char_of_def)
  with assms(1) show ?thesis by (auto simp: list_all_iff)
qed

lemma space_last_not_num:
  assumes "w \<in> set (map rev spaceSeqs)" and "w \<noteq> []"
  shows "\<not> is_dec (hd w) \<and> hd w \<noteq> CHR ''-''"
proof -
  have "list_all (\<lambda>w. \<not> is_dec (hd w) \<and> hd w \<noteq> CHR ''-'') (map rev spaceSeqs)"
    by (simp add: spaceSeqs_def is_dec_def upt_rec char_of_def)
  with assms(1) show ?thesis by (auto simp: list_all_iff)
qed

lemma TrimSpace_num:
  assumes "s \<noteq> []" and "\<And>c. c \<in> set s \<Longrightarrow> is_dec c \<or> c = CHR ''-''"
  shows "TrimSpace s = s"
proof -
  have hd: "is_dec (hd s) \<or> hd s = CHR ''-''" and last: "is_dec (hd (rev s)) \<or> hd (rev s) = CHR ''-''"
    using assms by (simp_all add: hd_rev)
  have "trimSeqs spaceSeqs s = s"
    by (rule trimSeqs_hd [OF assms(1)]) (use hd space_first_not_num in metis)
  moreover have "trimSeqs (map rev spaceSeqs) (rev s) = rev s"
    by (rule trimSeqs_hd) (use assms(1) last space_last_not_num in \<open>simp, metis\<close>)
  ultimately show ?thesis by (simp add: TrimSpace_def)
qed

lemma TrimSpace_FormatInt [codec_simps]: "TrimSpace (FormatInt n) = FormatInt n"
  by (rule TrimSpace_num) (use FormatInt_chars in auto)

section \<open>Sizes\<close>

lemma length_fmt_nat: "n < 10 ^ Suc k \<Longrightarrow> length (fmt_nat n) \<le> Suc k"
proof (induction k arbitrary: n)
  case 0
  then show ?case by (simp add: fmt_nat.simps)
next
  case (Suc k)
  then have "length (fmt_nat (n div 10)) \<le> Suc k" by (intro Suc(1)) (simp add: less_mult_imp_div_less)
  then show ?case by (subst fmt_nat.simps) auto
qed

lemma length_FormatInt: "in_i64 n \<Longrightarrow> length (FormatInt n) \<le> 20"
proof -
  assume "in_i64 n"
  then have "nat \<bar>n\<bar> < 10 ^ Suc 18" by (auto simp: in_i64_def nat_less_iff abs_if)
  then have "length (fmt_nat (nat \<bar>n\<bar>)) \<le> Suc 18" by (rule length_fmt_nat)
  then show ?thesis by (auto simp: FormatInt_def abs_if split: if_splits)
qed

end
