(* ===== verification/LogLine.thy ===== *)
theory LogLine
  imports Strconv
begin

text \<open>
  The log line format of \<open>internal/store/store.go\<close>: the printers \<open>esc\<close>, \<open>rowLine\<close>, \<open>hitLine\<close> and
  \<open>delLine\<close>, and the parsers \<open>parseOp\<close> and \<open>unescape\<close>. The parser's index arithmetic is written
  over the rest of the line (\<open>drop pos b\<close>). A panic of the Go code is the value \<open>Panics\<close>: an
  empty key (\<open>key[0]\<close>), or a value slice that runs past the capacity of the line's backing array.
  The argument \<open>ext\<close> holds the bytes between the line's length and that capacity.
\<close>

section \<open>Printing\<close>

definition hexdigits :: bytes where
  "hexdigits = ''0123456789abcdef''"

definition escByte :: "char \<Rightarrow> bytes" where
  "escByte c =
     (if c = DQ \<or> c = BSL then [BSL, c]
      else if c = NL then [BSL, CHR ''n'']
      else if c = CHR 0x0D then [BSL, CHR ''r'']
      else if c = CHR 0x09 then [BSL, CHR ''t'']
      else if c = CHR 0x08 then [BSL, CHR ''b'']
      else if c = CHR 0x0C then [BSL, CHR ''f'']
      else if (of_char c :: nat) < 0x20 then
        [BSL, CHR ''u'', CHR ''0'', CHR ''0'',
         hexdigits ! (of_char c div 16), hexdigits ! (of_char c mod 16)]
      else [c])"

fun esc :: "bytes \<Rightarrow> bytes \<Rightarrow> bytes" where
  "esc dst [] = dst"
| "esc dst (c # u) = esc (dst @ escByte c) u"

definition quoted :: "bytes \<Rightarrow> bytes" where
  "quoted s = DQ # s @ [DQ]"

definition rowLine :: "bytes \<Rightarrow> bytes \<Rightarrow> int \<Rightarrow> int \<Rightarrow> int \<Rightarrow> int \<Rightarrow> bytes" where
  "rowLine c u a e i n =
     (let b = ''{'' @ quoted ''c'' @ '':'' @ [DQ];
          b = b @ c;
          b = b @ [DQ] @ '','' @ quoted ''u'' @ '':'' @ [DQ];
          b = esc b u;
          b = b @ [DQ] @ '','' @ quoted ''a'' @ '':'';
          b = b @ FormatInt a;
          b = b @ '','' @ quoted ''e'' @ '':'';
          b = (if e = 0 then b @ ''null'' else b @ FormatInt e);
          b = b @ '','' @ quoted ''i'' @ '':'';
          b = b @ FormatInt i;
          b = b @ '','' @ quoted ''n'' @ '':'';
          b = b @ FormatInt n
      in b @ ''}'')"

definition hitLine :: "bytes \<Rightarrow> int \<Rightarrow> int \<Rightarrow> bytes" where
  "hitLine c d i =
     (let b = ''{'' @ quoted ''h'' @ '':'' @ [DQ];
          b = b @ c;
          b = b @ [DQ] @ '','' @ quoted ''d'' @ '':'';
          b = b @ FormatInt d;
          b = b @ '','' @ quoted ''i'' @ '':'';
          b = b @ FormatInt i
      in b @ ''}'')"

definition delLine :: "bytes \<Rightarrow> bytes" where
  "delLine c =
     (let b = ''{'' @ quoted ''x'' @ '':'' @ [DQ];
          b = b @ c
      in b @ [DQ] @ ''}'')"

section \<open>Parsing\<close>

record op =
  op_c :: bytes
  op_u :: bytes
  op_h :: bytes
  op_x :: bytes
  op_a :: int
  op_e :: int
  op_i :: int
  op_n :: int
  op_d :: int
  op_hasE :: bool

definition op_zero :: op where
  "op_zero = \<lparr>op_c = [], op_u = [], op_h = [], op_x = [], op_a = 0, op_e = 0, op_i = 0,
              op_n = 0, op_d = 0, op_hasE = False\<rparr>"

datatype parse_result = Panics | Rejected | Parsed op

text \<open>\<open>string(rune(v))\<close> for the values four hex digits can denote.\<close>

definition runeBytes :: "nat \<Rightarrow> bytes" where
  "runeBytes v =
     map char_of
       (if v < 0x80 then [v]
        else if v < 0x800 then [0xC0 + v div 64, 0x80 + v mod 64]
        else if 0xD800 \<le> v \<and> v \<le> 0xDFFF then [0xEF, 0xBF, 0xBD]
        else [0xE0 + v div 4096, 0x80 + v div 64 mod 64, 0x80 + v mod 64])"

definition unescSimple :: "char \<Rightarrow> char" where
  "unescSimple d =
     (if d = CHR ''n'' then NL
      else if d = CHR ''r'' then CHR 0x0D
      else if d = CHR ''t'' then CHR 0x09
      else if d = CHR ''b'' then CHR 0x08
      else if d = CHR ''f'' then CHR 0x0C
      else d)"

fun unescape :: "bytes \<Rightarrow> bytes" where
  "unescape [] = []"
| "unescape [c] = [c]"
| "unescape (c # d # rest) =
     (if c \<noteq> BSL then c # unescape (d # rest)
      else if d = CHR ''u'' then
        (if 4 \<le> length rest then
           (case ParseUint (take 4 rest) 16 32 of
              (v, None) \<Rightarrow> runeBytes v @ unescape (drop 4 rest)
            | (_, Some _) \<Rightarrow> CHR ''u'' # unescape rest)
         else CHR ''u'' # unescape rest)
      else unescSimple d # unescape rest)"

text \<open>
  The inner loop over a string value: the bytes of the value, whether it has escapes, and the
  rest of the line from the closing quote on.
\<close>

fun scanStr :: "bytes \<Rightarrow> bytes \<Rightarrow> (bytes \<times> bool \<times> bytes) option" where
  "scanStr ext [] = Some ([], False, [])"
| "scanStr ext (c # r) =
     (if c = BSL then
        (case r of
           [] \<Rightarrow> (case ext of [] \<Rightarrow> None | x # _ \<Rightarrow> Some ([BSL, x], True, []))
         | d # r' \<Rightarrow> map_option (\<lambda>(v, es, rest). (BSL # d # v, True, rest)) (scanStr ext r'))
      else if c = DQ then Some ([], False, DQ # r)
      else map_option (\<lambda>(v, es, rest). (c # v, es, rest)) (scanStr ext r))"

definition setStr :: "char \<Rightarrow> bytes \<Rightarrow> op \<Rightarrow> op" where
  "setStr k val o1 =
     (if k = CHR ''c'' then o1\<lparr>op_c := val\<rparr>
      else if k = CHR ''u'' then o1\<lparr>op_u := val\<rparr>
      else if k = CHR ''h'' then o1\<lparr>op_h := val\<rparr>
      else if k = CHR ''x'' then o1\<lparr>op_x := val\<rparr>
      else o1)"

definition setNum :: "char \<Rightarrow> bytes \<Rightarrow> op \<Rightarrow> op" where
  "setNum k num o1 =
     (if k = CHR ''a'' then o1\<lparr>op_a := fst (ParseInt num)\<rparr>
      else if k = CHR ''e'' then
        (if num \<noteq> ''null'' then o1\<lparr>op_e := fst (ParseInt num), op_hasE := True\<rparr> else o1)
      else if k = CHR ''i'' then o1\<lparr>op_i := fst (ParseInt num)\<rparr>
      else if k = CHR ''n'' then o1\<lparr>op_n := fst (ParseInt num)\<rparr>
      else if k = CHR ''d'' then o1\<lparr>op_d := fst (ParseInt num)\<rparr>
      else o1)"

definition finishOp :: "op \<Rightarrow> parse_result" where
  "finishOp o1 = (if op_c o1 \<noteq> [] \<or> op_h o1 \<noteq> [] \<or> op_x o1 \<noteq> [] then Parsed o1 else Rejected)"

abbreviation endNum :: "char \<Rightarrow> bool" where
  "endNum c \<equiv> c = CHR '','' \<or> c = CHR ''}''"

abbreviation blank :: "char \<Rightarrow> bool" where
  "blank c \<equiv> c = CHR '' '' \<or> c = CHR 0x09"

lemma scanStr_length: "scanStr ext b = Some (v, es, rest) \<Longrightarrow> length rest \<le> length b"
  by (induction ext b arbitrary: v es rest rule: scanStr.induct)
     (fastforce split: if_splits list.splits)+

lemma length_dropWhile_tl:
  "dropWhile P xs \<noteq> [] \<Longrightarrow> length (tl (dropWhile P xs)) < length xs"
  using length_dropWhile_le [of P xs] by (cases "dropWhile P xs") auto

function parseLoop :: "bytes \<Rightarrow> op \<Rightarrow> bytes \<Rightarrow> parse_result" where
  "parseLoop ext o1 b =
     (let r1 = dropWhile (\<lambda>c. c \<noteq> DQ) b in
      if r1 = [] then finishOp o1
      else
        let key = takeWhile (\<lambda>c. c \<noteq> DQ) (tl r1);
            r2 = dropWhile (\<lambda>c. c \<noteq> DQ) (tl r1)
        in if r2 = [] then Rejected
        else
          let r3 = dropWhile (\<lambda>c. c \<noteq> CHR '':'') (tl r2)
          in if r3 = [] then Rejected
          else
            let r4 = dropWhile (\<lambda>c. blank c) (tl r3)
            in if r4 = [] then Rejected
            else if hd r4 = DQ then
              (case scanStr ext (tl r4) of
                 None \<Rightarrow> Panics
               | Some (raw, escapes, rest) \<Rightarrow>
                   let val = (if escapes then unescape raw else raw)
                   in case key of
                        [] \<Rightarrow> Panics
                      | k # _ \<Rightarrow> parseLoop ext (setStr k val o1) (drop 1 rest))
            else
              let num = TrimSpace (takeWhile (\<lambda>c. \<not> endNum c) r4);
                  rest = dropWhile (\<lambda>c. \<not> endNum c) r4
              in case key of
                   [] \<Rightarrow> Panics
                 | k # _ \<Rightarrow> parseLoop ext (setNum k num o1) rest)"
  by pat_completeness auto
termination
proof (relation "measure (\<lambda>(ext, o1, b). length b)", goal_cases)
  case 1
  show ?case by simp
next
  case (2 ext o1 b r1 key r2 r3 r4 x raw p escapes rest val k ks)
  have "length (tl r4) < length (tl r3)" "length (tl r3) < length (tl r2)"
    "length (tl r2) < length (tl r1)" "length (tl r1) < length b"
    using 2 length_dropWhile_tl by metis+
  moreover have "length rest \<le> length (tl r4)" using 2 scanStr_length by metis
  ultimately show ?case by simp
next
  case (3 ext o1 b r1 key r2 r3 r4 num rest k ks)
  have "length rest \<le> length r4" "length r4 \<le> length (tl r3)"
    using 3 length_dropWhile_le by metis+
  moreover have "length (tl r3) < length (tl r2)" "length (tl r2) < length (tl r1)"
    "length (tl r1) < length b"
    using 3 length_dropWhile_tl by metis+
  ultimately show ?case by simp
qed

declare parseLoop.simps [simp del]

definition parseOp :: "bytes \<Rightarrow> bytes \<Rightarrow> parse_result" where
  "parseOp b ext = parseLoop ext op_zero b"

section \<open>Escaping\<close>

text \<open>A string that needs no escaping inside quotes: what \<open>codeOK\<close> admits is of this kind.\<close>

definition plain :: "bytes \<Rightarrow> bool" where
  "plain s \<longleftrightarrow> DQ \<notin> set s \<and> BSL \<notin> set s"

abbreviation escaped :: "bytes \<Rightarrow> bytes" where
  "escaped u \<equiv> concat (map escByte u)"

lemma esc_append: "esc dst u = dst @ escaped u"
  by (induction u arbitrary: dst) simp_all

lemma digit_val_hexdigits: "n < 16 \<Longrightarrow> digit_val (hexdigits ! n) = Some n"
proof -
  have "\<forall>n \<in> set [0..<16]. digit_val (hexdigits ! n) = Some n"
    by (simp add: upt_rec hexdigits_def digit_val_def)
  then show "n < 16 \<Longrightarrow> ?thesis" by simp
qed

lemma escByte_hex:
  assumes "n < 32"
  shows "ParseUint [CHR ''0'', CHR ''0'', hexdigits ! (n div 16), hexdigits ! (n mod 16)] 16 32
         = (n, None)"
proof -
  have "digit_val (hexdigits ! (n div 16)) = Some (n div 16)"
    "digit_val (hexdigits ! (n mod 16)) = Some (n mod 16)"
    using assms by (simp_all add: digit_val_hexdigits)
  moreover have "digit_val (CHR ''0'') = Some 0" by (simp add: digit_val_def)
  moreover have "n div 16 * 16 + n mod 16 = n" "n div 16 < 16" using assms by simp_all
  ultimately show ?thesis using assms by (simp add: ParseUint_def)
qed

lemma escByte_control:
  assumes "(of_char c :: nat) < 32"
  shows "unescape (escByte c @ s) = c # unescape s"
  using assms escByte_hex [OF assms]
  by (simp add: escByte_def unescSimple_def runeBytes_def)

lemma unescape_Cons_plain: "c \<noteq> BSL \<Longrightarrow> unescape (c # s) = c # unescape s"
  by (cases s) simp_all

lemma unescape_escByte: "unescape (escByte c @ s) = c # unescape s"
proof (cases "(of_char c :: nat) < 32")
  case True
  then show ?thesis by (rule escByte_control)
next
  case False
  then show ?thesis
    by (auto simp: escByte_def unescSimple_def unescape_Cons_plain)
qed

lemma unescape_escaped [codec_simps]: "unescape (escaped u) = u"
  by (induction u) (simp_all add: unescape_escByte)

lemma unescape_plain: "BSL \<notin> set s \<Longrightarrow> unescape s = s"
  by (induction s) (auto simp: unescape_Cons_plain)

interpretation esc_codec: codec "esc []" "\<lambda>s. Some (unescape s)" "\<lambda>_. True"
  by unfold_locales (simp add: esc_append unescape_escaped)

text \<open>The scanner finds the end of an escaped value.\<close>

definition self_delimiting :: "bytes \<Rightarrow> bool" where
  "self_delimiting raw \<longleftrightarrow>
     (\<forall>ext r. \<exists>es. scanStr ext (raw @ DQ # r) = Some (raw, es, DQ # r) \<and> (\<not> es \<longrightarrow> BSL \<notin> set raw))"

lemma self_delimiting_Nil: "self_delimiting []"
  by (auto simp: self_delimiting_def)

lemma self_delimiting_plain_Cons:
  assumes "c \<noteq> DQ" "c \<noteq> BSL" "self_delimiting raw"
  shows "self_delimiting (c # raw)"
  unfolding self_delimiting_def
proof (intro allI)
  fix ext r
  from assms(3) obtain es where "scanStr ext (raw @ DQ # r) = Some (raw, es, DQ # r)"
    "\<not> es \<longrightarrow> BSL \<notin> set raw" unfolding self_delimiting_def by blast
  with assms(1,2) show "\<exists>es. scanStr ext ((c # raw) @ DQ # r) = Some (c # raw, es, DQ # r)
      \<and> (\<not> es \<longrightarrow> BSL \<notin> set (c # raw))"
    by (intro exI [of _ es]) simp
qed

lemma self_delimiting_escape_Cons:
  assumes "self_delimiting raw"
  shows "self_delimiting (BSL # d # raw)"
  unfolding self_delimiting_def
proof (intro allI)
  fix ext r
  from assms obtain es where "scanStr ext (raw @ DQ # r) = Some (raw, es, DQ # r)"
    unfolding self_delimiting_def by blast
  then show "\<exists>es. scanStr ext ((BSL # d # raw) @ DQ # r) = Some (BSL # d # raw, es, DQ # r)
      \<and> (\<not> es \<longrightarrow> BSL \<notin> set (BSL # d # raw))"
    by (intro exI [of _ True]) simp
qed

lemma hexdigits_plain:
  assumes "n < 16"
  shows "hexdigits ! n \<noteq> DQ" "hexdigits ! n \<noteq> BSL"
proof -
  have "list_all (\<lambda>c. c \<noteq> DQ \<and> c \<noteq> BSL) hexdigits" by (simp add: hexdigits_def)
  moreover have "length hexdigits = 16" by (simp add: hexdigits_def)
  ultimately show "hexdigits ! n \<noteq> DQ" "hexdigits ! n \<noteq> BSL"
    using assms by (simp_all add: list_all_length)
qed

lemma self_delimiting_escByte:
  assumes "self_delimiting raw"
  shows "self_delimiting (escByte c @ raw)"
proof (cases "c \<in> set [DQ, BSL, NL, CHR 0x0D, CHR 0x09, CHR 0x08, CHR 0x0C]")
  case True
  then have "\<exists>d. escByte c = [BSL, d]"
    by (auto simp: escByte_def)
  with assms show ?thesis by (auto intro: self_delimiting_escape_Cons)
next
  case special: False
  show ?thesis
  proof (cases "(of_char c :: nat) < 32")
    case True
    with special have hex: "escByte c = [BSL, CHR ''u'', CHR ''0'', CHR ''0'',
        hexdigits ! (of_char c div 16), hexdigits ! (of_char c mod 16)]"
      by (simp add: escByte_def)
    from True have "of_char c div 16 < (16 :: nat)" "of_char c mod 16 < (16 :: nat)" by auto
    then show ?thesis
      unfolding hex append_Cons append_Nil
      by (intro self_delimiting_escape_Cons self_delimiting_plain_Cons assms hexdigits_plain)
         simp_all
  next
    case False
    with special have "escByte c = [c]" by (simp add: escByte_def)
    with special assms show ?thesis by (simp add: self_delimiting_plain_Cons)
  qed
qed

lemma self_delimiting_escaped: "self_delimiting (escaped u)"
  by (induction u) (simp_all add: self_delimiting_Nil self_delimiting_escByte)

lemma self_delimiting_plain: "plain s \<Longrightarrow> self_delimiting s"
  by (induction s) (auto simp: plain_def self_delimiting_Nil intro!: self_delimiting_plain_Cons)

section \<open>Parsing one field\<close>

lemma parseLoop_field:
  assumes "DQ \<notin> set pre" and "DQ \<notin> set ks" and "k \<noteq> DQ"
  shows "parseLoop ext o1 (pre @ quoted (k # ks) @ CHR '':'' # x) =
     (let r4 = dropWhile (\<lambda>c. blank c) x
      in if r4 = [] then Rejected
         else if hd r4 = DQ then
           (case scanStr ext (tl r4) of
              None \<Rightarrow> Panics
            | Some (raw, escapes, rest) \<Rightarrow>
                parseLoop ext (setStr k (if escapes then unescape raw else raw) o1) (drop 1 rest))
         else parseLoop ext (setNum k (TrimSpace (takeWhile (\<lambda>c. \<not> endNum c) r4)) o1)
                (dropWhile (\<lambda>c. \<not> endNum c) r4))"
proof -
  let ?b = "pre @ quoted (k # ks) @ CHR '':'' # x"
  have r1: "dropWhile (\<lambda>c. c \<noteq> DQ) ?b = DQ # (k # ks) @ DQ # CHR '':'' # x"
    using assms(1) by (simp add: quoted_def dropWhile_neq_append)
  have key: "takeWhile (\<lambda>c. c \<noteq> DQ) ((k # ks) @ DQ # CHR '':'' # x) = k # ks"
    and r2: "dropWhile (\<lambda>c. c \<noteq> DQ) ((k # ks) @ DQ # CHR '':'' # x) = DQ # CHR '':'' # x"
    using assms(2,3) by (simp_all add: takeWhile_neq_append dropWhile_neq_append)
  show ?thesis
    unfolding parseLoop.simps [of ext o1 ?b] Let_def r1 list.sel key r2
    by (simp del: dropWhile_eq_Nil_conv) (simp split: option.split prod.split)
qed

lemma parseLoop_str:
  assumes "DQ \<notin> set pre" and "DQ \<notin> set ks" and "k \<noteq> DQ" and "self_delimiting raw"
  shows "parseLoop ext o1 (pre @ quoted (k # ks) @ CHR '':'' # DQ # raw @ DQ # rest)
         = parseLoop ext (setStr k (unescape raw) o1) rest"
proof -
  obtain es where es: "scanStr ext (raw @ DQ # rest) = Some (raw, es, DQ # rest)"
    "\<not> es \<longrightarrow> BSL \<notin> set raw"
    using assms(4) unfolding self_delimiting_def by blast
  then have "(if es then unescape raw else raw) = unescape raw"
    by (simp add: unescape_plain)
  with es(1) show ?thesis by (simp add: parseLoop_field assms(1-3))
qed

lemma parseLoop_num:
  assumes "DQ \<notin> set pre" and "DQ \<notin> set ks" and "k \<noteq> DQ" and "endNum t"
    and "num \<noteq> []" and "hd num \<noteq> DQ" and "\<not> blank (hd num)" and "\<And>c. c \<in> set num \<Longrightarrow> \<not> endNum c"
  shows "parseLoop ext o1 (pre @ quoted (k # ks) @ CHR '':'' # num @ t # rest)
         = parseLoop ext (setNum k (TrimSpace num) o1) (t # rest)"
proof -
  have "takeWhile (\<lambda>c. \<not> endNum c) (num @ t # rest) = num"
    "dropWhile (\<lambda>c. \<not> endNum c) (num @ t # rest) = t # rest"
    using assms(4,8) by (auto simp: takeWhile_append2 dropWhile_append2)
  moreover have "dropWhile (\<lambda>c. blank c) (num @ t # rest) = num @ t # rest"
    using assms(5,7) by (cases num) auto
  ultimately show ?thesis using assms(5,6) by (simp add: parseLoop_field assms(1-3))
qed

lemma parseLoop_end:
  assumes "DQ \<notin> set b"
  shows "parseLoop ext o1 b = finishOp o1"
proof -
  have "dropWhile (\<lambda>c. c \<noteq> DQ) b = []" using assms by (auto simp: dropWhile_eq_Nil_conv)
  then show ?thesis unfolding parseLoop.simps [of ext o1 b] by simp
qed

section \<open>Log records\<close>

text \<open>
  What a line says, independently of its bytes: a row, a hit delta or a tombstone. \<open>lineOf\<close> prints
  a record with the code's printers, \<open>opOf\<close> is the value \<open>parseOp\<close> is expected to return for it.
\<close>

datatype logrec =
    Row bytes bytes int int int int
  | Hit bytes int int
  | Del bytes

fun lineOf :: "logrec \<Rightarrow> bytes" where
  "lineOf (Row c u a e i n) = rowLine c u a e i n"
| "lineOf (Hit c d i) = hitLine c d i"
| "lineOf (Del c) = delLine c"

fun opOf :: "logrec \<Rightarrow> op" where
  "opOf (Row c u a e i n) =
     op_zero\<lparr>op_c := c, op_u := u, op_a := a, op_e := e, op_hasE := (e \<noteq> 0), op_i := i, op_n := n\<rparr>"
| "opOf (Hit c d i) = op_zero\<lparr>op_h := c, op_d := d, op_i := i\<rparr>"
| "opOf (Del c) = op_zero\<lparr>op_x := c\<rparr>"

definition code_ok :: "bytes \<Rightarrow> bool" where
  "code_ok c \<longleftrightarrow> c \<noteq> [] \<and> plain c \<and> NL \<notin> set c"

fun rec_ok :: "logrec \<Rightarrow> bool" where
  "rec_ok (Row c u a e i n) \<longleftrightarrow> code_ok c \<and> in_i64 a \<and> in_i64 e \<and> in_i64 i \<and> in_i64 n"
| "rec_ok (Hit c d i) \<longleftrightarrow> code_ok c \<and> in_i64 d \<and> in_i64 i"
| "rec_ok (Del c) \<longleftrightarrow> code_ok c"

lemma parseLoop_int:
  assumes "DQ \<notin> set pre" and "DQ \<notin> set ks" and "k \<noteq> DQ" and "endNum t"
  shows "parseLoop ext o1 (pre @ quoted (k # ks) @ CHR '':'' # FormatInt n @ t # rest)
         = parseLoop ext (setNum k (FormatInt n) o1) (t # rest)"
proof -
  have nd: "is_dec c \<or> c = CHR ''-''" if "c \<in> set (FormatInt n)" for c
    using that by (rule FormatInt_chars)
  have hd: "is_dec (hd (FormatInt n)) \<or> hd (FormatInt n) = CHR ''-''" by (simp add: nd)
  have "parseLoop ext o1 (pre @ quoted (k # ks) @ CHR '':'' # FormatInt n @ t # rest)
        = parseLoop ext (setNum k (TrimSpace (FormatInt n)) o1) (t # rest)"
    by (rule parseLoop_num [OF assms]) (use hd in \<open>auto dest!: nd\<close>)
  then show ?thesis by (simp add: TrimSpace_FormatInt)
qed

lemma TrimSpace_null: "TrimSpace ''null'' = ''null''"
proof -
  have "list_all (\<lambda>w. hd w \<noteq> CHR ''n'') spaceSeqs" "list_all (\<lambda>w. hd w \<noteq> CHR ''l'') (map rev spaceSeqs)"
    by (simp_all add: spaceSeqs_def upt_rec char_of_def)
  then have "trimSeqs spaceSeqs ''null'' = ''null''" "trimSeqs (map rev spaceSeqs) ''llun'' = ''llun''"
    by (auto intro!: trimSeqs_hd simp: list_all_iff)
  then show ?thesis by (simp add: TrimSpace_def)
qed

lemma FormatInt_not_null: "FormatInt n \<noteq> ''null''"
proof
  assume "FormatInt n = ''null''"
  then have "CHR ''n'' \<in> set (FormatInt n)" by simp
  then show False using FormatInt_chars by fastforce
qed

text \<open>The expiry field of a row: a number, or \<open>null\<close> for 0.\<close>

definition expText :: "int \<Rightarrow> bytes" where
  "expText e = (if e = 0 then ''null'' else FormatInt e)"

lemma parseLoop_exp:
  assumes "DQ \<notin> set pre" and "endNum t" and "in_i64 e" and "op_e o1 = 0" and "\<not> op_hasE o1"
  shows "parseLoop ext o1 (pre @ quoted ''e'' @ CHR '':'' # expText e @ t # rest)
         = parseLoop ext (o1\<lparr>op_e := e, op_hasE := (e \<noteq> 0)\<rparr>) (t # rest)"
proof (cases "e = 0")
  case True
  have "parseLoop ext o1 (pre @ quoted ''e'' @ CHR '':'' # ''null'' @ t # rest)
        = parseLoop ext (setNum CHR ''e'' (TrimSpace ''null'') o1) (t # rest)"
    by (rule parseLoop_num) (use assms in auto)
  moreover have "o1\<lparr>op_e := 0, op_hasE := False\<rparr> = o1" using assms(4,5) by (cases o1) simp
  ultimately show ?thesis using True by (simp add: expText_def TrimSpace_null setNum_def)
next
  case False
  have "parseLoop ext o1 (pre @ quoted ''e'' @ CHR '':'' # FormatInt e @ t # rest)
        = parseLoop ext (setNum CHR ''e'' (FormatInt e) o1) (t # rest)"
    by (rule parseLoop_int) (use assms in auto)
  with False assms(3) show ?thesis
    by (simp add: expText_def setNum_def FormatInt_not_null ParseInt_FormatInt)
qed

text \<open>The three field rules for a field that follows one separator character.\<close>

lemmas parse_field =
  parseLoop_str [where pre = "[p]" and ks = "[]" for p, simplified]
  parseLoop_int [where pre = "[p]" and ks = "[]" for p, simplified]
  parseLoop_exp [where pre = "[p]" for p, simplified]

lemma rowLine_fields:
  "rowLine c u a e i n =
     CHR ''{'' # quoted ''c'' @ CHR '':'' # DQ # c @ DQ #
     CHR '','' # quoted ''u'' @ CHR '':'' # DQ # escaped u @ DQ #
     CHR '','' # quoted ''a'' @ CHR '':'' # FormatInt a @
     CHR '','' # quoted ''e'' @ CHR '':'' # expText e @
     CHR '','' # quoted ''i'' @ CHR '':'' # FormatInt i @
     CHR '','' # quoted ''n'' @ CHR '':'' # FormatInt n @ ''}''"
  by (simp add: rowLine_def esc_append expText_def Let_def)

lemma parseOp_lineOf [codec_simps]:
  assumes "rec_ok r"
  shows "parseOp (lineOf r) ext = Parsed (opOf r)"
proof (cases r)
  case (Row c u a e i n)
  with assms show ?thesis
    by (simp add: parseOp_def rowLine_fields parse_field parseLoop_end code_ok_def plain_def
        self_delimiting_plain self_delimiting_escaped unescape_escaped unescape_plain
        setStr_def setNum_def ParseInt_FormatInt finishOp_def op_zero_def)
next
  case (Hit c d i)
  with assms show ?thesis
    by (simp add: parseOp_def hitLine_def Let_def parse_field parseLoop_end code_ok_def plain_def
        self_delimiting_plain unescape_plain
        setStr_def setNum_def ParseInt_FormatInt finishOp_def op_zero_def)
next
  case (Del c)
  with assms show ?thesis
    by (simp add: parseOp_def delLine_def Let_def parse_field parseLoop_end code_ok_def plain_def
        self_delimiting_plain unescape_plain setStr_def finishOp_def op_zero_def)
qed

text \<open>The record a parsed line stands for, in the order of the tests of \<open>apply\<close>.\<close>

definition recOf :: "op \<Rightarrow> logrec" where
  "recOf x = (if op_x x \<noteq> [] then Del (op_x x)
              else if op_h x \<noteq> [] then Hit (op_h x) (op_d x) (op_i x)
              else Row (op_c x) (op_u x) (op_a x) (op_e x) (op_i x) (op_n x))"

definition decLine :: "bytes \<Rightarrow> logrec option" where
  "decLine b = (case parseOp b [NL] of Parsed x \<Rightarrow> Some (recOf x) | _ \<Rightarrow> None)"

lemma recOf_opOf: "rec_ok r \<Longrightarrow> recOf (opOf r) = r"
  by (cases r) (auto simp: recOf_def op_zero_def code_ok_def)

interpretation line_codec: codec lineOf decLine rec_ok
  by unfold_locales (simp add: decLine_def parseOp_lineOf recOf_opOf)

section \<open>A line is one line\<close>

lemma NL_notin_escByte: "NL \<notin> set (escByte c)"
proof -
  have nl: "hexdigits ! k \<noteq> NL" if "k < 16" for k
  proof -
    have "list_all (\<lambda>c. c \<noteq> NL) hexdigits" "length hexdigits = 16" by (simp_all add: hexdigits_def)
    with that show ?thesis by (simp add: list_all_length)
  qed
  have "hexdigits ! (of_char c mod 16) \<noteq> NL" by (simp add: nl)
  moreover have "hexdigits ! (of_char c div 16) \<noteq> NL" if "(of_char c :: nat) < 32"
    using that by (intro nl) linarith
  ultimately show ?thesis by (auto simp: escByte_def)
qed

lemma NL_notin_lineOf: "rec_ok r \<Longrightarrow> NL \<notin> set (lineOf r)"
  by (cases r)
     (auto simp: rowLine_fields hitLine_def delLine_def Let_def quoted_def expText_def code_ok_def
        NL_notin_escByte)

lemma lineOf_not_Nil [simp]: "lineOf r \<noteq> []"
  by (cases r) (simp_all add: rowLine_fields hitLine_def delLine_def Let_def)

text \<open>C22. Log lines round-trip: for a code without quotes, backslashes or newlines, any url, any
  64-bit numbers, the line written for a row, a hit delta or a deletion contains no newline and
  parses back to exactly its fields, whatever bytes follow it in memory.\<close>

theorem log_line_roundtrip:
  assumes "rec_ok r"
  shows "parseOp (lineOf r) ext = Parsed (opOf r) \<and> NL \<notin> set (lineOf r) \<and> lineOf r \<noteq> []"
  using assms by (simp add: parseOp_lineOf NL_notin_lineOf)

theorem log_line_roundtrip_witness:
  "parseOp (rowLine ''0abc'' [DQ, NL, BSL] 5 (-1) 0 7) []
   = Parsed (op_zero\<lparr>op_c := ''0abc'', op_u := [DQ, NL, BSL], op_a := 5, op_e := -1, op_hasE := True, op_n := 7\<rparr>)"
  using log_line_roundtrip [of "Row ''0abc'' [DQ, NL, BSL] 5 (-1) 0 7" "[]"]
  by (simp add: code_ok_def plain_def in_i64_def op_zero_def)

text \<open>Escaping is lossless: unescaping what \<open>esc\<close> wrote returns every byte of the url, for any
  bytes, and different urls are written differently.\<close>

theorem unescape_esc:
  "unescape (esc [] u) = u \<and> (esc [] u = esc [] v \<longleftrightarrow> u = v)"
  using esc_codec.dec_enc [of u] esc_codec.enc_inj [of u v] by auto

end
