(* ===== verification/Base62.thy ===== *)
theory Base62
  imports Strconv
begin

text \<open>
  \<open>internal/base62/base62.go\<close>: the alphabet and \<open>Encode\<close>, with its eleven-byte buffer; and the
  reverse table \<open>alphaIdx\<close> and the random suffix of \<open>internal/store/store.go\<close>, which rest on the
  alphabet. \<open>Encode\<close> is shown never to overrun its buffer and to be inverted by positional
  decoding; the table is shown to be the inverse of indexing.
\<close>

definition ALPHABET :: bytes where
  "ALPHABET = ''0123456789abcdefghijklmnopqrstuvwxyzABCDEFGHIJKLMNOPQRSTUVWXYZ''"

text \<open>
  The loop of \<open>Encode\<close>: \<open>i\<close> bytes of the buffer are still free, \<open>acc\<close> is \<open>buf[i:]\<close>; writing
  below index 0 would panic.
\<close>

fun encodeLoop :: "nat \<Rightarrow> 64 word \<Rightarrow> bytes \<Rightarrow> bytes option" where
  "encodeLoop i n acc =
     (if n = 0 then Some acc
      else case i of
             0 \<Rightarrow> None
           | Suc j \<Rightarrow> encodeLoop j (n div 62) (ALPHABET ! unat (n mod 62) # acc))"

declare encodeLoop.simps [simp del]

definition Encode :: "64 word \<Rightarrow> bytes option" where
  "Encode n = (if n = 0 then Some ''0'' else encodeLoop 11 n [])"

text \<open>\<open>alphaIdx\<close> of \<open>store.go\<close>: a 256-entry table filled with \<open>-1\<close>, then with the alphabet's
  indices.\<close>

definition alphaIdx :: "char \<Rightarrow> int" where
  "alphaIdx = fold (\<lambda>i t. t(ALPHABET ! i := int i)) [0..<length ALPHABET] (\<lambda>_. -1)"

text \<open>\<open>maxInstances\<close>, \<open>codeLen\<close>, and \<open>randSuffix\<close> on the bytes the CSPRNG delivered.\<close>

definition maxInstances :: nat where
  "maxInstances = 62"

definition codeLen :: nat where
  "codeLen = 8"

definition randSuffix :: "bytes \<Rightarrow> bytes" where
  "randSuffix buf = map (\<lambda>k. ALPHABET ! (of_char (buf ! k) mod maxInstances)) [0..<codeLen - 1]"

section \<open>The alphabet\<close>

lemma length_ALPHABET [simp]: "length ALPHABET = 62"
  by (simp add: ALPHABET_def)

lemma distinct_ALPHABET: "distinct ALPHABET"
  by (simp add: ALPHABET_def)

lemma ALPHABET_nth_eq: "i < 62 \<Longrightarrow> j < 62 \<Longrightarrow> ALPHABET ! i = ALPHABET ! j \<longleftrightarrow> i = j"
  by (simp add: nth_eq_iff_index_eq [OF distinct_ALPHABET])

lemma fold_table:
  assumes "distinct xs" and "n \<le> length xs"
  shows "fold (\<lambda>i t. t(xs ! i := int i)) [0..<n] f c
         = (if c \<in> set (take n xs) then int (the (IndexByte xs c)) else f c)"
  using assms(2)
proof (induction n)
  case 0
  then show ?case by simp
next
  case (Suc n)
  have nth: "IndexByte xs (xs ! n) = Some n"
  proof -
    have "xs ! n \<notin> set (take n xs)"
      using assms(1) Suc.prems by (auto simp: in_set_conv_nth nth_eq_iff_index_eq)
    then show ?thesis
      using IndexByte_split [of "xs ! n" "take n xs" "drop (Suc n) xs"] Suc.prems
      by (simp add: id_take_nth_drop [symmetric])
  qed
  show ?case using Suc nth by (auto simp: take_Suc_conv_app_nth)
qed

lemma alphaIdx_eq: "alphaIdx c = (case IndexByte ALPHABET c of None \<Rightarrow> -1 | Some i \<Rightarrow> int i)"
  unfolding alphaIdx_def
  by (subst fold_table [OF distinct_ALPHABET])
     (auto split: option.split simp: IndexByte_None [symmetric] simp del: IndexByte_None)

lemma IndexByte_ALPHABET: "i < 62 \<Longrightarrow> IndexByte ALPHABET (ALPHABET ! i) = Some i"
proof -
  assume i: "i < 62"
  then have "ALPHABET ! i \<in> set ALPHABET" by simp
  then obtain j where j: "IndexByte ALPHABET (ALPHABET ! i) = Some j"
    using IndexByte_None by blast
  from IndexByte_SomeD [OF this] i have "j = i" by (metis ALPHABET_nth_eq length_ALPHABET)
  with j show ?thesis by simp
qed

lemma alphaIdx_nth [simp]: "i < 62 \<Longrightarrow> alphaIdx (ALPHABET ! i) = int i"
  by (simp add: alphaIdx_eq IndexByte_ALPHABET)

lemma alphaIdx_bounds: "-1 \<le> alphaIdx c" "alphaIdx c < 62"
  by (auto simp: alphaIdx_eq split: option.split dest!: IndexByte_SomeD)

lemma alphaIdx_nonneg: "0 \<le> alphaIdx c \<Longrightarrow> ALPHABET ! nat (alphaIdx c) = c"
  by (auto simp: alphaIdx_eq split: option.splits dest!: IndexByte_SomeD)

section \<open>Encode\<close>

text \<open>Positional value of a base-62 string.\<close>

definition value62 :: "nat \<Rightarrow> bytes \<Rightarrow> nat" where
  "value62 acc s = foldl (\<lambda>v c. v * 62 + nat (alphaIdx c)) acc s"

lemma value62_Cons: "value62 acc (c # s) = value62 (acc * 62 + nat (alphaIdx c)) s"
  by (simp add: value62_def)

lemma unat_div62: "unat ((n :: 64 word) div 62) = unat n div 62"
  by (simp add: unat_div_distrib)

lemma unat_mod62: "unat ((n :: 64 word) mod 62) = unat n mod 62"
  by (simp add: unat_mod_distrib)

lemma encodeLoop_enough:
  assumes "unat n < 62 ^ i"
  shows "\<exists>ds. encodeLoop i n acc = Some (ds @ acc) \<and> length ds \<le> i \<and> set ds \<subseteq> set ALPHABET
              \<and> (\<forall>v. value62 v (ds @ acc) = value62 (v * 62 ^ length ds + unat n) acc)"
  using assms
proof (induction i arbitrary: n acc)
  case 0
  then have "n = 0" by (simp add: unat_eq_zero [symmetric])
  then show ?case by (intro exI [of _ "[]"]) (simp add: encodeLoop.simps)
next
  case (Suc i)
  show ?case
  proof (cases "n = 0")
    case True
    then show ?thesis by (intro exI [of _ "[]"]) (simp add: encodeLoop.simps)
  next
    case False
    let ?d = "ALPHABET ! unat (n mod 62)"
    have m: "unat n mod 62 < 62" by simp
    have "unat (n div 62) < 62 ^ i"
      using Suc.prems by (simp add: unat_div62 less_mult_imp_div_less mult.commute)
    from Suc.IH [OF this, of "?d # acc"] obtain ds where ds:
      "encodeLoop i (n div 62) (?d # acc) = Some (ds @ ?d # acc)" "length ds \<le> i"
      "set ds \<subseteq> set ALPHABET"
      "\<forall>v. value62 v (ds @ ?d # acc) = value62 (v * 62 ^ length ds + unat (n div 62)) (?d # acc)"
      by auto
    have "\<forall>v. value62 v ((ds @ [?d]) @ acc)
              = value62 (v * 62 ^ length (ds @ [?d]) + unat n) acc"
      using ds(4) m by (simp add: value62_Cons unat_div62 unat_mod62 algebra_simps)
    moreover have "encodeLoop (Suc i) n acc = Some ((ds @ [?d]) @ acc)"
      using False ds(1) by (simp add: encodeLoop.simps [of "Suc i"])
    moreover have "set (ds @ [?d]) \<subseteq> set ALPHABET"
      using ds(3) m by (simp add: unat_mod62)
    moreover have "length (ds @ [?d]) \<le> Suc i" using ds(2) by simp
    ultimately show ?thesis by blast
  qed
qed

lemma Encode_total:
  "\<exists>s. Encode n = Some s \<and> length s \<le> 11 \<and> s \<noteq> [] \<and> set s \<subseteq> set ALPHABET \<and> value62 0 s = unat n"
proof (cases "n = 0")
  case True
  then show ?thesis by (simp add: Encode_def value62_def ALPHABET_def alphaIdx_eq)
next
  case False
  have "unat n < 62 ^ 11"
    using unsigned_less [of n] by (rule less_le_trans) simp
  from encodeLoop_enough [OF this, of "[]"] obtain ds where ds:
    "encodeLoop 11 n [] = Some ds" "length ds \<le> 11" "set ds \<subseteq> set ALPHABET"
    "\<forall>v. value62 v ds = value62 (v * 62 ^ length ds + unat n) []"
    by auto
  from ds(4) have "value62 0 ds = unat n" by (simp add: value62_def)
  moreover from this False have "ds \<noteq> []" by (auto simp: value62_def unat_eq_zero)
  ultimately show ?thesis using ds False by (auto simp: Encode_def)
qed

interpretation b62: codec "\<lambda>n. the (Encode n)" "\<lambda>s. Some (word_of_nat (value62 0 s) :: 64 word)"
  "\<lambda>_. True"
proof unfold_locales
  fix n :: "64 word"
  obtain s where "Encode n = Some s" "value62 0 s = unat n" using Encode_total by blast
  then show "Some (word_of_nat (value62 0 (the (Encode n)))) = Some n" by simp
qed

section \<open>Random codes\<close>

lemma length_randSuffix [simp]: "length (randSuffix buf) = 7"
  by (simp add: randSuffix_def codeLen_def)

lemma randSuffix_ALPHABET: "set (randSuffix buf) \<subseteq> set ALPHABET"
  by (auto simp: randSuffix_def maxInstances_def intro!: nth_mem)

text \<open>Every seven-character base-62 suffix is produced by some draw.\<close>

lemma randSuffix_surj:
  assumes "length t = 7" and "set t \<subseteq> set ALPHABET"
  shows "\<exists>buf. length buf = 7 \<and> randSuffix buf = t"
proof (intro exI conjI)
  let ?buf = "map (\<lambda>c. char_of (nat (alphaIdx c)) :: char) t"
  show "length ?buf = 7" using assms(1) by simp
  have eq: "ALPHABET ! (nat (alphaIdx c) mod 256 mod 62) = c" if "c \<in> set t" for c
  proof -
    have "0 \<le> alphaIdx c"
      using that assms(2) IndexByte_None [of ALPHABET c]
      by (auto simp: alphaIdx_eq split: option.split)
    moreover have "nat (alphaIdx c) < 62" using alphaIdx_bounds(2) [of c] by linarith
    ultimately show ?thesis using alphaIdx_nonneg by simp
  qed
  show "randSuffix ?buf = t"
    using assms(1) eq
    by (intro nth_equalityI) (simp_all add: randSuffix_def codeLen_def maxInstances_def)
qed

text \<open>\<open>Encode\<close> is total on 64-bit integers: the loop ends within its eleven-byte buffer, the
  result is made of alphabet characters, and reading it as base-62 digits gives the number back, so
  different numbers get different texts.\<close>

theorem Encode_roundtrip:
  "(\<exists>s. Encode n = Some s \<and> s \<noteq> [] \<and> length s \<le> 11 \<and> set s \<subseteq> set ALPHABET \<and> value62 0 s = unat n)
   \<and> (Encode m = Encode n \<longleftrightarrow> m = n)"
proof -
  obtain s t where "Encode n = Some s" "value62 0 s = unat n" "Encode m = Some t" "value62 0 t = unat m"
    using Encode_total [of n] Encode_total [of m] by blast
  then have "Encode m = Encode n \<longleftrightarrow> m = n" by (metis option.inject word_unat_eq_iff)
  then show ?thesis using Encode_total [of n] by blast
qed

end
