(* ===== verification/Aof.thy ===== *)
theory Aof
  imports Strconv "HOL-Library.List_Lexorder" "HOL-Library.Char_ord"
begin

text \<open>
  \<open>internal/aof/aof.go\<close>: the append-only log with its write buffer, replay of a log file, the tail
  reader of a sibling's log, the listing of shard logs and the claiming of an instance id through
  lock files. The data directory is a finite map from file names to files; a file records its
  bytes and how many of them an fsync has made durable. The first half holds the operations, the
  second half what they guarantee: replay delivers exactly the complete lines, reading a growing
  log piecewise delivers what one replay would, a torn log replays to a prefix of its records.
\<close>

record gofile =
  fbytes :: bytes
  fsynced :: nat

type_synonym fsys = "(bytes, gofile) gomap"

definition emptyFile :: gofile where
  "emptyFile = \<lparr>fbytes = [], fsynced = 0\<rparr>"

definition appendFile :: "bytes \<Rightarrow> gofile \<Rightarrow> gofile" where
  "appendFile b f = f\<lparr>fbytes := fbytes f @ b\<rparr>"

section \<open>The append-only log\<close>

text \<open>
  The results of the system calls to come on a file handle: how many bytes of each write reach the
  file (a short write is reported, and the code ignores it) and whether each fsync succeeds. Calls
  past the end of the lists succeed; \<open>goodIO\<close> is a handle on which nothing fails.
\<close>

record io =
  io_writes :: "nat list"
  io_syncs :: "bool list"

definition goodIO :: io where
  "goodIO = \<lparr>io_writes = [], io_syncs = []\<rparr>"

definition ioWrite :: "io \<Rightarrow> bytes \<Rightarrow> bytes \<times> io" where
  "ioWrite io b = (case io_writes io of [] \<Rightarrow> (b, io) | n # ns \<Rightarrow> (take n b, io\<lparr>io_writes := ns\<rparr>))"

definition ioSync :: "io \<Rightarrow> bool \<times> io" where
  "ioSync io = (case io_syncs io of [] \<Rightarrow> (True, io) | ok # oks \<Rightarrow> (ok, io\<lparr>io_syncs := oks\<rparr>))"

lemma goodIO_simps [simp]: "ioWrite goodIO b = (b, goodIO)" "ioSync goodIO = (True, goodIO)"
  by (simp_all add: goodIO_def ioWrite_def ioSync_def)

text \<open>\<open>aopen\<close> tells whether the handle \<open>f\<close> is usable: a write to a closed handle fails, and the
  code ignores the error.\<close>

record Aof =
  abuf :: bytes
  aopen :: bool
  aPath :: bytes
  aio :: io

datatype os_error = OsError

text \<open>\<open>New\<close>: \<open>handle\<close> is \<open>None\<close> when creating the directory or opening the file fails, and the results to
  come on the handle otherwise.\<close>

definition aofNew :: "io option \<Rightarrow> bytes \<Rightarrow> fsys \<Rightarrow> (os_error + Aof) \<times> fsys" where
  "aofNew handle name fs =
     (case handle of
        None \<Rightarrow> (Inl OsError, fs)
      | Some io \<Rightarrow>
          (Inr \<lparr>abuf = [], aopen = True, aPath = name, aio = io\<rparr>,
           case fmlookup fs name of None \<Rightarrow> fmupd name emptyFile fs | Some _ \<Rightarrow> fs))"

definition Push :: "bytes \<Rightarrow> Aof \<Rightarrow> Aof" where
  "Push line a = a\<lparr>abuf := abuf a @ line @ [NL]\<rparr>"

definition PendingBytes :: "Aof \<Rightarrow> nat" where
  "PendingBytes a = length (abuf a)"

text \<open>An \<open>O_APPEND\<close> write through the handle.\<close>

definition writeLog :: "Aof \<Rightarrow> bytes \<Rightarrow> fsys \<Rightarrow> Aof \<times> fsys" where
  "writeLog a b fs =
     (if \<not> aopen a then (a, fs)
      else
        let (b, io) = ioWrite (aio a) b
        in (a\<lparr>aio := io\<rparr>,
            case fmlookup fs (aPath a) of
              None \<Rightarrow> fs
            | Some f \<Rightarrow> fmupd (aPath a) (appendFile b f) fs))"

definition aofFlushLocked :: "Aof \<Rightarrow> fsys \<Rightarrow> Aof \<times> fsys" where
  "aofFlushLocked a fs =
     (if length (abuf a) = 0 then (a, fs)
      else let (a, fs) = writeLog a (abuf a) fs in (a\<lparr>abuf := []\<rparr>, fs))"

definition aofFlush :: "Aof \<Rightarrow> fsys \<Rightarrow> Aof \<times> fsys" where
  "aofFlush a fs = aofFlushLocked a fs"

definition syncFile :: "gofile \<Rightarrow> gofile" where
  "syncFile f = f\<lparr>fsynced := length (fbytes f)\<rparr>"

definition Sync :: "Aof \<Rightarrow> fsys \<Rightarrow> Aof \<times> fsys" where
  "Sync a fs =
     (let (a, fs) = aofFlushLocked a fs
      in if \<not> aopen a then (a, fs)
         else
           let (ok, io) = ioSync (aio a)
           in (a\<lparr>aio := io\<rparr>,
               case fmlookup fs (aPath a) of
                 None \<Rightarrow> fs
               | Some f \<Rightarrow> if ok then fmupd (aPath a) (syncFile f) fs else fs))"

definition Size :: "Aof \<Rightarrow> fsys \<Rightarrow> nat" where
  "Size a fs =
     (if \<not> aopen a then 0
      else case fmlookup fs (aPath a) of None \<Rightarrow> 0 | Some f \<Rightarrow> length (fbytes f))"

text \<open>\<open>Truncate\<close>: \<open>osOK\<close> says whether reopening with \<open>O_TRUNC\<close> succeeds; if not, the old handle
  stays closed.\<close>

definition Truncate :: "bool \<Rightarrow> Aof \<Rightarrow> fsys \<Rightarrow> Aof \<times> fsys" where
  "Truncate osOK a fs =
     (let (a, fs) = aofFlushLocked a fs
      in if osOK then (a\<lparr>aopen := True\<rparr>, fmupd (aPath a) emptyFile fs)
         else (a\<lparr>aopen := False\<rparr>, fs))"

definition aofClose :: "Aof \<Rightarrow> fsys \<Rightarrow> Aof \<times> fsys" where
  "aofClose a fs = (let (a, fs) = aofFlushLocked a fs in (a\<lparr>aopen := False\<rparr>, fs))"

section \<open>Replay and tailing\<close>

text \<open>The complete, non-empty lines \<open>ReplayFile\<close> hands to its callback.\<close>

function replayLines :: "bytes \<Rightarrow> bytes list" where
  "replayLines buf =
     (case IndexByte buf NL of
        None \<Rightarrow> []
      | Some i \<Rightarrow> (if 0 < i then [take i buf] else []) @ replayLines (drop (i + 1) buf))"
  by pat_completeness auto
termination
  by (relation "measure length") (auto dest: IndexByte_SomeD)

declare replayLines.simps [simp del]

definition ReplayFile :: "bytes \<Rightarrow> (bytes \<Rightarrow> 's \<Rightarrow> 's option) \<Rightarrow> fsys \<Rightarrow> 's \<Rightarrow> 's option" where
  "ReplayFile path cb fs s =
     (case fmlookup fs path of
        None \<Rightarrow> Some s
      | Some f \<Rightarrow> foldOpt cb (replayLines (fbytes f)) s)"

record TailReader =
  tPath :: bytes
  toffset :: nat
  tleftover :: bytes

definition TailFromStart :: "bytes \<Rightarrow> TailReader" where
  "TailFromStart path = \<lparr>tPath = path, toffset = 0, tleftover = []\<rparr>"

definition fileSize :: "bytes \<Rightarrow> fsys \<Rightarrow> nat" where
  "fileSize path fs = (case fmlookup fs path of None \<Rightarrow> 0 | Some f \<Rightarrow> length (fbytes f))"

text \<open>The scanning loop of \<open>ReadNew\<close>: \<open>cur\<close> is \<open>data[start:i]\<close>; the result is the lines handed to
  the callback and \<open>data[start:]\<close> at the end.\<close>

fun tailSplit :: "bytes \<Rightarrow> bytes \<Rightarrow> bytes list \<times> bytes" where
  "tailSplit cur [] = ([], cur)"
| "tailSplit cur (c # cs) =
     (if c = NL then
        (let (ls, r) = tailSplit [] cs in (if cur \<noteq> [] then cur # ls else ls, r))
      else tailSplit (cur @ [c]) cs)"

definition ReadNew ::
  "(bytes \<Rightarrow> 's \<Rightarrow> 's option) \<Rightarrow> fsys \<Rightarrow> TailReader \<Rightarrow> 's \<Rightarrow> (TailReader \<times> 's) option" where
  "ReadNew cb fs t s =
     (let size = fileSize (tPath t) fs;
          t = (if size < toffset t then t\<lparr>toffset := 0, tleftover := []\<rparr> else t)
      in if size \<le> toffset t then Some (t, s)
         else case fmlookup fs (tPath t) of
                None \<Rightarrow> Some (t, s)
              | Some f \<Rightarrow>
                  let buf = drop (toffset t) (fbytes f);
                      t = t\<lparr>toffset := toffset t + length buf\<rparr>;
                      data = (if tleftover t \<noteq> [] then tleftover t @ buf else buf);
                      (ls, rest) = tailSplit [] data
                  in map_option (\<lambda>s'. (t\<lparr>tleftover := rest\<rparr>, s')) (foldOpt cb ls s))"

section \<open>Instance ids and shard files\<close>

definition lockName :: "nat \<Rightarrow> bytes" where
  "lockName i = ''instance-'' @ Itoa (int i) @ ''.lock''"

text \<open>
  The system calls on lock files: whether the file of that name can be created (when it does not
  exist), read and removed, and how much of the process id a short write puts into it (\<open>None\<close> for all
  of it); \<open>goodLocks\<close> is a directory in which nothing fails.
\<close>

record lock_os =
  lk_create :: "bytes \<Rightarrow> bool"
  lk_read :: "bytes \<Rightarrow> bool"
  lk_remove :: "bytes \<Rightarrow> bool"
  lk_short :: "bytes \<Rightarrow> nat option"

definition goodLocks :: lock_os where
  "goodLocks = \<lparr>lk_create = (\<lambda>_. True), lk_read = (\<lambda>_. True), lk_remove = (\<lambda>_. True), lk_short = (\<lambda>_. None)\<rparr>"

lemma goodLocks_simps [simp]:
  "lk_create goodLocks l" "lk_read goodLocks l" "lk_remove goodLocks l" "lk_short goodLocks l = None"
  by (simp_all add: goodLocks_def)

definition lockText :: "lock_os \<Rightarrow> bytes \<Rightarrow> int \<Rightarrow> bytes" where
  "lockText lk lock pid = (case lk_short lk lock of None \<Rightarrow> Itoa pid | Some n \<Rightarrow> take n (Itoa pid))"

definition tryLock :: "lock_os \<Rightarrow> bytes \<Rightarrow> int \<Rightarrow> fsys \<Rightarrow> bool \<times> fsys" where
  "tryLock lk lock pid fs =
     (case fmlookup fs lock of
        Some _ \<Rightarrow> (False, fs)
      | None \<Rightarrow>
          if lk_create lk lock then (True, fmupd lock (appendFile (lockText lk lock pid) emptyFile) fs)
          else (False, fs))"

text \<open>\<open>alive p\<close>: signal 0 to process \<open>p\<close> is delivered or refused for lack of permission.\<close>

fun claimLoop :: "lock_os \<Rightarrow> (int \<Rightarrow> bool) \<Rightarrow> int \<Rightarrow> nat list \<Rightarrow> fsys \<Rightarrow> nat option \<times> fsys" where
  "claimLoop lk alive pid [] fs = (None, fs)"
| "claimLoop lk alive pid (i # is) fs =
     (let lock = lockName i; (got, fs1) = tryLock lk lock pid fs
      in if got then (Some i, fs1)
         else case (if lk_read lk lock then fmlookup fs1 lock else None) of
                None \<Rightarrow> claimLoop lk alive pid is fs1
              | Some f \<Rightarrow>
                  let (p, err) = Atoi (TrimSpace (fbytes f))
                  in if err \<noteq> None \<or> p \<le> 0 then claimLoop lk alive pid is fs1
                     else if alive p then claimLoop lk alive pid is fs1
                     else
                       let fs2 = (if lk_remove lk lock then fmdrop lock fs1 else fs1);
                           (got2, fs3) = tryLock lk lock pid fs2
                       in if got2 then (Some i, fs3) else claimLoop lk alive pid is fs3)"

datatype claim_error = ClaimOsError | ErrNoFreeInstance

text \<open>\<open>locks\<close> is \<open>None\<close> when the directory cannot be created.\<close>

definition ClaimInstance ::
  "lock_os option \<Rightarrow> (int \<Rightarrow> bool) \<Rightarrow> int \<Rightarrow> fsys \<Rightarrow> (claim_error + nat) \<times> fsys" where
  "ClaimInstance locks alive pid fs =
     (case locks of
        None \<Rightarrow> (Inl ClaimOsError, fs)
      | Some lk \<Rightarrow>
          case claimLoop lk alive pid [0..<1024] fs of
            (Some i, fs') \<Rightarrow> (Inr i, fs')
          | (None, fs') \<Rightarrow> (Inl ErrNoFreeInstance, fs'))"

definition ShardFiles :: "bytes \<Rightarrow> fsys \<Rightarrow> bytes list" where
  "ShardFiles own fs =
     filter (\<lambda>n. HasPrefix n ''data-'' \<and> HasSuffix n ''.log'' \<and> n \<noteq> own)
       (sorted_list_of_fset (fmdom fs))"

section \<open>Lines of a log\<close>

lemma tailSplit_append:
  "tailSplit cur (x @ y) =
     (let (l1, r1) = tailSplit cur x; (l2, r2) = tailSplit r1 y in (l1 @ l2, r2))"
  by (induction cur x rule: tailSplit.induct) (auto split: prod.splits)

lemma tailSplit_no_NL: "NL \<notin> set x \<Longrightarrow> tailSplit cur x = ([], cur @ x)"
  by (induction x arbitrary: cur) auto

lemma tailSplit_line:
  "NL \<notin> set x \<Longrightarrow> tailSplit [] (x @ NL # y)
   = (let (ls, r) = tailSplit [] y in (if x \<noteq> [] then x # ls else ls, r))"
  by (simp add: tailSplit_append tailSplit_no_NL)

lemma replayLines_line:
  "NL \<notin> set x \<Longrightarrow> replayLines (x @ NL # y) = (if x \<noteq> [] then [x] else []) @ replayLines y"
  by (subst replayLines.simps) (simp add: IndexByte_split)

lemma replayLines_no_NL: "NL \<notin> set x \<Longrightarrow> replayLines x = []"
  by (subst replayLines.simps) (simp add: IndexByte_None [THEN iffD2])

text \<open>Both scanners see the same lines.\<close>

lemma replayLines_tailSplit: "replayLines x = fst (tailSplit [] x)"
proof (induction x rule: replayLines.induct)
  case (1 x)
  show ?case
  proof (cases "IndexByte x NL")
    case None
    then show ?thesis by (simp add: replayLines_no_NL tailSplit_no_NL)
  next
    case (Some i)
    from IndexByte_SomeE [OF Some] obtain u v where x: "x = u @ NL # v" "length u = i" "NL \<notin> set u" .
    with "1" [OF Some] show ?thesis
      by (simp add: replayLines_line tailSplit_line split: prod.split)
  qed
qed

definition tornTail :: "bytes \<Rightarrow> bytes" where
  "tornTail x = snd (tailSplit [] x)"

lemma tornTail_no_NL: "NL \<notin> set (tornTail x)"
proof -
  have "NL \<notin> set cur \<Longrightarrow> NL \<notin> set (snd (tailSplit cur x))" for cur
    by (induction cur x rule: tailSplit.induct) (auto split: prod.splits)
  then show ?thesis by (simp add: tornTail_def)
qed

lemma tailSplit_start: "NL \<notin> set r \<Longrightarrow> tailSplit [] (r @ y) = tailSplit r y"
  by (simp add: tailSplit_append tailSplit_no_NL split: prod.split)

lemma replayLines_append: "replayLines (x @ y) = replayLines x @ replayLines (tornTail x @ y)"
  unfolding replayLines_tailSplit
  by (simp add: tailSplit_start tornTail_no_NL)
     (simp add: tailSplit_append tornTail_def split: prod.split)

lemma tornTail_append: "tornTail (x @ y) = tornTail (tornTail x @ y)"
  by (simp add: tornTail_def tailSplit_start tornTail_no_NL [unfolded tornTail_def])
     (simp add: tailSplit_append split: prod.split)

section \<open>Framed logs\<close>

text \<open>The bytes of a sequence of records, each on its own line.\<close>

definition logBytes :: "('r \<Rightarrow> bytes) \<Rightarrow> 'r list \<Rightarrow> bytes" where
  "logBytes line rs = concat (map (\<lambda>r. line r @ [NL]) rs)"

lemma logBytes_Nil [simp]: "logBytes line [] = []"
  by (simp add: logBytes_def)

lemma logBytes_append: "logBytes line (xs @ ys) = logBytes line xs @ logBytes line ys"
  by (simp add: logBytes_def)

lemma logBytes_Cons: "logBytes line (x # xs) = line x @ NL # logBytes line xs"
  by (simp add: logBytes_def)

text \<open>
  The contract between a log format and its reader: a record prints as a non-empty line, and the
  callback, given that line, performs the record's step without panicking.
\<close>

locale framed_log =
  fixes line :: "'r \<Rightarrow> bytes"
    and ok :: "'r \<Rightarrow> bool"
    and cb :: "bytes \<Rightarrow> 's \<Rightarrow> 's option"
    and step :: "'r \<Rightarrow> 's \<Rightarrow> 's"
  assumes line_nonempty: "ok r \<Longrightarrow> line r \<noteq> []"
    and line_no_NL: "ok r \<Longrightarrow> NL \<notin> set (line r)"
    and cb_line: "ok r \<Longrightarrow> cb (line r) s = Some (step r s)"
begin

lemma replayLines_log:
  "(\<And>r. r \<in> set rs \<Longrightarrow> ok r) \<Longrightarrow> NL \<notin> set t \<Longrightarrow> replayLines (logBytes line rs @ t) = map line rs"
  by (induction rs)
     (simp_all add: logBytes_Cons replayLines_line line_no_NL line_nonempty replayLines_no_NL)

lemma tornTail_log:
  "(\<And>r. r \<in> set rs \<Longrightarrow> ok r) \<Longrightarrow> tornTail (logBytes line rs) = []"
  by (induction rs)
     (auto simp: logBytes_Cons tornTail_def tailSplit_line line_no_NL split: prod.splits)

lemma fold_lines:
  "(\<And>r. r \<in> set rs \<Longrightarrow> ok r) \<Longrightarrow> foldOpt cb (map line rs) s = Some (fold step rs s)"
  by (induction rs arbitrary: s) (simp_all add: cb_line)

text \<open>Replaying a whole log performs its records in order.\<close>

lemma replay_log:
  assumes "\<And>r. r \<in> set rs \<Longrightarrow> ok r" and "fmlookup fs p = Some f" and "fbytes f = logBytes line rs"
  shows "ReplayFile p cb fs s = Some (fold step rs s)"
  using assms replayLines_log [of rs "[]"] by (simp add: ReplayFile_def fold_lines)

text \<open>A log cut at any byte replays to the records whose lines are complete.\<close>

lemma torn_split:
  assumes "\<And>r. r \<in> set rs \<Longrightarrow> ok r"
  shows "\<exists>n t. n \<le> length rs \<and> take k (logBytes line rs) = logBytes line (take n rs) @ t
              \<and> NL \<notin> set t \<and> length (logBytes line (take n rs)) \<le> k
              \<and> (n < length rs \<longrightarrow> k < length (logBytes line (take (Suc n) rs)))"
  using assms
proof (induction rs arbitrary: k)
  case Nil
  then show ?case by simp
next
  case (Cons r rs)
  show ?case
  proof (cases "k < length (line r @ [NL])")
    case True
    then have "take k (logBytes line (r # rs)) = take k (line r)"
      by (simp add: logBytes_Cons)
    moreover have "NL \<notin> set (take k (line r))"
      using line_no_NL [of r] Cons.prems by (auto dest: in_set_takeD)
    ultimately show ?thesis
      using True by (intro exI [of _ 0] exI [of _ "take k (line r)"]) (simp add: logBytes_Cons)
  next
    case False
    let ?l = "Suc (length (line r))"
    from Cons.IH [of "k - ?l"] Cons.prems obtain n t where nt: "n \<le> length rs"
      "take (k - ?l) (logBytes line rs) = logBytes line (take n rs) @ t" "NL \<notin> set t"
      "length (logBytes line (take n rs)) \<le> k - ?l"
      "n < length rs \<longrightarrow> k - ?l < length (logBytes line (take (Suc n) rs))"
      by auto
    have "take k (logBytes line (r # rs)) = logBytes line (take (Suc n) (r # rs)) @ t"
      using False nt(2) by (simp add: logBytes_Cons take_Cons')
    with False nt show ?thesis
      by (intro exI [of _ "Suc n"] exI [of _ t]) (auto simp: logBytes_Cons)
  qed
qed

lemma replay_torn:
  assumes "\<And>r. r \<in> set rs \<Longrightarrow> ok r" and "fmlookup fs p = Some f"
    and "fbytes f = take k (logBytes line rs)"
  shows "\<exists>n \<le> length rs. ReplayFile p cb fs s = Some (fold step (take n rs) s)
                         \<and> length (logBytes line (take n rs)) \<le> k
                         \<and> (n < length rs \<longrightarrow> k < length (logBytes line (take (Suc n) rs)))"
proof -
  obtain n t where nt: "n \<le> length rs" "take k (logBytes line rs) = logBytes line (take n rs) @ t"
    "NL \<notin> set t" "length (logBytes line (take n rs)) \<le> k"
    "n < length rs \<longrightarrow> k < length (logBytes line (take (Suc n) rs))"
    using torn_split [OF assms(1)] by metis
  have ok: "ok r" if "r \<in> set (take n rs)" for r using that assms(1) by (auto dest: in_set_takeD)
  have "replayLines (fbytes f) = map line (take n rs)"
    using replayLines_log [OF ok nt(3)] assms(3) nt(2) by simp
  then have "ReplayFile p cb fs s = Some (fold step (take n rs) s)"
    using assms(2) fold_lines [OF ok] by (simp add: ReplayFile_def)
  with nt show ?thesis by blast
qed

end

section \<open>Reading a growing log\<close>

text \<open>A reader that has consumed \<open>seen\<close>.\<close>

definition tail_at :: "TailReader \<Rightarrow> bytes \<Rightarrow> bool" where
  "tail_at t seen \<longleftrightarrow> toffset t = length seen \<and> tleftover t = tornTail seen"

lemma tail_at_start [wf_rules]: "tail_at (TailFromStart p) []"
  by (simp add: tail_at_def TailFromStart_def tornTail_def)

lemma ReadNew_grow:
  assumes "tail_at t seen" and "fmlookup fs (tPath t) = Some f" and "fbytes f = seen @ new"
  shows "ReadNew cb fs t s =
     map_option (\<lambda>s'. (t\<lparr>toffset := length (seen @ new), tleftover := tornTail (seen @ new)\<rparr>, s'))
       (foldOpt cb (replayLines (tornTail seen @ new)) s)"
proof (cases "new = []")
  case True
  then have "t\<lparr>toffset := length (seen @ new), tleftover := tornTail (seen @ new)\<rparr> = t"
    using assms(1) by (cases t) (simp add: tail_at_def)
  with True assms show ?thesis
    by (simp add: ReadNew_def fileSize_def tail_at_def replayLines_no_NL tornTail_no_NL)
next
  case False
  have split: "tailSplit [] (tornTail seen @ new) = (replayLines (tornTail seen @ new), tornTail (seen @ new))"
    by (simp add: replayLines_tailSplit tornTail_append [of seen new] tornTail_def [of "tornTail seen @ new"])
  show ?thesis
    using False assms split
    by (cases "tornTail seen = []") (simp_all add: ReadNew_def fileSize_def tail_at_def Let_def)
qed

text \<open>A sibling appends the chunks one by one and the reader polls after each.\<close>

fun pollSeq ::
  "(bytes \<Rightarrow> 's \<Rightarrow> 's option) \<Rightarrow> bytes list \<Rightarrow> fsys \<Rightarrow> TailReader \<Rightarrow> 's \<Rightarrow> (TailReader \<times> 's) option" where
  "pollSeq cb [] fs t s = Some (t, s)"
| "pollSeq cb (c # cs) fs t s =
     (case fmlookup fs (tPath t) of
        None \<Rightarrow> Some (t, s)
      | Some f \<Rightarrow>
          let fs = fmupd (tPath t) (appendFile c f) fs
          in Option.bind (ReadNew cb fs t s) (\<lambda>(t', s'). pollSeq cb cs fs t' s'))"

lemma pollSeq_replay:
  assumes "fmlookup fs (tPath t) = Some f" and "tail_at t (fbytes f)"
  shows "map_option snd (pollSeq cb cs fs t s)
         = foldOpt cb (replayLines (tornTail (fbytes f) @ concat cs)) s"
  using assms
proof (induction cs arbitrary: fs t f s)
  case Nil
  then show ?case by (simp add: replayLines_no_NL tornTail_no_NL)
next
  case (Cons c cs)
  let ?f = "appendFile c f" and ?fs = "fmupd (tPath t) (appendFile c f) fs"
  let ?t = "t\<lparr>toffset := length (fbytes f @ c), tleftover := tornTail (fbytes f @ c)\<rparr>"
  have bytes: "fbytes ?f = fbytes f @ c" by (simp add: appendFile_def)
  have rd: "ReadNew cb ?fs t s = map_option (\<lambda>s'. (?t, s'))
      (foldOpt cb (replayLines (tornTail (fbytes f) @ c)) s)"
    by (rule ReadNew_grow [OF Cons.prems(2) _ bytes]) simp
  have IH: "map_option snd (pollSeq cb cs ?fs ?t s')
      = foldOpt cb (replayLines (tornTail (fbytes f @ c) @ concat cs)) s'" for s'
    using Cons.IH [of ?fs ?t ?f s'] by (simp add: tail_at_def bytes)
  have "replayLines (tornTail (fbytes f) @ c @ concat cs)
      = replayLines (tornTail (fbytes f) @ c) @ replayLines (tornTail (fbytes f @ c) @ concat cs)"
    using replayLines_append [of "tornTail (fbytes f) @ c" "concat cs"]
    by (simp add: tornTail_append [of "fbytes f" c])
  then show ?case
    using Cons.prems(1) IH rd
    by (cases "foldOpt cb (replayLines (tornTail (fbytes f) @ c)) s") (simp_all add: foldOpt_append)
qed

section \<open>Claiming an instance id\<close>

definition lockPid :: "gofile \<Rightarrow> int option" where
  "lockPid f = (case Atoi (TrimSpace (fbytes f)) of (p, None) \<Rightarrow> Some p | _ \<Rightarrow> None)"

text \<open>An id can be claimed when its lock file is absent and can be created, or names a process that is
  gone and can be replaced. A stale lock that can be removed and not created again is removed all the
  same.\<close>

definition claimable :: "lock_os \<Rightarrow> (int \<Rightarrow> bool) \<Rightarrow> fsys \<Rightarrow> nat \<Rightarrow> bool" where
  "claimable lk alive fs i \<longleftrightarrow>
     lk_create lk (lockName i)
     \<and> (case fmlookup fs (lockName i) of
          None \<Rightarrow> True
        | Some f \<Rightarrow>
            lk_read lk (lockName i) \<and> lk_remove lk (lockName i)
            \<and> (case lockPid f of None \<Rightarrow> False | Some p \<Rightarrow> 0 < p \<and> \<not> alive p))"

definition lockedBy :: "lock_os \<Rightarrow> int \<Rightarrow> nat \<Rightarrow> fsys \<Rightarrow> fsys" where
  "lockedBy lk pid i fs = fmupd (lockName i) (appendFile (lockText lk (lockName i) pid) emptyFile) fs"

lemma fmupd_fmdrop: "fmupd k v (fmdrop k m) = fmupd k v m"
  by (rule fmap_ext) simp

lemma lockName_inj: "lockName i = lockName j \<longleftrightarrow> i = j"
proof
  assume "lockName i = lockName j"
  then have "dec_value 0 (fmt_nat i) = dec_value 0 (fmt_nat j)"
    by (simp add: lockName_def FormatInt_def)
  then show "i = j" by (simp add: dec_value_fmt_nat)
qed simp

lemma lockPid_lockedBy:
  assumes "in_i64 pid" and "lk_short lk (lockName i) = None"
  shows "\<exists>f. fmlookup (lockedBy lk pid i fs) (lockName i) = Some f \<and> lockPid f = Some pid"
  using assms
  by (simp add: lockedBy_def lockPid_def lockText_def appendFile_def emptyFile_def TrimSpace_FormatInt
      ParseInt_FormatInt)

text \<open>The loop finds the first id that can be claimed; of the other files it can only drop locks of
  processes that are gone.\<close>

definition staleLock :: "(int \<Rightarrow> bool) \<Rightarrow> fsys \<Rightarrow> bytes \<Rightarrow> bool" where
  "staleLock alive fs n \<longleftrightarrow>
     (\<exists>i f p. n = lockName i \<and> fmlookup fs n = Some f \<and> lockPid f = Some p \<and> 0 < p \<and> \<not> alive p)"

lemma claimable_cong:
  "fmlookup fs' (lockName i) = fmlookup fs (lockName i) \<Longrightarrow> claimable lk alive fs' i = claimable lk alive fs i"
  by (simp add: claimable_def)

text \<open>One round that does not claim.\<close>

lemma claimLoop_next:
  assumes "\<not> claimable lk alive fs i"
  obtains fs1 where "claimLoop lk alive pid (i # is) fs = claimLoop lk alive pid is fs1"
    and "fs1 = fs \<or> fs1 = fmdrop (lockName i) fs \<and> staleLock alive fs (lockName i)"
proof (cases "fmlookup fs (lockName i)")
  case None
  then show ?thesis using assms that [of fs] by (simp add: tryLock_def claimable_def Let_def)
next
  case (Some f)
  obtain p err where pe: "ParseInt (TrimSpace (fbytes f)) = (p, err)" by fastforce
  let ?l = "lockName i"
  show ?thesis
  proof (cases "lk_read lk ?l \<and> err = None \<and> 0 < p \<and> \<not> alive p \<and> lk_remove lk ?l")
    case True
    then have "staleLock alive fs ?l" using Some pe by (auto simp: staleLock_def lockPid_def)
    moreover have "\<not> lk_create lk ?l" using True assms Some pe by (auto simp: claimable_def lockPid_def)
    ultimately show ?thesis using True Some pe that [of "fmdrop ?l fs"] by (simp add: tryLock_def Let_def)
  next
    case False
    then show ?thesis using Some pe that [of fs] by (auto simp: tryLock_def Let_def)
  qed
qed

lemma claimLoop_claims:
  assumes "claimable lk alive fs i"
  shows "claimLoop lk alive pid (i # is) fs = (Some i, lockedBy lk pid i fs)"
proof (cases "fmlookup fs (lockName i)")
  case None
  then show ?thesis using assms by (simp add: tryLock_def claimable_def lockedBy_def Let_def)
next
  case (Some f)
  obtain p err where pe: "ParseInt (TrimSpace (fbytes f)) = (p, err)" by fastforce
  then have "err = None \<and> 0 < p \<and> \<not> alive p" "lk_create lk (lockName i)" "lk_read lk (lockName i)" "lk_remove lk (lockName i)"
    using assms Some by (auto simp: claimable_def lockPid_def split: option.splits)
  then show ?thesis using Some pe by (simp add: tryLock_def fmupd_fmdrop lockedBy_def Let_def)
qed

lemma claimLoop_spec:
  assumes "claimLoop lk alive pid is fs = (r, fs')" and "distinct is"
  shows "r = find (claimable lk alive fs) is"
    and "\<And>i. r = Some i \<Longrightarrow> fmlookup fs' (lockName i) = fmlookup (lockedBy lk pid i fs) (lockName i)"
    and "\<And>n. (\<And>i. r = Some i \<Longrightarrow> n \<noteq> lockName i) \<Longrightarrow> \<not> staleLock alive fs n \<Longrightarrow> fmlookup fs' n = fmlookup fs n"
proof -
  have "r = find (claimable lk alive fs) is
    \<and> (\<forall>i. r = Some i \<longrightarrow> fmlookup fs' (lockName i) = fmlookup (lockedBy lk pid i fs) (lockName i))
    \<and> (\<forall>n. (\<forall>i. r = Some i \<longrightarrow> n \<noteq> lockName i) \<longrightarrow> \<not> staleLock alive fs n \<longrightarrow> fmlookup fs' n = fmlookup fs n)"
    using assms
  proof (induction "is" arbitrary: fs)
    case (Cons i "is")
    show ?case
    proof (cases "claimable lk alive fs i")
      case True
      then show ?thesis using Cons.prems(1) claimLoop_claims [OF True, of pid "is"] by (auto simp: lockedBy_def)
    next
      case False
      obtain fs1 where fs1: "claimLoop lk alive pid (i # is) fs = claimLoop lk alive pid is fs1"
        "fs1 = fs \<or> fs1 = fmdrop (lockName i) fs \<and> staleLock alive fs (lockName i)"
        by (rule claimLoop_next [OF False])
      have eq: "fmlookup fs1 n = fmlookup fs n" if "n \<noteq> lockName i \<or> \<not> staleLock alive fs n" for n
        using fs1(2) that by auto
      have "find (claimable lk alive fs1) is = find (claimable lk alive fs) is"
        using Cons.prems(2) eq lockName_inj by (intro find_cong refl claimable_cong) (metis distinct.simps(2))
      moreover have "\<not> staleLock alive fs1 n" if "\<not> staleLock alive fs n" for n
        using that eq [of n] by (simp add: staleLock_def)
      moreover have "claimLoop lk alive pid is fs1 = (r, fs')" using Cons.prems(1) fs1(1) by simp
      moreover have "fmlookup (lockedBy lk pid j fs1) (lockName j) = fmlookup (lockedBy lk pid j fs) (lockName j)" for j
        by (simp add: lockedBy_def)
      moreover have "fmlookup fs1 n = fmlookup fs n" if "\<not> staleLock alive fs n" for n using eq that by blast
      ultimately show ?thesis using Cons.IH [of fs1] Cons.prems(2) False by auto
    qed
  qed simp
  then show "r = find (claimable lk alive fs) is"
    and "\<And>i. r = Some i \<Longrightarrow> fmlookup fs' (lockName i) = fmlookup (lockedBy lk pid i fs) (lockName i)"
    and "\<And>n. (\<And>i. r = Some i \<Longrightarrow> n \<noteq> lockName i) \<Longrightarrow> \<not> staleLock alive fs n \<Longrightarrow> fmlookup fs' n = fmlookup fs n"
    by blast+
qed

text \<open>C23. Reading a sibling's log while it grows loses and repeats nothing: however the bytes
  arrive, in whatever chunks, also with lines torn between polls, the callback sees exactly the
  lines one replay of the whole file delivers.\<close>

theorem tail_equals_replay:
  "map_option snd (pollSeq cb chunks (fmupd p emptyFile fs) (TailFromStart p) s)
   = foldOpt cb (replayLines (concat chunks)) s"
proof -
  have "tPath (TailFromStart p) = p" "tail_at (TailFromStart p) (fbytes emptyFile)"
    using tail_at_start [of p] by (simp_all add: TailFromStart_def emptyFile_def)
  then show ?thesis
    using pollSeq_replay [of "fmupd p emptyFile fs" "TailFromStart p" emptyFile cb chunks s]
    by (simp add: emptyFile_def tornTail_def)
qed

end
