(* ===== verification/Index.thy ===== *)
theory Index
  imports LogLine Base62 Aof "HOL-Library.Multiset"
begin

unbundle bit_operations_syntax

text \<open>
  The in-memory index of \<open>internal/store/store.go\<close>: entries, the 256 shards selected by FNV-1a,
  the stray hits of codes whose row has not arrived, and \<open>apply\<close>, which folds one parsed log line
  into the index. The choices Go leaves to the runtime (map iteration order, the order of equal
  elements in \<open>sort.Slice\<close>) are collected in a record \<open>gort\<close> that every operation with such a loop
  takes as an argument. The index is shown to behave like one map, whatever the hash does.
\<close>

section \<open>Data\<close>

record Link =
  l_Code :: bytes
  l_URL :: bytes
  l_Hits :: int
  l_CreatedAt :: int
  l_ExpiresAt :: "int option"

record entry =
  e_u :: bytes
  e_a :: int
  e_e :: int
  e_i :: int
  e_h :: int
  e_oh :: int

record strayHit =
  st_t :: int
  st_o :: int

record shard =
  sh_data :: "(bytes, entry) gomap"
  sh_dirty :: "(bytes, int) gomap"

datatype MutResult = MutOK | MutMissing | MutRemote

record Store =
  shards :: "nat \<Rightarrow> shard"
  strayHits :: "(bytes, strayHit) gomap"
  aof :: "Aof option"
  sinstance :: int
  sprefix :: char
  release :: "bytes option"
  ownName :: bytes
  tails :: "(bytes, TailReader) gomap"
  lastPoll :: int
  closed :: bool

record gort =
  ordStray :: "(bytes, strayHit) gomap \<Rightarrow> bytes list"
  ordTails :: "(bytes, TailReader) gomap \<Rightarrow> bytes list"
  ordDirty :: "(bytes, int) gomap \<Rightarrow> bytes list"
  ordData :: "(bytes, entry) gomap \<Rightarrow> bytes list"
  sortSlice :: "(Link \<Rightarrow> Link \<Rightarrow> bool) \<Rightarrow> Link list \<Rightarrow> Link list"

definition flushBytes :: nat where
  "flushBytes = 262144"

definition maxStrayHits :: nat where
  "maxStrayHits = 10000"

definition numShards :: nat where
  "numShards = 256"

definition tailMinInterval :: int where
  "tailMinInterval = 200"

section \<open>Sharding\<close>

fun fnv1a :: "32 word \<Rightarrow> bytes \<Rightarrow> 32 word" where
  "fnv1a h [] = h"
| "fnv1a h (c # cs) = fnv1a ((h XOR word_of_nat (of_char c)) * 16777619) cs"

definition shardOf :: "bytes \<Rightarrow> nat" where
  "shardOf code = unat (fnv1a 2166136261 code AND 255)"

definition getEntry :: "bytes \<Rightarrow> Store \<Rightarrow> entry option" where
  "getEntry code s = fmlookup (sh_data (shards s (shardOf code))) code"

definition putEntry :: "bytes \<Rightarrow> entry \<Rightarrow> Store \<Rightarrow> Store" where
  "putEntry code e s =
     (let k = shardOf code; sh = shards s k
      in s\<lparr>shards := (shards s)(k := sh\<lparr>sh_data := fmupd code e (sh_data sh)\<rparr>)\<rparr>)"

definition delEntry :: "bytes \<Rightarrow> Store \<Rightarrow> Store" where
  "delEntry code s =
     (let k = shardOf code; sh = shards s k
      in s\<lparr>shards := (shards s)(k := sh\<lparr>sh_data := fmdrop code (sh_data sh)\<rparr>)\<rparr>)"

text \<open>\<open>sh.dirty[code]++\<close>, and the pending delta of a code (0 when absent).\<close>

definition getDirty :: "bytes \<Rightarrow> Store \<Rightarrow> int" where
  "getDirty code s =
     (case fmlookup (sh_dirty (shards s (shardOf code))) code of None \<Rightarrow> 0 | Some d \<Rightarrow> d)"

definition bumpDirty :: "bytes \<Rightarrow> Store \<Rightarrow> Store" where
  "bumpDirty code s =
     (let k = shardOf code; sh = shards s k
      in s\<lparr>shards := (shards s)(k := sh\<lparr>sh_dirty := fmupd code (i64 (getDirty code s + 1))
                                                    (sh_dirty sh)\<rparr>)\<rparr>)"

section \<open>apply\<close>

text \<open>Evicting an arbitrary stray hit: the first key of a \<open>range\<close> loop that breaks at once.\<close>

definition evictStray :: "gort \<Rightarrow> (bytes, strayHit) gomap \<Rightarrow> (bytes, strayHit) gomap" where
  "evictStray g m = (case ordStray g m of [] \<Rightarrow> m | k # _ \<Rightarrow> fmdrop k m)"

definition applyHit :: "gort \<Rightarrow> op \<Rightarrow> Store \<Rightarrow> Store" where
  "applyHit g x s =
     (let own = (sinstance s = op_i x)
      in case getEntry (op_h x) s of
           Some e \<Rightarrow>
             putEntry (op_h x)
               (e\<lparr>e_h := i64 (e_h e + op_d x),
                  e_oh := (if own then i64 (e_oh e + op_d x) else e_oh e)\<rparr>) s
         | None \<Rightarrow>
             let m = strayHits s;
                 m = (if maxStrayHits \<le> maplen m then evictStray g m else m);
                 st = (case fmlookup m (op_h x) of None \<Rightarrow> \<lparr>st_t = 0, st_o = 0\<rparr> | Some st \<Rightarrow> st);
                 st = \<lparr>st_t = i64 (st_t st + op_d x),
                       st_o = (if own then i64 (st_o st + op_d x) else st_o st)\<rparr>
             in s\<lparr>strayHits := fmupd (op_h x) st m\<rparr>)"

definition applyRow :: "op \<Rightarrow> Store \<Rightarrow> Store" where
  "applyRow x s =
     (let (stT, stO, m) =
            (case fmlookup (strayHits s) (op_c x) of
               None \<Rightarrow> (0, 0, strayHits s)
             | Some st \<Rightarrow> (st_t st, st_o st, fmdrop (op_c x) (strayHits s)));
          e = \<lparr>e_u = op_u x, e_a = op_a x, e_e = (if op_hasE x then op_e x else 0),
               e_i = i32 (op_i x), e_h = i64 (op_n x + stT), e_oh = i64 (op_n x + stO)\<rparr>
      in (putEntry (op_c x) e s)\<lparr>strayHits := m\<rparr>)"

definition apply_op :: "gort \<Rightarrow> op \<Rightarrow> Store \<Rightarrow> Store" where
  "apply_op g x s =
     (if op_x x \<noteq> [] then (delEntry (op_x x) s)\<lparr>strayHits := fmdrop (op_x x) (strayHits s)\<rparr>
      else if op_h x \<noteq> [] then applyHit g x s
      else if op_c x = [] then s
      else applyRow x s)"

text \<open>The line handed over by replay and tailing is followed by its newline in the backing array.\<close>

definition applyLine :: "gort \<Rightarrow> bytes \<Rightarrow> Store \<Rightarrow> Store option" where
  "applyLine g line s =
     (case parseOp line [NL] of
        Panics \<Rightarrow> None
      | Rejected \<Rightarrow> Some s
      | Parsed x \<Rightarrow> Some (apply_op g x s))"

section \<open>What the runtime may choose\<close>

definition rt_ok :: "gort \<Rightarrow> bool" where
  "rt_ok g \<longleftrightarrow>
     (\<forall>m. iter_order m (ordStray g m)) \<and> (\<forall>m. iter_order m (ordTails g m))
     \<and> (\<forall>m. iter_order m (ordDirty g m)) \<and> (\<forall>m. iter_order m (ordData g m))
     \<and> (\<forall>f xs. mset (sortSlice g (\<lambda>x y. (f y :: int) < f x) xs) = mset xs
             \<and> sorted_wrt (\<lambda>x y. f y \<le> f x) (sortSlice g (\<lambda>x y. f y < f x) xs))"

text \<open>One admissible choice: keys in increasing order, a stable sort. A comparison that is not of
  the form used by the sources leaves the list as it is.\<close>

definition det_keys :: "(bytes, 'v) gomap \<Rightarrow> bytes list" where
  "det_keys m = sorted_list_of_fset (fmdom m)"

fun insertBy :: "('a \<Rightarrow> 'a \<Rightarrow> bool) \<Rightarrow> 'a \<Rightarrow> 'a list \<Rightarrow> 'a list" where
  "insertBy lt x [] = [x]"
| "insertBy lt x (y # ys) = (if lt y x then y # insertBy lt x ys else x # y # ys)"

definition det_rt :: gort where
  "det_rt = \<lparr>ordStray = det_keys, ordTails = det_keys, ordDirty = det_keys, ordData = det_keys,
             sortSlice = (\<lambda>lt xs. foldr (insertBy lt) xs [])\<rparr>"

lemma distinct_sorted_list_of_fset: "distinct (sorted_list_of_fset A)"
  by (simp add: sorted_list_of_fset.rep_eq)

lemma iter_order_det_keys: "iter_order m (det_keys m)"
  by (simp add: iter_order_def det_keys_def distinct_sorted_list_of_fset)

lemma mset_insertBy: "mset (insertBy lt x ys) = add_mset x (mset ys)"
  by (induction ys) auto

lemma set_insertBy: "set (insertBy lt x ys) = insert x (set ys)"
  using mset_insertBy [of lt x ys] by (metis set_mset_mset set_mset_add_mset_insert)

lemma sorted_insertBy:
  "sorted_wrt (\<lambda>x y. (f y :: int) \<le> f x) ys
   \<Longrightarrow> sorted_wrt (\<lambda>x y. f y \<le> f x) (insertBy (\<lambda>x y. f y < f x) x ys)"
  by (induction ys) (auto simp: set_insertBy)

lemma rt_ok_det_rt [wf_rules]: "rt_ok det_rt"
proof -
  have "mset (foldr (insertBy lt) xs []) = mset xs" for lt :: "Link \<Rightarrow> Link \<Rightarrow> bool" and xs
    by (induction xs) (auto simp: mset_insertBy)
  moreover have "sorted_wrt (\<lambda>x y. f y \<le> f x) (foldr (insertBy (\<lambda>x y. f y < f x)) xs [])"
    for f :: "Link \<Rightarrow> int" and xs
    by (induction xs) (auto intro: sorted_insertBy)
  ultimately show ?thesis by (simp add: rt_ok_def det_rt_def iter_order_det_keys)
qed

section \<open>The sharded index is one map\<close>

lemma shardOf_less [simp]: "shardOf code < numShards"
proof -
  have "fnv1a 2166136261 code AND 255 \<le> (255 :: 32 word)" by (rule word_and_le1)
  then show ?thesis by (simp add: shardOf_def numShards_def word_le_nat_alt)
qed

lemma getEntry_putEntry [simp]:
  "getEntry c' (putEntry c e s) = (if c' = c then Some e else getEntry c' s)"
  by (simp add: getEntry_def putEntry_def Let_def)

lemma getEntry_delEntry [simp]:
  "getEntry c' (delEntry c s) = (if c' = c then None else getEntry c' s)"
  by (simp add: getEntry_def delEntry_def Let_def)

lemma getEntry_bumpDirty [simp]: "getEntry c' (bumpDirty c s) = getEntry c' s"
  by (simp add: getEntry_def bumpDirty_def Let_def)

lemma getDirty_bumpDirty [simp]:
  "getDirty c' (bumpDirty c s) = (if c' = c then i64 (getDirty c s + 1) else getDirty c' s)"
  by (simp add: getDirty_def bumpDirty_def Let_def)

lemma getDirty_putEntry [simp]: "getDirty c' (putEntry c e s) = getDirty c' s"
  by (simp add: getDirty_def putEntry_def Let_def)

lemma getDirty_delEntry [simp]: "getDirty c' (delEntry c s) = getDirty c' s"
  by (simp add: getDirty_def delEntry_def Let_def)

interpretation idx: point_map getEntry putEntry delEntry
  by unfold_locales simp_all

text \<open>What the index operations leave alone.\<close>

lemma putEntry_frame [simp]:
  "strayHits (putEntry c e s) = strayHits s" "aof (putEntry c e s) = aof s"
  "sinstance (putEntry c e s) = sinstance s" "sprefix (putEntry c e s) = sprefix s"
  "release (putEntry c e s) = release s" "ownName (putEntry c e s) = ownName s"
  "tails (putEntry c e s) = tails s" "lastPoll (putEntry c e s) = lastPoll s"
  "closed (putEntry c e s) = closed s"
  by (simp_all add: putEntry_def Let_def)

lemma delEntry_frame [simp]:
  "strayHits (delEntry c s) = strayHits s" "aof (delEntry c s) = aof s"
  "sinstance (delEntry c s) = sinstance s" "sprefix (delEntry c s) = sprefix s"
  "release (delEntry c s) = release s" "ownName (delEntry c s) = ownName s"
  "tails (delEntry c s) = tails s" "lastPoll (delEntry c s) = lastPoll s"
  "closed (delEntry c s) = closed s"
  by (simp_all add: delEntry_def Let_def)

lemma bumpDirty_frame [simp]:
  "strayHits (bumpDirty c s) = strayHits s" "aof (bumpDirty c s) = aof s"
  "sinstance (bumpDirty c s) = sinstance s" "sprefix (bumpDirty c s) = sprefix s"
  "release (bumpDirty c s) = release s" "ownName (bumpDirty c s) = ownName s"
  "tails (bumpDirty c s) = tails s" "lastPoll (bumpDirty c s) = lastPoll s"
  "closed (bumpDirty c s) = closed s"
  by (simp_all add: bumpDirty_def Let_def)

lemma getEntry_update [simp]:
  "getEntry c (s\<lparr>strayHits := m\<rparr>) = getEntry c s" "getEntry c (s\<lparr>aof := a\<rparr>) = getEntry c s"
  "getEntry c (s\<lparr>tails := t\<rparr>) = getEntry c s" "getEntry c (s\<lparr>lastPoll := n\<rparr>) = getEntry c s"
  "getEntry c (s\<lparr>closed := b\<rparr>) = getEntry c s"
  by (simp_all add: getEntry_def)

lemma getDirty_update [simp]:
  "getDirty c (s\<lparr>strayHits := m\<rparr>) = getDirty c s" "getDirty c (s\<lparr>aof := a\<rparr>) = getDirty c s"
  "getDirty c (s\<lparr>tails := t\<rparr>) = getDirty c s" "getDirty c (s\<lparr>lastPoll := n\<rparr>) = getDirty c s"
  "getDirty c (s\<lparr>closed := b\<rparr>) = getDirty c s"
  by (simp_all add: getDirty_def)

lemma apply_frame [simp]:
  "aof (apply_op g x s) = aof s" "sinstance (apply_op g x s) = sinstance s"
  "sprefix (apply_op g x s) = sprefix s" "ownName (apply_op g x s) = ownName s"
  "tails (apply_op g x s) = tails s" "lastPoll (apply_op g x s) = lastPoll s"
  "closed (apply_op g x s) = closed s" "getDirty c (apply_op g x s) = getDirty c s"
  by (simp_all add: apply_op_def applyHit_def applyRow_def Let_def split: option.split prod.split)

lemma apply_line_frame:
  assumes "applyLine g b s = Some t"
  shows "aof t = aof s" "sinstance t = sinstance s" "sprefix t = sprefix s" "ownName t = ownName s"
    "tails t = tails s" "lastPoll t = lastPoll s" "closed t = closed s" "getDirty c t = getDirty c s"
  using assms by (auto simp: applyLine_def split: parse_result.splits)

section \<open>The effect of a log record\<close>

text \<open>The same step on records: what \<open>applyLine\<close> does for a line the printers wrote.\<close>

definition applyRec :: "gort \<Rightarrow> logrec \<Rightarrow> Store \<Rightarrow> Store" where
  "applyRec g r s = apply_op g (opOf r) s"

interpretation store_log: framed_log lineOf rec_ok "applyLine g" "applyRec g" for g
  by unfold_locales (simp_all add: applyLine_def applyRec_def parseOp_lineOf NL_notin_lineOf)

lemma applyRec_frame [simp]:
  "aof (applyRec g r s) = aof s" "sinstance (applyRec g r s) = sinstance s"
  "sprefix (applyRec g r s) = sprefix s" "ownName (applyRec g r s) = ownName s"
  "tails (applyRec g r s) = tails s" "lastPoll (applyRec g r s) = lastPoll s"
  "closed (applyRec g r s) = closed s" "getDirty c (applyRec g r s) = getDirty c s"
  by (simp_all add: applyRec_def)

definition strayOf :: "bytes \<Rightarrow> Store \<Rightarrow> strayHit" where
  "strayOf c s = (case fmlookup (strayHits s) c of None \<Rightarrow> \<lparr>st_t = 0, st_o = 0\<rparr> | Some st \<Rightarrow> st)"

lemma getEntry_applyRec_Row:
  assumes "code_ok c" and "in_i32 i"
  shows "getEntry c' (applyRec g (Row c u a e i n) s) =
     (if c' = c then Some \<lparr>e_u = u, e_a = a, e_e = e, e_i = i, e_h = i64 (n + st_t (strayOf c s)),
                           e_oh = i64 (n + st_o (strayOf c s))\<rparr>
      else getEntry c' s)"
  using assms
  by (auto simp: applyRec_def apply_op_def applyRow_def op_zero_def code_ok_def strayOf_def i32_id
      split: option.split)

lemma getEntry_applyRec_Hit:
  assumes "code_ok c"
  shows "getEntry c' (applyRec g (Hit c d i) s) =
     (if c' = c then map_option (\<lambda>e. e\<lparr>e_h := i64 (e_h e + d),
        e_oh := (if sinstance s = i then i64 (e_oh e + d) else e_oh e)\<rparr>) (getEntry c s)
      else getEntry c' s)"
  using assms
  by (auto simp: applyRec_def apply_op_def applyHit_def op_zero_def code_ok_def Let_def
      split: option.split)

lemma getEntry_applyRec_Del:
  assumes "code_ok c"
  shows "getEntry c' (applyRec g (Del c) s) = (if c' = c then None else getEntry c' s)"
  using assms by (simp add: applyRec_def apply_op_def op_zero_def code_ok_def)

lemmas getEntry_applyRec = getEntry_applyRec_Row getEntry_applyRec_Hit getEntry_applyRec_Del

section \<open>Stray hits stay bounded\<close>

lemma maplen_fmupd: "maplen (fmupd k v m) = (if k |\<in>| fmdom m then maplen m else Suc (maplen m))"
  by (simp add: maplen_def fcard_finsert_if)

lemma maplen_fmdrop: "maplen (fmdrop k m) = (if k |\<in>| fmdom m then maplen m - 1 else maplen m)"
  by (simp add: maplen_def fcard_fminus_fsingleton_if)

lemma maplen_evictStray:
  assumes "rt_ok g" and "0 < maplen m"
  shows "maplen (evictStray g m) = maplen m - 1"
proof -
  have ord: "iter_order m (ordStray g m)" using assms(1) by (simp add: rt_ok_def)
  moreover have "fmdom m \<noteq> {||}" using assms(2) by (auto simp: maplen_def fcard_fempty)
  ultimately obtain k ks where ks: "ordStray g m = k # ks"
    by (cases "ordStray g m") (auto simp: iter_order_def)
  then have "k |\<in>| fmdom m" using ord by (auto simp: iter_order_def)
  with ks show ?thesis by (simp add: evictStray_def maplen_fmdrop)
qed

lemma stray_bound_apply:
  assumes "rt_ok g" and "maplen (strayHits s) \<le> maxStrayHits"
  shows "maplen (strayHits (apply_op g x s)) \<le> maxStrayHits"
proof -
  let ?m = "strayHits s"
  have "maplen (if maxStrayHits \<le> maplen ?m then evictStray g ?m else ?m) < maxStrayHits"
    using assms by (auto simp: maplen_evictStray maxStrayHits_def)
  then have "maplen (fmupd k v (if maxStrayHits \<le> maplen ?m then evictStray g ?m else ?m))
             \<le> maxStrayHits" for k v
    by (simp add: maplen_fmupd)
  moreover have "maplen (fmdrop k ?m) \<le> maxStrayHits" for k
    using assms(2) by (auto simp: maplen_fmdrop)
  ultimately show ?thesis
    using assms(2)
    by (simp add: apply_op_def applyHit_def applyRow_def Let_def split: option.split)
qed

end
