(* ===== verification/Store.thy ===== *)
theory Store
  imports Index
begin

text \<open>
  The operations of the AOF engine \<open>Store\<close> of \<open>internal/store/store.go\<close>, each as one atomic step
  on the store and the data directory it shares with its siblings: opening and replay, tailing,
  \<open>Shorten\<close>, \<open>ShortenMany\<close>, \<open>Resolve\<close>, \<open>Update\<close>, \<open>Remove\<close>, \<open>List\<close>, \<open>Stats\<close>, \<open>Flush\<close>, \<open>Compact\<close>,
  \<open>Close\<close>. Clock readings and random bytes are arguments; \<open>None\<close> is a panic, or the end of the
  random bytes supplied to a retry loop.
\<close>

section \<open>Replay and tailing\<close>

definition snapName :: "int \<Rightarrow> bytes" where
  "snapName i = ''data-'' @ Itoa i @ ''.snap''"

definition logName :: "int \<Rightarrow> bytes" where
  "logName i = ''data-'' @ Itoa i @ ''.log''"

definition loadSibling :: "gort \<Rightarrow> fsys \<Rightarrow> bytes \<Rightarrow> Store \<Rightarrow> Store option" where
  "loadSibling g fs f s =
     (let snap = TrimSuffix f ''.log'' @ ''.snap''
      in map_option (\<lambda>s. s\<lparr>tails := fmupd f (TailFromStart f) (tails s)\<rparr>)
           (ReplayFile snap (applyLine g) fs s))"

definition loadAll :: "gort \<Rightarrow> fsys \<Rightarrow> Store \<Rightarrow> Store option" where
  "loadAll g fs s =
     Option.bind (ReplayFile (snapName (sinstance s)) (applyLine g) fs s) (\<lambda>s.
     Option.bind (ReplayFile (ownName s) (applyLine g) fs s) (\<lambda>s.
       foldOpt (loadSibling g fs) (ShardFiles (ownName s) fs) s))"

definition readTail :: "gort \<Rightarrow> fsys \<Rightarrow> bytes \<Rightarrow> Store \<Rightarrow> Store option" where
  "readTail g fs name s =
     (case fmlookup (tails s) name of
        None \<Rightarrow> Some s
      | Some t \<Rightarrow>
          map_option (\<lambda>(t', s'). s'\<lparr>tails := fmupd name t' (tails s')\<rparr>)
            (ReadNew (applyLine g) fs t s))"

definition addTail :: "bytes \<Rightarrow> Store \<Rightarrow> Store" where
  "addTail f s =
     (case fmlookup (tails s) f of
        Some _ \<Rightarrow> s
      | None \<Rightarrow> s\<lparr>tails := fmupd f (TailFromStart f) (tails s)\<rparr>)"

definition PollTails :: "gort \<Rightarrow> int \<Rightarrow> fsys \<Rightarrow> Store \<Rightarrow> Store option" where
  "PollTails g now fs s =
     (case aof s of
        None \<Rightarrow> Some s
      | Some _ \<Rightarrow>
          let s = fold addTail (ShardFiles (ownName s) fs) s
          in map_option (\<lambda>s. s\<lparr>lastPoll := now\<rparr>) (foldOpt (readTail g fs) (ordTails g (tails s)) s))"

text \<open>The compare-and-swap on \<open>lastPoll\<close> succeeds: nothing runs between the load and the swap of
  an atomic step.\<close>

definition lazyPoll :: "gort \<Rightarrow> int \<Rightarrow> int \<Rightarrow> fsys \<Rightarrow> Store \<Rightarrow> Store option" where
  "lazyPoll g now now' fs s =
     (if i64 (now - lastPoll s) < tailMinInterval then Some s
      else PollTails g now' fs (s\<lparr>lastPoll := now\<rparr>))"

definition tailOwner :: "gort \<Rightarrow> bytes \<Rightarrow> fsys \<Rightarrow> Store \<Rightarrow> Store option" where
  "tailOwner g code fs s =
     (case code of
        [] \<Rightarrow> Some s
      | c # _ \<Rightarrow>
          let owner = alphaIdx c
          in if owner < 0 \<or> owner = sinstance s \<or> aof s = None then Some s
             else let name = logName owner in readTail g fs name (addTail name s))"

section \<open>Opening\<close>

datatype store_error = TooManyInstances int | AofError os_error | ClaimError claim_error

definition emptyStore :: Store where
  "emptyStore =
     \<lparr>shards = (\<lambda>_. \<lparr>sh_data = fmempty, sh_dirty = fmempty\<rparr>), strayHits = fmempty, aof = None,
      sinstance = 0, sprefix = ALPHABET ! 0, release = None, ownName = [], tails = fmempty,
      lastPoll = 0, closed = False\<rparr>"

definition releaseLock :: "Store \<Rightarrow> fsys \<Rightarrow> fsys" where
  "releaseLock s fs = (case release s of None \<Rightarrow> fs | Some lock \<Rightarrow> fmdrop lock fs)"

text \<open>The tail of \<open>New\<close> once the instance id is known.\<close>

definition openInstance ::
  "gort \<Rightarrow> io option \<Rightarrow> int \<Rightarrow> Store \<Rightarrow> fsys \<Rightarrow> ((store_error + Store) \<times> fsys) option" where
  "openInstance g handle i s fs =
     (if int maxInstances \<le> i then Some (Inl (TooManyInstances i), releaseLock s fs)
      else
        let s = s\<lparr>sinstance := i, sprefix := ALPHABET ! nat i, ownName := logName i\<rparr>
        in case aofNew handle (ownName s) fs of
             (Inl e, fs) \<Rightarrow> Some (Inl (AofError e), releaseLock s fs)
           | (Inr a, fs) \<Rightarrow> map_option (\<lambda>s. (Inr s, fs)) (loadAll g fs (s\<lparr>aof := Some a\<rparr>)))"

text \<open>\<open>locks\<close> and \<open>handle\<close> are the results of the system calls on the lock files and on the log.\<close>

definition New ::
  "gort \<Rightarrow> lock_os option \<Rightarrow> io option \<Rightarrow> (int \<Rightarrow> bool) \<Rightarrow> int \<Rightarrow> bytes \<Rightarrow> int \<Rightarrow> fsys
   \<Rightarrow> ((store_error + Store) \<times> fsys) option" where
  "New g locks handle alive pid dir inst fs =
     (if dir = '':memory:'' then Some (Inr emptyStore, fs)
      else if 0 \<le> inst then openInstance g handle inst emptyStore fs
      else case ClaimInstance locks alive pid fs of
             (Inl e, fs) \<Rightarrow> Some (Inl (ClaimError e), fs)
           | (Inr i, fs) \<Rightarrow>
               openInstance g handle (int i) (emptyStore\<lparr>release := Some (lockName i)\<rparr>) fs)"

section \<open>Writes\<close>

text \<open>\<open>now + ttlMs\<close> for a positive lifetime, 0 for none.\<close>

definition expiry :: "int \<Rightarrow> int \<Rightarrow> int" where
  "expiry now ttlMs = (if 0 < ttlMs then i64 (now + ttlMs) else 0)"

definition pushLine :: "bytes \<Rightarrow> Store \<Rightarrow> Store" where
  "pushLine line s = s\<lparr>aof := map_option (Push line) (aof s)\<rparr>"

definition flushIfLarge :: "Store \<Rightarrow> fsys \<Rightarrow> Store \<times> fsys" where
  "flushIfLarge s fs =
     (case aof s of
        None \<Rightarrow> (s, fs)
      | Some a \<Rightarrow>
          if flushBytes < PendingBytes a
          then let (a, fs) = aofFlush a fs in (s\<lparr>aof := Some a\<rparr>, fs)
          else (s, fs))"

definition newEntry :: "bytes \<Rightarrow> int \<Rightarrow> int \<Rightarrow> Store \<Rightarrow> entry" where
  "newEntry url now exp s =
     \<lparr>e_u = url, e_a = now, e_e = exp, e_i = i32 (sinstance s), e_h = 0, e_oh = 0\<rparr>"

text \<open>Storing a new link and queueing its row.\<close>

definition insertRow :: "bytes \<Rightarrow> bytes \<Rightarrow> int \<Rightarrow> int \<Rightarrow> Store \<Rightarrow> Store" where
  "insertRow code url now exp s =
     pushLine (rowLine code url now exp (sinstance s) 0) (putEntry code (newEntry url now exp s) s)"

text \<open>The retry loop over random codes: each element of the list is one draw of \<open>codeLen - 1\<close>
  bytes.\<close>

fun freshCode :: "Store \<Rightarrow> bytes list \<Rightarrow> bytes option" where
  "freshCode s [] = None"
| "freshCode s (d # ds) =
     (let code = sprefix s # randSuffix d
      in if getEntry code s = None then Some code else freshCode s ds)"

definition Shorten ::
  "bytes list \<Rightarrow> int \<Rightarrow> bytes \<Rightarrow> bytes \<Rightarrow> bool \<Rightarrow> int \<Rightarrow> fsys \<Rightarrow> Store \<Rightarrow> (bytes \<times> Store \<times> fsys) option" where
  "Shorten draws now url alias hasAlias ttlMs fs s =
     (let exp = expiry now ttlMs;
          store = (\<lambda>code. let (s, fs) = flushIfLarge (insertRow code url now exp s) fs
                          in (code, s, fs))
      in if hasAlias then
           (if getEntry alias s \<noteq> None then Some ([], s, fs) else Some (store alias))
         else map_option store (freshCode s draws))"

text \<open>
  \<open>ShortenMany\<close>: \<open>rnd\<close> is the one CSPRNG call for all suffixes; \<open>draws i\<close> serves the retries of the
  \<open>i\<close>-th url.
\<close>

fun shortenManyLoop ::
  "bytes \<Rightarrow> (nat \<Rightarrow> bytes list) \<Rightarrow> int \<Rightarrow> int \<Rightarrow> nat \<Rightarrow> bytes list \<Rightarrow> Store \<Rightarrow> (bytes list \<times> Store) option" where
  "shortenManyLoop rnd draws now exp i [] s = Some ([], s)"
| "shortenManyLoop rnd draws now exp i (u # us) s =
     (case freshCode s (drop (i * (codeLen - 1)) rnd # draws i) of
        None \<Rightarrow> None
      | Some code \<Rightarrow>
          map_option (\<lambda>(codes, s). (code # codes, s))
            (shortenManyLoop rnd draws now exp (Suc i) us (insertRow code u now exp s)))"

definition ShortenMany ::
  "bytes \<Rightarrow> (nat \<Rightarrow> bytes list) \<Rightarrow> int \<Rightarrow> bytes list \<Rightarrow> int \<Rightarrow> fsys \<Rightarrow> Store
   \<Rightarrow> (bytes list \<times> Store \<times> fsys) option" where
  "ShortenMany rnd draws now urls ttlMs fs s =
     map_option (\<lambda>(codes, s). let (s, fs) = flushIfLarge s fs in (codes, s, fs))
       (shortenManyLoop rnd draws now (expiry now ttlMs) 0 urls s)"

definition Update :: "int \<Rightarrow> bytes \<Rightarrow> bytes \<Rightarrow> int \<Rightarrow> bool \<Rightarrow> Store \<Rightarrow> MutResult \<times> Store" where
  "Update now code url ttlMs hasTTL s =
     (case getEntry code s of
        None \<Rightarrow> (MutMissing, s)
      | Some e \<Rightarrow>
          if e_i e \<noteq> sinstance s then (MutRemote, s)
          else
            let exp = (if hasTTL then expiry now ttlMs else e_e e);
                s = putEntry code (e\<lparr>e_u := url, e_e := exp\<rparr>) s
            in (MutOK, pushLine (rowLine code url (e_a e) exp (sinstance s) 0) s))"

definition Remove :: "bytes \<Rightarrow> Store \<Rightarrow> MutResult \<times> Store" where
  "Remove code s =
     (case getEntry code s of
        None \<Rightarrow> (MutMissing, s)
      | Some e \<Rightarrow>
          if e_i e \<noteq> sinstance s then (MutRemote, s)
          else (MutOK, pushLine (delLine code) (delEntry code s)))"

section \<open>Reads\<close>

text \<open>The lookup of \<open>Resolve\<close>, which on a miss tails the owner's log and then polls; \<open>clk k\<close> is the
  \<open>k\<close>-th clock reading of the call.\<close>

definition findEntry ::
  "gort \<Rightarrow> (nat \<Rightarrow> int) \<Rightarrow> bytes \<Rightarrow> fsys \<Rightarrow> Store \<Rightarrow> (entry option \<times> Store) option" where
  "findEntry g clk code fs s =
     (if getEntry code s = None \<and> aof s \<noteq> None then
        Option.bind (tailOwner g code fs s) (\<lambda>s.
          if getEntry code s = None
          then map_option (\<lambda>s. (getEntry code s, s)) (lazyPoll g (clk 0) (clk 1) fs s)
          else Some (getEntry code s, s))
      else Some (getEntry code s, s))"

definition expired :: "int \<Rightarrow> entry \<Rightarrow> bool" where
  "expired now e \<longleftrightarrow> e_e e \<noteq> 0 \<and> e_e e \<le> now"

definition countHit :: "bytes \<Rightarrow> entry \<Rightarrow> Store \<Rightarrow> Store" where
  "countHit code e s =
     bumpDirty code (putEntry code (e\<lparr>e_h := i64 (e_h e + 1), e_oh := i64 (e_oh e + 1)\<rparr>) s)"

definition Resolve ::
  "gort \<Rightarrow> bool \<Rightarrow> (nat \<Rightarrow> int) \<Rightarrow> bytes \<Rightarrow> fsys \<Rightarrow> Store \<Rightarrow> (bytes option \<times> Store) option" where
  "Resolve g trackHits clk code fs s =
     Option.bind (findEntry g clk code fs s) (\<lambda>(found, s).
       case found of
         None \<Rightarrow> Some (None, s)
       | Some e \<Rightarrow>
           if expired (clk 2) e then Some (None, s)
           else Some (Some (e_u e), if trackHits then countHit code e s else s))"

definition Healthy :: "Store \<Rightarrow> bool" where
  "Healthy s = True"

definition IsEmpty :: "Store \<Rightarrow> bool" where
  "IsEmpty s \<longleftrightarrow> list_all (\<lambda>i. maplen (sh_data (shards s i)) = 0) [0..<numShards]"

definition viewOf :: "bytes \<Rightarrow> entry \<Rightarrow> Link" where
  "viewOf code e =
     \<lparr>l_Code = code, l_URL = e_u e, l_Hits = e_h e, l_CreatedAt = e_a e,
      l_ExpiresAt = (if e_e e \<noteq> 0 then Some (e_e e) else None)\<rparr>"

definition Stats :: "bytes \<Rightarrow> Store \<Rightarrow> Link option" where
  "Stats code s = map_option (viewOf code) (getEntry code s)"

text \<open>\<open>List\<close>: the links of one shard that match the query, in the order the map is visited.\<close>

definition matchesQuery :: "bytes \<Rightarrow> bytes \<Rightarrow> entry \<Rightarrow> bool" where
  "matchesQuery q code e \<longleftrightarrow> \<not> (q \<noteq> [] \<and> \<not> Contains code q \<and> \<not> Contains (e_u e) q)"

definition listShard :: "gort \<Rightarrow> bytes \<Rightarrow> shard \<Rightarrow> Link list" where
  "listShard g q sh =
     concat (map (\<lambda>code. case fmlookup (sh_data sh) code of
                           None \<Rightarrow> []
                         | Some e \<Rightarrow> if matchesQuery q code e then [viewOf code e] else [])
               (ordData g (sh_data sh)))"

definition pageOf :: "int \<Rightarrow> int \<Rightarrow> Link list \<Rightarrow> (Link list \<times> int) option" where
  "pageOf limit offset items =
     (let total = int (length items);
          offset = (if total < offset then total else offset);
          end1 = i64 (offset + limit);
          end1 = (if total < end1 then total else end1)
      in map_option (\<lambda>xs. (xs, total)) (goslice items offset end1))"

definition ListLinks ::
  "gort \<Rightarrow> int \<Rightarrow> int \<Rightarrow> bytes \<Rightarrow> bytes \<Rightarrow> Store \<Rightarrow> (Link list \<times> int) option" where
  "ListLinks g limit offset sortBy q s =
     (let items = concat (map (\<lambda>i. listShard g q (shards s i)) [0..<numShards]);
          items = (if sortBy = ''hits''
                   then sortSlice g (\<lambda>x y. l_Hits y < l_Hits x) items
                   else sortSlice g (\<lambda>x y. l_CreatedAt y < l_CreatedAt x) items)
      in pageOf limit offset items)"

section \<open>Flush, Compact, Close\<close>

text \<open>Queueing the hit deltas of one shard and clearing them.\<close>

definition flushShard :: "gort \<Rightarrow> nat \<Rightarrow> Store \<Rightarrow> Store" where
  "flushShard g i s =
     (let sh = shards s i;
          s = fold (\<lambda>code s. case fmlookup (sh_dirty sh) code of
                               None \<Rightarrow> s
                             | Some d \<Rightarrow> pushLine (hitLine code d (sinstance s)) s)
                (ordDirty g (sh_dirty sh)) s
      in s\<lparr>shards := (shards s)(i := (shards s i)\<lparr>sh_dirty := fmempty\<rparr>)\<rparr>)"

definition flushLocked :: "gort \<Rightarrow> fsys \<Rightarrow> Store \<Rightarrow> Store \<times> fsys" where
  "flushLocked g fs s =
     (case aof s of
        None \<Rightarrow> (s, fs)
      | Some _ \<Rightarrow>
          let s = fold (flushShard g) [0..<numShards] s
          in case aof s of
               None \<Rightarrow> (s, fs)
             | Some a \<Rightarrow> let (a, fs) = aofFlush a fs in (s\<lparr>aof := Some a\<rparr>, fs))"

text \<open>\<open>Flush\<close> skips a shard whose delta map is empty, where \<open>flushLocked\<close> clears it again.\<close>

definition Flush :: "gort \<Rightarrow> fsys \<Rightarrow> Store \<Rightarrow> Store \<times> fsys" where
  "Flush g fs s =
     (case aof s of
        None \<Rightarrow> (s, fs)
      | Some _ \<Rightarrow>
          let s = fold (\<lambda>i s. if 0 < maplen (sh_dirty (shards s i)) then flushShard g i s else s)
                    [0..<numShards] s
          in case aof s of
               None \<Rightarrow> (s, fs)
             | Some a \<Rightarrow> let (a, fs) = aofFlush a fs in (s\<lparr>aof := Some a\<rparr>, fs))"

text \<open>The body of the fsync ticker that \<open>New\<close> starts.\<close>

definition syncTick :: "fsys \<Rightarrow> Store \<Rightarrow> Store \<times> fsys" where
  "syncTick fs s =
     (case aof s of
        None \<Rightarrow> (s, fs)
      | Some a \<Rightarrow> let (a, fs) = Sync a fs in (s\<lparr>aof := Some a\<rparr>, fs))"

definition Seed ::
  "gort \<Rightarrow> bytes \<Rightarrow> (nat \<Rightarrow> bytes list) \<Rightarrow> int \<Rightarrow> bytes list \<Rightarrow> fsys \<Rightarrow> Store
   \<Rightarrow> (nat \<times> Store \<times> fsys) option" where
  "Seed g rnd draws now urls fs s =
     map_option (\<lambda>(codes, s, fs). let (s, fs) = Flush g fs s in (length urls, s, fs))
       (ShortenMany rnd draws now urls 0 fs s)"

text \<open>The writes that put one shard into the snapshot: own links only, with the own hits, each row followed by its
  line end.\<close>

definition snapShard :: "gort \<Rightarrow> Store \<Rightarrow> nat \<Rightarrow> bytes list" where
  "snapShard g s i =
     concat (map (\<lambda>code. case fmlookup (sh_data (shards s i)) code of
                           None \<Rightarrow> []
                         | Some e \<Rightarrow>
                             if e_i e = sinstance s
                             then [rowLine code (e_u e) (e_a e) (e_e e) (e_i e) (e_oh e), [NL]]
                             else [])
               (ordData g (sh_data (shards s i))))"

text \<open>What a sequence of writes leaves in a file when each may fail or be short.\<close>

fun writeAll :: "nat list \<Rightarrow> bytes list \<Rightarrow> bytes" where
  "writeAll ns [] = []"
| "writeAll [] (b # bs) = b @ writeAll [] bs"
| "writeAll (n # ns) (b # bs) = take n b @ writeAll ns bs"

lemma writeAll_good [simp]: "writeAll [] bs = concat bs"
  by (induction bs) simp_all

text \<open>
  \<open>Compact\<close>. The code checks none of its system calls but the creation of the temporary file, so their
  results are arguments: \<open>createOK\<close>; how much of each write to the temporary file reaches it (\<open>writes\<close>,
  complete past its end; a loss reported only by \<open>Close\<close> counts against the write); whether the
  rename and the reopening of the log succeed. The temporary file is written without fsync and
  renamed over the snapshot.
\<close>

definition Compact ::
  "gort \<Rightarrow> bool \<Rightarrow> nat list \<Rightarrow> bool \<Rightarrow> bool \<Rightarrow> fsys \<Rightarrow> Store \<Rightarrow> Store \<times> fsys" where
  "Compact g createOK writes renameOK truncOK fs s =
     (case aof s of
        None \<Rightarrow> (s, fs)
      | Some _ \<Rightarrow>
          let (s, fs) = flushLocked g fs s
          in if \<not> createOK then (s, fs)
             else
               let snapPath = snapName (sinstance s);
                   tmp = snapPath @ ''.tmp'';
                   rows = writeAll writes (concat (map (snapShard g s) [0..<numShards]));
                   fs = fmupd tmp (appendFile rows emptyFile) fs;
                   fs = (if renameOK then fmupd snapPath (appendFile rows emptyFile) (fmdrop tmp fs) else fs)
               in case aof s of
                    None \<Rightarrow> (s, fs)
                  | Some a \<Rightarrow> let (a, fs) = Truncate truncOK a fs in (s\<lparr>aof := Some a\<rparr>, fs))"

definition Close :: "gort \<Rightarrow> fsys \<Rightarrow> Store \<Rightarrow> Store \<times> fsys" where
  "Close g fs s =
     (if closed s then (s, fs)
      else
        let s = s\<lparr>closed := True, tails := fmempty\<rparr>;
            (s, fs) = Flush g fs s;
            (s, fs) = (case aof s of
                         None \<Rightarrow> (s, fs)
                       | Some a \<Rightarrow>
                           let (a, fs) = Sync a fs; (a, fs) = aofClose a fs
                           in (s\<lparr>aof := Some a\<rparr>, fs))
        in (s, releaseLock s fs))"

end
