(* ===== verification/Links.thy ===== *)
theory Links
  imports Store
begin

text \<open>
  What the operations of the AOF engine do, on every branch and for any store, in memory or on
  disk, alone or with siblings: creation of links under aliases and generated codes, bulk
  creation, resolution and hit counting, update and removal with ownership, listing.
\<close>

section \<open>Creating links\<close>

lemma pushLine_keeps [simp]:
  "getEntry c (pushLine l s) = getEntry c s" "sinstance (pushLine l s) = sinstance s"
  "sprefix (pushLine l s) = sprefix s" "shards (pushLine l s) = shards s"
  by (simp_all add: pushLine_def getEntry_def)

lemma flushIfLarge_keeps:
  assumes "flushIfLarge s fs = (s', fs')"
  shows "shards s' = shards s" "sinstance s' = sinstance s" "sprefix s' = sprefix s"
    "tails s' = tails s" "aof s' = None \<longleftrightarrow> aof s = None"
  using assms by (auto simp: flushIfLarge_def split: option.splits if_splits prod.splits)

lemma getEntry_insertRow [simp]:
  "getEntry c (insertRow code url now exp s) = (if c = code then Some (newEntry url now exp s) else getEntry c s)"
  by (simp add: insertRow_def)

lemma insertRow_keeps [simp]:
  "sinstance (insertRow code url now exp s) = sinstance s" "sprefix (insertRow code url now exp s) = sprefix s"
  by (simp_all add: insertRow_def)

lemma newEntry_insertRow [simp]:
  "newEntry u n x (insertRow code url now exp s) = newEntry u n x s"
  by (simp add: newEntry_def)

lemma getEntry_flushIfLarge:
  "flushIfLarge s fs = (s', fs') \<Longrightarrow> getEntry c s' = getEntry c s"
  using flushIfLarge_keeps(1) [of s fs s' fs'] by (simp add: getEntry_def)

text \<open>The code under which \<open>Shorten\<close> stores, and what it stores.\<close>

lemma Shorten_stores:
  assumes "Shorten draws now url al hasAlias ttl fs s = Some (code, s', fs')" and "code \<noteq> []"
  shows "getEntry code s = None"
    and "getEntry c s' = (if c = code then Some (newEntry url now (expiry now ttl) s) else getEntry c s)"
    and "sinstance s' = sinstance s"
proof -
  have "getEntry code s = None \<and> flushIfLarge (insertRow code url now (expiry now ttl) s) fs = (s', fs')"
  proof (cases hasAlias)
    case True
    then show ?thesis
      using assms by (cases "getEntry al s") (auto simp: Shorten_def Let_def split: prod.splits)
  next
    case False
    then have "freshCode s draws = Some code" "flushIfLarge (insertRow code url now (expiry now ttl) s) fs = (s', fs')"
      using assms by (auto simp: Shorten_def Let_def split: prod.splits)
    moreover have "freshCode s draws = Some code \<Longrightarrow> getEntry code s = None"
      by (induction draws) (auto simp: Let_def split: if_splits)
    ultimately show ?thesis by simp
  qed
  then show "getEntry code s = None"
    and "getEntry c s' = (if c = code then Some (newEntry url now (expiry now ttl) s) else getEntry c s)"
    and "sinstance s' = sinstance s"
    using getEntry_flushIfLarge flushIfLarge_keeps(2) by fastforce+
qed

lemma findEntry_hit: "getEntry code s = Some e \<Longrightarrow> findEntry g clk code fs s = Some (Some e, s)"
  by (simp add: findEntry_def)

lemma Resolve_hit:
  assumes "getEntry code s = Some e" and "\<not> expired (clk 2) e"
  shows "Resolve g track clk code fs s = Some (Some (e_u e), if track then countHit code e s else s)"
  using assms by (simp add: Resolve_def findEntry_hit)

text \<open>A store in memory writes no log.\<close>

lemma getEntry_emptyStore [simp]: "getEntry c emptyStore = None" "getDirty c emptyStore = 0"
  by (simp_all add: getEntry_def getDirty_def emptyStore_def)

lemma emptyStore_simps [simp]:
  "aof emptyStore = None" "sinstance emptyStore = 0" "sprefix emptyStore = CHR ''0''"
  "strayHits emptyStore = fmempty" "tails emptyStore = fmempty"
  by (simp_all add: emptyStore_def ALPHABET_def)

lemma in_memory [simp]:
  "aof s = None \<Longrightarrow> flushIfLarge s fs = (s, fs)"
  "aof (insertRow code url now exp s) = map_option (Push (rowLine code url now exp (sinstance s) 0)) (aof s)"
  by (simp_all add: flushIfLarge_def insertRow_def pushLine_def)

lemma in_i64_expiry [wf_rules, simp]: "in_i64 (expiry now ttl)"
  by (simp add: expiry_def)

lemma expiry_eval: "expiry 5 100 = 105" "expiry 5 0 = 0"
  by (simp_all add: expiry_def i64_id in_i64_def)

text \<open>A link just created resolves to its url until it expires, and its statistics start at
  zero hits: for any store, whether the code is an alias or generated.\<close>

theorem Shorten_Resolve:
  assumes "Shorten draws now url al hasAlias ttl fs s = Some (code, s', fs')" and "code \<noteq> []"
    and "expiry now ttl = 0 \<or> clk 2 < expiry now ttl"
  shows "(\<exists>s''. Resolve g track clk code fs' s' = Some (Some url, s''))
         \<and> Stats code s' = Some \<lparr>l_Code = code, l_URL = url, l_Hits = 0, l_CreatedAt = now,
              l_ExpiresAt = (if expiry now ttl = 0 then None else Some (expiry now ttl))\<rparr>"
proof -
  have e: "getEntry code s' = Some (newEntry url now (expiry now ttl) s)"
    using Shorten_stores(2) [OF assms(1,2)] by simp
  have "\<not> expired (clk 2) (newEntry url now (expiry now ttl) s)"
    using assms(3) by (auto simp: expired_def newEntry_def)
  then show ?thesis
    using e Resolve_hit [OF e, of clk] by (simp add: newEntry_def Stats_def viewOf_def)
qed

theorem Shorten_Resolve_witness:
  "(\<exists>s''. Resolve det_rt True (\<lambda>_. 7) ''al'' fmempty (insertRow ''al'' ''http://x'' 5 105 emptyStore)
           = Some (Some ''http://x'', s''))
   \<and> Stats ''al'' (insertRow ''al'' ''http://x'' 5 105 emptyStore)
     = Some \<lparr>l_Code = ''al'', l_URL = ''http://x'', l_Hits = 0, l_CreatedAt = 5, l_ExpiresAt = Some 105\<rparr>"
  using Shorten_Resolve [of "[]" 5 "''http://x''" "''al''" True 100 fmempty emptyStore "''al''"
      "insertRow ''al'' ''http://x'' 5 105 emptyStore" fmempty "\<lambda>_. 7" det_rt True]
  by (simp add: Shorten_def expiry_eval)

lemma freshCode_shape:
  "freshCode s ds = Some code \<Longrightarrow> getEntry code s = None \<and> (\<exists>d. code = sprefix s # randSuffix d)"
  by (induction ds) (auto simp: Let_def split: if_splits)

lemma Shorten_prefix:
  assumes "Shorten draws now url al False ttl fs s = Some (code, s', fs')"
  shows "hd code = sprefix s"
proof -
  have "freshCode s draws = Some code" using assms by (auto simp: Shorten_def Let_def split: prod.splits)
  then show ?thesis using freshCode_shape by fastforce
qed

lemma freshCode_total:
  "d \<in> set ds \<Longrightarrow> getEntry (sprefix s # randSuffix d) s = None \<Longrightarrow> \<exists>code. freshCode s ds = Some code"
  by (induction ds) (auto simp: Let_def)

text \<open>C16. An alias is never overwritten: \<open>Shorten\<close> refuses a taken alias and changes nothing, and
  stores a free one under exactly that alias; no other code changes, and the alias is refused from
  then on.\<close>

theorem Shorten_alias:
  "\<exists>s' fs'. Shorten draws now url al True ttl fs s = Some (if getEntry al s = None then al else [], s', fs')
     \<and> (\<forall>c. getEntry c s' = (if c = al \<and> getEntry al s = None then Some (newEntry url now (expiry now ttl) s)
                             else getEntry c s))
     \<and> Shorten draws2 now2 url2 al True ttl2 fs' s' = Some ([], s', fs')"
proof (cases "getEntry al s")
  case None
  obtain s' fs' where fl: "flushIfLarge (insertRow al url now (expiry now ttl) s) fs = (s', fs')" by fastforce
  then have "getEntry c s' = getEntry c (insertRow al url now (expiry now ttl) s)" for c
    by (rule getEntry_flushIfLarge)
  then show ?thesis using None fl by (simp add: Shorten_def)
next
  case Some
  then show ?thesis by (auto simp: Shorten_def)
qed

text \<open>C17. A generated code has eight characters of the base-62 alphabet, starts with the character
  of the instance that created it, was unused before, and no other code changes.\<close>

theorem Shorten_generated:
  assumes "Shorten draws now url al False ttl fs s = Some (code, s', fs')"
    and "sprefix s \<in> set ALPHABET"
  shows "length code = codeLen \<and> hd code = sprefix s \<and> set code \<subseteq> set ALPHABET
         \<and> getEntry code s = None \<and> (\<forall>c. c \<noteq> code \<longrightarrow> getEntry c s' = getEntry c s)"
proof -
  have f: "freshCode s draws = Some code"
    using assms(1) by (auto simp: Shorten_def Let_def split: prod.splits)
  then obtain d where d: "code = sprefix s # randSuffix d" using freshCode_shape by blast
  then have "code \<noteq> []" by simp
  with d assms(2) show ?thesis
    using Shorten_stores [OF assms(1)] randSuffix_ALPHABET [of d] by (auto simp: codeLen_def)
qed

theorem Shorten_generated_witness:
  "length (CHR ''0'' # randSuffix ''abcdefg'') = codeLen
   \<and> set (CHR ''0'' # randSuffix ''abcdefg'') \<subseteq> set ALPHABET
   \<and> getEntry ''al'' (insertRow (CHR ''0'' # randSuffix ''abcdefg'') ''http://x'' 5 0 emptyStore) = None"
proof -
  have "''al'' \<noteq> CHR ''0'' # randSuffix ''abcdefg''" by simp
  then show ?thesis
    using Shorten_generated [of "[''abcdefg'']" 5 "''http://x''" "[]" 0 fmempty emptyStore
        "CHR ''0'' # randSuffix ''abcdefg''"
        "insertRow (CHR ''0'' # randSuffix ''abcdefg'') ''http://x'' 5 0 emptyStore" fmempty]
    by (simp add: Shorten_def expiry_eval ALPHABET_def)
qed

text \<open>The codes an instance can generate, and that a free one is always among the draws it can
  make.\<close>

definition ownCodes :: "Store \<Rightarrow> bytes set" where
  "ownCodes s = (\<lambda>t. sprefix s # t) ` {t. set t \<subseteq> set ALPHABET \<and> length t = 7}"

lemma card_ownCodes: "card (ownCodes s) = 62 ^ 7"
proof -
  have "card (set ALPHABET) = 62" by (simp add: distinct_card distinct_ALPHABET)
  moreover have "inj_on (\<lambda>t. sprefix s # t) X" for X by (rule inj_onI) simp
  ultimately show ?thesis by (simp add: ownCodes_def card_image card_lists_length_eq)
qed

lemma ownCodes_drawn: "c \<in> ownCodes s \<Longrightarrow> \<exists>d. length d = 7 \<and> c = sprefix s # randSuffix d"
  using randSuffix_surj by (fastforce simp: ownCodes_def)

text \<open>C18. The retry loop of \<open>Shorten\<close> returns: while not all \<open>62^7\<close> codes the instance can generate are in use,
  some draw of seven random bytes is a free code, and a sequence of draws that contains it makes \<open>Shorten\<close>
  succeed.\<close>

theorem Shorten_returns:
  assumes "card {c \<in> ownCodes s. getEntry c s \<noteq> None} < 62 ^ 7"
  shows "\<exists>d. length d = 7 \<and> (\<forall>draws. d \<in> set draws \<longrightarrow>
           (\<exists>code s' fs'. Shorten draws now url al False ttl fs s = Some (code, s', fs') \<and> code \<noteq> []))"
proof -
  have "{c \<in> ownCodes s. getEntry c s \<noteq> None} \<noteq> ownCodes s" using assms card_ownCodes [of s] by auto
  then obtain c where "c \<in> ownCodes s" "getEntry c s = None" by blast
  then obtain d where d: "length d = 7" "getEntry (sprefix s # randSuffix d) s = None"
    using ownCodes_drawn by metis
  have "\<exists>code s' fs'. Shorten draws now url al False ttl fs s = Some (code, s', fs') \<and> code \<noteq> []"
    if dr: "d \<in> set draws" for draws
  proof -
    obtain code where "freshCode s draws = Some code" using freshCode_total [OF dr d(2)] by blast
    moreover from this have "code \<noteq> []" using freshCode_shape by blast
    ultimately show ?thesis by (simp add: Shorten_def Let_def split: prod.split)
  qed
  with d(1) show ?thesis by blast
qed

theorem Shorten_returns_witness:
  "\<exists>d. length d = 7 \<and> (\<forall>draws. d \<in> set draws \<longrightarrow>
     (\<exists>code s' fs'. Shorten draws 5 ''http://y'' [] False 0 fmempty
                     (insertRow ''al'' ''http://x'' 5 0 emptyStore) = Some (code, s', fs') \<and> code \<noteq> []))"
proof (rule Shorten_returns)
  let ?s = "insertRow ''al'' ''http://x'' 5 0 emptyStore"
  have "{c \<in> ownCodes ?s. getEntry c ?s \<noteq> None} = {}" by (auto simp: ownCodes_def)
  then show "card {c \<in> ownCodes ?s. getEntry c ?s \<noteq> None} < 62 ^ 7" unfolding \<open>_ = {}\<close> by simp
qed

section \<open>Bulk creation\<close>

lemma shortenManyLoop_spec:
  assumes "shortenManyLoop rnd draws now exp k urls s = Some (codes, s')"
  shows "length codes = length urls \<and> distinct codes \<and> (\<forall>c \<in> set codes. getEntry c s = None)
         \<and> (\<forall>j < length urls. getEntry (codes ! j) s' = Some (newEntry (urls ! j) now exp s))
         \<and> (\<forall>c. c \<notin> set codes \<longrightarrow> getEntry c s' = getEntry c s)"
  using assms
proof (induction urls arbitrary: k s codes)
  case Nil
  then show ?case by simp
next
  case (Cons u us)
  then obtain code codes' where c: "freshCode s (drop (k * (codeLen - 1)) rnd # draws k) = Some code"
    "shortenManyLoop rnd draws now exp (Suc k) us (insertRow code u now exp s) = Some (codes', s')"
    "codes = code # codes'"
    by (auto simp del: freshCode.simps split: option.splits)
  let ?s = "insertRow code u now exp s"
  from Cons.IH [OF c(2)] have ih: "length codes' = length us" "distinct codes'"
    "\<And>c. c \<in> set codes' \<Longrightarrow> getEntry c ?s = None"
    "\<And>j. j < length us \<Longrightarrow> getEntry (codes' ! j) s' = Some (newEntry (us ! j) now exp s)"
    "\<And>c. c \<notin> set codes' \<Longrightarrow> getEntry c s' = getEntry c ?s"
    by auto
  have new: "code \<notin> set codes'" using ih(3) [of code] by auto
  have "getEntry (codes ! j) s' = Some (newEntry ((u # us) ! j) now exp s)" if "j < Suc (length us)" for j
    using that ih(4) [of "j - 1"] ih(5) [OF new] c(3) by (cases j) simp_all
  moreover have "getEntry x s = None" if "x \<in> set codes" for x
    using that ih(3) [of x] freshCode_shape [OF c(1)] c(3) by (auto split: if_splits)
  ultimately show ?case using ih new c(3) by auto
qed

text \<open>C19. \<open>ShortenMany\<close> returns one code per url, in order; the codes are pairwise distinct and were
  unused; each resolves to its own url, and no other code changes.\<close>

theorem ShortenMany_codes:
  assumes "ShortenMany rnd draws now urls ttl fs s = Some (codes, s', fs')"
  shows "length codes = length urls \<and> distinct codes \<and> (\<forall>c \<in> set codes. getEntry c s = None)
         \<and> (\<forall>j < length urls. map_option e_u (getEntry (codes ! j) s') = Some (urls ! j))
         \<and> (\<forall>c. c \<notin> set codes \<longrightarrow> getEntry c s' = getEntry c s)"
proof -
  obtain s1 where s1: "shortenManyLoop rnd draws now (expiry now ttl) 0 urls s = Some (codes, s1)"
    "flushIfLarge s1 fs = (s', fs')"
    using assms by (auto simp: ShortenMany_def split: prod.splits)
  show ?thesis
    using shortenManyLoop_spec [OF s1(1)] getEntry_flushIfLarge [OF s1(2)] by (simp add: newEntry_def)
qed

lemma ShortenMany_eval:
  fixes c1 c2 :: bytes
  defines "c1 \<equiv> CHR ''0'' # randSuffix ''abcdefgABCDEFG''" and "c2 \<equiv> CHR ''0'' # randSuffix ''ABCDEFG''"
  shows "ShortenMany ''abcdefgABCDEFG'' (\<lambda>_. []) 5 [''http://x'', ''http://y''] 0 fmempty emptyStore
    = Some ([c1, c2], insertRow c2 ''http://y'' 5 0 (insertRow c1 ''http://x'' 5 0 emptyStore), fmempty)"
proof -
  have "hd (randSuffix ''abcdefgABCDEFG'') = ALPHABET ! (97 mod 62)" "hd (randSuffix ''ABCDEFG'') = ALPHABET ! (65 mod 62)"
    by (simp_all add: randSuffix_def codeLen_def maxInstances_def upt_rec)
  then have "c2 \<noteq> c1" unfolding c1_def c2_def using ALPHABET_nth_eq [of 3 35] by auto
  then show ?thesis
    by (simp add: ShortenMany_def expiry_eval codeLen_def Let_def c1_def c2_def)
qed

theorem ShortenMany_codes_witness:
  "\<exists>c1 c2 s'. ShortenMany ''abcdefgABCDEFG'' (\<lambda>_. []) 5 [''http://x'', ''http://y''] 0 fmempty emptyStore
       = Some ([c1, c2], s', fmempty)
     \<and> c1 \<noteq> c2 \<and> map_option e_u (getEntry c2 s') = Some ''http://y''"
proof -
  obtain c1 c2 s' where m: "ShortenMany ''abcdefgABCDEFG'' (\<lambda>_. []) 5 [''http://x'', ''http://y''] 0 fmempty emptyStore
       = Some ([c1, c2], s', fmempty)" using ShortenMany_eval by blast
  show ?thesis using m ShortenMany_codes [OF m] by (intro exI conjI) auto
qed

section \<open>Resolving and counting\<close>

text \<open>A link past its expiry resolves to nothing and is not counted.\<close>

theorem Resolve_expired:
  assumes "getEntry code s = Some e" and "e_e e \<noteq> 0" and "e_e e \<le> clk 2"
  shows "Resolve g track clk code fs s = Some (None, s)"
  using assms by (simp add: Resolve_def findEntry_hit expired_def)

theorem Resolve_expired_witness:
  "Resolve det_rt True (\<lambda>_. 200) ''al'' fmempty (insertRow ''al'' ''http://x'' 5 105 emptyStore)
   = Some (None, insertRow ''al'' ''http://x'' 5 105 emptyStore)"
  by (rule Resolve_expired [of _ _ "newEntry ''http://x'' 5 105 emptyStore"]) (simp_all add: newEntry_def)

text \<open>Resolving the same code again and again.\<close>

fun resolveMany :: "gort \<Rightarrow> bytes \<Rightarrow> fsys \<Rightarrow> (nat \<Rightarrow> int) list \<Rightarrow> Store \<Rightarrow> (bytes option list \<times> Store) option" where
  "resolveMany g code fs [] s = Some ([], s)"
| "resolveMany g code fs (clk # clks) s =
     Option.bind (Resolve g True clk code fs s) (\<lambda>(r, s).
       map_option (\<lambda>(rs, s). (r # rs, s)) (resolveMany g code fs clks s))"

lemma i64_Suc: "i64 (i64 (x + 1) + int n) = i64 (x + int (Suc n))"
  by (simp add: algebra_simps)

text \<open>Every successful resolution of a live link is counted exactly once, in the link's hit
  counters and in the delta the next flush will log (64-bit wrap-around included).\<close>

theorem Resolve_counts:
  assumes "getEntry code s = Some e" and "\<forall>clk \<in> set clks. \<not> expired (clk 2) e"
    and "in_i64 (e_h e)" and "in_i64 (e_oh e)" and "in_i64 (getDirty code s)"
  shows "\<exists>s'. resolveMany g code fs clks s = Some (replicate (length clks) (Some (e_u e)), s')
           \<and> getEntry code s' = Some (e\<lparr>e_h := i64 (e_h e + int (length clks)),
                                         e_oh := i64 (e_oh e + int (length clks))\<rparr>)
           \<and> getDirty code s' = i64 (getDirty code s + int (length clks))"
  using assms
proof (induction clks arbitrary: s e)
  case Nil
  then show ?case by (simp add: i64_id)
next
  case (Cons clk clks)
  let ?e = "e\<lparr>e_h := i64 (e_h e + 1), e_oh := i64 (e_oh e + 1)\<rparr>" and ?s = "countHit code e s"
  have r: "Resolve g True clk code fs s = Some (Some (e_u e), ?s)"
    using Resolve_hit [OF Cons.prems(1), of clk] Cons.prems(2) by simp
  have s1: "getEntry code ?s = Some ?e" "getDirty code ?s = i64 (getDirty code s + 1)"
    by (simp_all add: countHit_def)
  have "\<exists>s'. resolveMany g code fs clks ?s = Some (replicate (length clks) (Some (e_u ?e)), s')
      \<and> getEntry code s' = Some (?e\<lparr>e_h := i64 (e_h ?e + int (length clks)),
                                    e_oh := i64 (e_oh ?e + int (length clks))\<rparr>)
      \<and> getDirty code s' = i64 (getDirty code ?s + int (length clks))"
    by (rule Cons.IH [OF s1(1)]) (use Cons.prems(2) s1(2) in \<open>auto simp: expired_def\<close>)
  then obtain s' where "resolveMany g code fs clks ?s = Some (replicate (length clks) (Some (e_u e)), s')"
    "getEntry code s' = Some (e\<lparr>e_h := i64 (i64 (e_h e + 1) + int (length clks)),
                                e_oh := i64 (i64 (e_oh e + 1) + int (length clks))\<rparr>)"
    "getDirty code s' = i64 (i64 (getDirty code s + 1) + int (length clks))"
    using s1(2) by auto
  then show ?case using r unfolding i64_Suc by simp
qed

theorem Resolve_counts_witness:
  "\<exists>s'. resolveMany det_rt ''al'' fmempty [\<lambda>_. 7, \<lambda>_. 8] (insertRow ''al'' ''http://x'' 5 105 emptyStore)
         = Some ([Some ''http://x'', Some ''http://x''], s')
       \<and> map_option e_h (getEntry ''al'' s') = Some 2 \<and> getDirty ''al'' s' = 2"
proof -
  let ?s = "insertRow ''al'' ''http://x'' 5 105 emptyStore" and ?e = "newEntry ''http://x'' 5 105 emptyStore"
  have "getDirty ''al'' ?s = 0" by (simp add: insertRow_def pushLine_def)
  moreover have "i64 2 = 2" by (simp add: i64_id in_i64_def)
  ultimately show ?thesis
    using Resolve_counts [of "''al''" ?s ?e "[\<lambda>_. 7, \<lambda>_. 8]" det_rt fmempty]
    by (auto simp: newEntry_def expired_def in_i64_def)
qed

section \<open>Changing and removing links\<close>

text \<open>C20. \<open>Update\<close> and \<open>Remove\<close> act on exactly the links this instance owns. A missing or a remotely
  owned link is reported and the store stays as it is; an own link gets the new url and, if asked,
  the new expiry while creation time, owner and hit counters stay, or is removed; no other code
  changes.\<close>

theorem Update_Remove_ownership:
  "(case getEntry code s of
      None \<Rightarrow> Update now code url ttl hasTTL s = (MutMissing, s) \<and> Remove code s = (MutMissing, s)
    | Some e \<Rightarrow>
        if e_i e \<noteq> sinstance s
        then Update now code url ttl hasTTL s = (MutRemote, s) \<and> Remove code s = (MutRemote, s)
        else (\<exists>s1 s2. Update now code url ttl hasTTL s = (MutOK, s1) \<and> Remove code s = (MutOK, s2)
               \<and> (\<forall>c. getEntry c s1 =
                      (if c = code then Some (e\<lparr>e_u := url, e_e := if hasTTL then expiry now ttl else e_e e\<rparr>)
                       else getEntry c s))
               \<and> (\<forall>c. getEntry c s2 = (if c = code then None else getEntry c s))))"
  by (simp add: Update_def Remove_def Let_def split: option.split)

section \<open>Listing\<close>

text \<open>Every code is stored in the shard its hash selects.\<close>

definition shard_ok :: "Store \<Rightarrow> bool" where
  "shard_ok s \<longleftrightarrow> (\<forall>j c. fmlookup (sh_data (shards s j)) c \<noteq> None \<longrightarrow> j = shardOf c)"

lemma shard_ok_putEntry [wf_rules]: "shard_ok s \<Longrightarrow> shard_ok (putEntry c e s)"
  by (auto simp: shard_ok_def putEntry_def Let_def split: if_splits)

lemma shard_ok_delEntry [wf_rules]: "shard_ok s \<Longrightarrow> shard_ok (delEntry c s)"
  by (auto simp: shard_ok_def delEntry_def Let_def split: if_splits)

lemma shard_ok_cong: "shards t = shards s \<Longrightarrow> shard_ok t \<longleftrightarrow> shard_ok s"
  by (simp add: shard_ok_def)

definition matching :: "bytes \<Rightarrow> Store \<Rightarrow> Link set" where
  "matching q s = {viewOf c e |c e. getEntry c s = Some e \<and> matchesQuery q c e}"

lemma viewOf_Code [simp]: "l_Code (viewOf c e) = c"
  by (simp add: viewOf_def)

lemma set_listShard:
  assumes "rt_ok g"
  shows "set (listShard g q sh) = {viewOf c e |c e. fmlookup (sh_data sh) c = Some e \<and> matchesQuery q c e}"
proof -
  let ?m = "sh_data sh"
  have ord: "c \<in> set (ordData g ?m) \<longleftrightarrow> fmlookup ?m c \<noteq> None" for c
    using assms iter_order_mem [of ?m] by (auto simp: rt_ok_def)
  have "x \<in> set (case fmlookup ?m c of None \<Rightarrow> [] | Some e \<Rightarrow> if matchesQuery q c e then [viewOf c e] else [])
      \<longleftrightarrow> (\<exists>e. fmlookup ?m c = Some e \<and> matchesQuery q c e \<and> x = viewOf c e)" for x c
    by (cases "fmlookup ?m c") auto
  then show ?thesis
    unfolding listShard_def set_concat set_map image_image using ord by (intro set_eqI) (simp, blast)
qed

lemma distinct_listShard:
  assumes "rt_ok g"
  shows "distinct (map l_Code (listShard g q sh))"
proof -
  have d: "distinct (ordData g (sh_data sh))" using assms by (simp add: rt_ok_def iter_order_def)
  have "map l_Code (concat (map (\<lambda>c. case fmlookup (sh_data sh) c of None \<Rightarrow> []
      | Some e \<Rightarrow> if matchesQuery q c e then [viewOf c e] else []) ks))
      = filter (\<lambda>c. case fmlookup (sh_data sh) c of None \<Rightarrow> False | Some e \<Rightarrow> matchesQuery q c e) ks" for ks
    by (induction ks) (simp_all split: option.split)
  then show ?thesis using d by (simp add: listShard_def)
qed

lemma distinct_concat_map:
  assumes "distinct ks" and "\<And>k. k \<in> set ks \<Longrightarrow> distinct (f k)"
    and "\<And>j k x. x \<in> set (f j) \<Longrightarrow> x \<in> set (f k) \<Longrightarrow> j = k"
  shows "distinct (concat (map f ks))"
  using assms by (induction ks) auto

lemma listAll_spec:
  fixes q :: bytes
  assumes "rt_ok g" and "shard_ok s"
  defines "items \<equiv> concat (map (\<lambda>i. listShard g q (shards s i)) [0..<numShards])"
  shows "set items = matching q s" and "distinct (map l_Code items)"
proof -
  have mem: "x \<in> set (listShard g q (shards s j)) \<longleftrightarrow>
      (\<exists>c e. getEntry c s = Some e \<and> j = shardOf c \<and> matchesQuery q c e \<and> x = viewOf c e)" for x j
    using assms(2) unfolding set_listShard [OF assms(1)] shard_ok_def getEntry_def by fastforce
  show "set items = matching q s"
  proof (rule set_eqI)
    fix x
    have "x \<in> set items \<longleftrightarrow> (\<exists>j < numShards. x \<in> set (listShard g q (shards s j)))"
      by (auto simp: items_def)
    also have "\<dots> \<longleftrightarrow> (\<exists>c e. getEntry c s = Some e \<and> matchesQuery q c e \<and> x = viewOf c e)"
      unfolding mem using shardOf_less by blast
    finally show "x \<in> set items \<longleftrightarrow> x \<in> matching q s" unfolding matching_def by blast
  qed
  have "map l_Code items = concat (map (\<lambda>i. map l_Code (listShard g q (shards s i))) [0..<numShards])"
    by (simp add: items_def map_concat comp_def)
  also have "distinct \<dots>"
    by (rule distinct_concat_map) (auto simp: distinct_listShard [OF assms(1)] mem)
  finally show "distinct (map l_Code items)" .
qed

lemma pageOf_spec:
  assumes "0 \<le> limit" and "0 \<le> offset" and "in_i64 (int (length items) + limit)"
  shows "pageOf limit offset items = Some (take (nat limit) (drop (nat offset) items), int (length items))"
proof -
  let ?n = "int (length items)"
  let ?o = "if ?n < offset then ?n else offset"
  have "in_i64 (?o + limit)" using assms by (auto simp: in_i64_def)
  then have e: "i64 (?o + limit) = ?o + limit" by (rule i64_id)
  show ?thesis
  proof (cases "?n < offset")
    case True
    then show ?thesis using assms e by (auto simp: pageOf_def goslice_def Let_def)
  next
    case False
    have "take (nat ((if ?n < offset + limit then ?n else offset + limit) - offset)) (drop (nat offset) items)
        = take (nat limit) (drop (nat offset) items)"
      using assms False by (auto simp: nat_diff_distrib nat_add_distrib)
    then show ?thesis using assms e False by (simp add: pageOf_def goslice_def Let_def)
  qed
qed

lemma ListLinks_items:
  assumes "rt_ok g" and "shard_ok s"
  obtains items where "ListLinks g limit offset sortBy q s = pageOf limit offset items"
    and "set items = matching q s" and "distinct (map l_Code items)" and "length items = card (matching q s)"
    and "if sortBy = ''hits'' then sorted_wrt (\<lambda>x y. l_Hits y \<le> l_Hits x) items
         else sorted_wrt (\<lambda>x y. l_CreatedAt y \<le> l_CreatedAt x) items"
proof -
  define items0 where "items0 = concat (map (\<lambda>i. listShard g q (shards s i)) [0..<numShards])"
  define key :: "Link \<Rightarrow> int" where "key = (if sortBy = ''hits'' then l_Hits else l_CreatedAt)"
  define items where "items = sortSlice g (\<lambda>x y. key y < key x) items0"
  have sort: "mset items = mset items0" "sorted_wrt (\<lambda>x y. key y \<le> key x) items"
    using assms(1) by (simp_all add: rt_ok_def items_def)
  note all = listAll_spec [OF assms(1,2), of q, folded items0_def]
  have set: "set items = matching q s" using sort(1) all(1) by (metis mset_eq_setD)
  have dist: "distinct (map l_Code items)"
    using all(2) sort(1) by (metis mset_map mset_eq_imp_distinct_iff)
  have len: "length items = card (matching q s)"
    using dist set distinct_card [of items] by (simp add: distinct_map)
  have "ListLinks g limit offset sortBy q s = pageOf limit offset items"
    by (simp add: ListLinks_def Let_def items_def items0_def key_def)
  moreover have "if sortBy = ''hits'' then sorted_wrt (\<lambda>x y. l_Hits y \<le> l_Hits x) items
      else sorted_wrt (\<lambda>x y. l_CreatedAt y \<le> l_CreatedAt x) items"
    using sort(2) unfolding key_def by (cases "sortBy = ''hits''") simp_all
  ultimately show thesis using that set dist len by blast
qed

text \<open>C21. \<open>List\<close> returns the requested page of all matching links, each once, in descending order of
  hits or of creation time, together with their total number; a negative limit or offset apart it
  never panics.\<close>

theorem ListLinks_page:
  assumes "rt_ok g" and "shard_ok s" and "0 \<le> limit" and "0 \<le> offset"
    and "in_i64 (int (card (matching q s)) + limit)"
  shows "\<exists>items. ListLinks g limit offset sortBy q s
           = Some (take (nat limit) (drop (nat offset) items), int (card (matching q s)))
         \<and> set items = matching q s \<and> distinct (map l_Code items)
         \<and> (if sortBy = ''hits'' then sorted_wrt (\<lambda>x y. l_Hits y \<le> l_Hits x) items
            else sorted_wrt (\<lambda>x y. l_CreatedAt y \<le> l_CreatedAt x) items)"
proof (rule ListLinks_items [OF assms(1,2), of limit offset sortBy q])
  fix items
  assume a: "ListLinks g limit offset sortBy q s = pageOf limit offset items" "length items = card (matching q s)"
    "set items = matching q s" "distinct (map l_Code items)"
    "if sortBy = ''hits'' then sorted_wrt (\<lambda>x y. l_Hits y \<le> l_Hits x) items
     else sorted_wrt (\<lambda>x y. l_CreatedAt y \<le> l_CreatedAt x) items"
  have "pageOf limit offset items = Some (take (nat limit) (drop (nat offset) items), int (card (matching q s)))"
    using pageOf_spec [of limit offset items] assms(3-5) a(2) by simp
  then show ?thesis using a by (intro exI [of _ items]) simp
qed

theorem ListLinks_page_witness:
  "\<exists>items. ListLinks det_rt 10 0 ''hits'' [] (insertRow ''al'' ''http://x'' 5 105 emptyStore)
       = Some (take 10 items, 1)
     \<and> set items = {viewOf ''al'' (newEntry ''http://x'' 5 105 emptyStore)}"
proof -
  let ?s = "insertRow ''al'' ''http://x'' 5 105 emptyStore"
  have m: "matching [] ?s = {viewOf ''al'' (newEntry ''http://x'' 5 105 emptyStore)}"
    by (auto simp: matching_def matchesQuery_def split: if_splits)
  have "shard_ok emptyStore" by (simp add: shard_ok_def emptyStore_def)
  then have "shard_ok ?s"
    unfolding insertRow_def by (simp add: shard_ok_cong [of "pushLine l t" t for l t] shard_ok_putEntry)
  then show ?thesis
    using ListLinks_page [OF rt_ok_det_rt, of ?s 10 0 "[]" "''hits''"] by (auto simp: m in_i64_def)
qed

end
