(* ===== verification/Metrics.thy ===== *)
theory Metrics
  imports Strconv
begin

text \<open>
  \<open>internal/metrics/metrics.go\<close>: the request counters, the ring of one bucket per second, and the two
  reports. The clock reading is an argument and not before 1970; the counters are 64-bit integers
  that wrap around. Shown: the per-second window of a report is the exact number of requests of
  each of the last 31 seconds.
\<close>

record Metrics =
  ring :: "int list"
  cur :: int
  total :: int
  started :: int
  opCounts :: "int list"
  statusCounts :: "int list"
  cacheHit :: int
  cacheMiss :: int
  storeReads :: int
  storeReadUS :: int
  storeWrites :: int
  linksTotal :: int

definition ringN :: int where
  "ringN = 60"

definition Ops :: "bytes list" where
  "Ops = [''redirect'', ''shorten'', ''shorten_bulk'', ''update'', ''delete'', ''list'',
          ''stats'', ''health'', ''metrics'', ''ui'', ''other'']"

text \<open>The package variables and \<open>init\<close>.\<close>

definition initMetrics :: "int \<Rightarrow> Metrics" where
  "initMetrics now =
     \<lparr>ring = replicate 60 0, cur = now div 1000, total = 0, started = now,
      opCounts = replicate 11 0, statusCounts = replicate 4 0, cacheHit = 0, cacheMiss = 0,
      storeReads = 0, storeReadUS = 0, storeWrites = 0, linksTotal = 0\<rparr>"

definition addAt :: "nat \<Rightarrow> int list \<Rightarrow> int list" where
  "addAt i xs = xs[i := i64 (xs ! i + 1)]"

definition Op :: "nat \<Rightarrow> Metrics \<Rightarrow> Metrics" where
  "Op i m = m\<lparr>opCounts := addAt i (opCounts m)\<rparr>"

definition CacheHit :: "Metrics \<Rightarrow> Metrics" where
  "CacheHit m = m\<lparr>cacheHit := i64 (cacheHit m + 1)\<rparr>"

definition CacheMiss :: "Metrics \<Rightarrow> Metrics" where
  "CacheMiss m = m\<lparr>cacheMiss := i64 (cacheMiss m + 1)\<rparr>"

definition StoreRead :: "int \<Rightarrow> Metrics \<Rightarrow> Metrics" where
  "StoreRead us m = m\<lparr>storeReads := i64 (storeReads m + 1), storeReadUS := i64 (storeReadUS m + us)\<rparr>"

definition StoreWrite :: "Metrics \<Rightarrow> Metrics" where
  "StoreWrite m = m\<lparr>storeWrites := i64 (storeWrites m + 1)\<rparr>"

definition LinksDelta :: "int \<Rightarrow> Metrics \<Rightarrow> Metrics" where
  "LinksDelta n m = m\<lparr>linksTotal := i64 (linksTotal m + n)\<rparr>"

definition statusClass :: "int \<Rightarrow> nat" where
  "statusClass code =
     (if 200 \<le> code \<and> code < 300 then 0
      else if 300 \<le> code \<and> code < 400 then 1
      else if 400 \<le> code \<and> code < 500 then 2
      else 3)"

definition Status :: "int \<Rightarrow> Metrics \<Rightarrow> Metrics" where
  "Status code m = m\<lparr>statusCounts := addAt (statusClass code) (statusCounts m)\<rparr>"

text \<open>\<open>Tick\<close>; within one atomic step the compare-and-swap succeeds.\<close>

definition slot :: "int \<Rightarrow> nat" where
  "slot t = nat (t mod ringN)"

definition resetRing :: "int \<Rightarrow> int \<Rightarrow> int list \<Rightarrow> int list" where
  "resetRing c s r = fold (\<lambda>t r. r[slot t := 0]) [c + 1..s] r"

definition Tick :: "int \<Rightarrow> Metrics \<Rightarrow> Metrics" where
  "Tick now m =
     (let s = now div 1000; c = cur m;
          r = (if s \<noteq> c then resetRing c s (ring m) else ring m)
      in m\<lparr>total := i64 (total m + 1), cur := s, ring := addAt (slot s) r\<rparr>)"

section \<open>Reports\<close>

definition window :: "int \<Rightarrow> Metrics \<Rightarrow> int list" where
  "window now m =
     (let s = now div 1000; c = cur m
      in map (\<lambda>i. let t = s - 30 + int i
                  in if t \<le> c \<and> c - t < ringN then ring m ! slot t else 0) [0..<31])"

text \<open>A number of tenths as \<open>AppendFloat\<close> with the shortest representation prints it. The rate is
  \<open>int64(last5/5*10 + 0.5)\<close> tenths, which is \<open>2 * last5\<close>: the rounding errors of the two operations
  stay below one half.\<close>

definition fmtTenths :: "int \<Rightarrow> bytes" where
  "fmtTenths n =
     (if n mod 10 = 0 then FormatInt (n div 10)
      else FormatInt (n div 10) @ ''.'' @ FormatInt (n mod 10))"

definition commaJoin :: "bytes list \<Rightarrow> bytes" where
  "commaJoin xs = concat (map (\<lambda>(i, x). (if 0 < i then '','' else []) @ x) (enumerate 0 xs))"

definition Snapshot :: "int \<Rightarrow> Metrics \<Rightarrow> bytes" where
  "Snapshot now m =
     (let w = window now m; last5 = sum_list (take 5 (drop 25 w))
      in ''{\"req_s\":'' @ fmtTenths (2 * last5)
         @ '',\"total\":'' @ FormatInt (total m)
         @ '',\"uptime_s\":'' @ FormatInt ((now - started m) div 1000)
         @ '',\"per_second\":['' @ commaJoin (map FormatInt w) @ '']}'')"

definition pline :: "bytes \<Rightarrow> bytes \<Rightarrow> int \<Rightarrow> bytes" where
  "pline m labels v =
     m @ (if labels \<noteq> [] then ''{'' @ labels @ ''}'' else []) @ '' '' @ FormatInt v @ [NL]"

definition headLine :: "bytes \<Rightarrow> bytes \<Rightarrow> bytes \<Rightarrow> bytes" where
  "headLine m help kind =
     ''# HELP '' @ m @ '' '' @ help @ [NL] @ ''# TYPE '' @ m @ '' '' @ kind @ [NL]"

definition Prometheus :: "int \<Rightarrow> int \<Rightarrow> Metrics \<Rightarrow> bytes" where
  "Prometheus now rateLimited m =
     headLine ''shrt_requests_total'' ''Requests by operation'' ''counter''
     @ concat (map (\<lambda>(name, v). pline ''shrt_requests_total'' (''op='' @ [DQ] @ name @ [DQ]) v)
                 (zip Ops (opCounts m)))
     @ headLine ''shrt_responses_total'' ''Responses by status class'' ''counter''
     @ concat (map (\<lambda>(cls, v). pline ''shrt_responses_total'' (''class='' @ [DQ] @ cls @ [DQ]) v)
                 (zip [''2xx'', ''3xx'', ''4xx'', ''5xx''] (statusCounts m)))
     @ headLine ''shrt_cache_lookups_total'' ''Local hot-cache lookups'' ''counter''
     @ pline ''shrt_cache_lookups_total'' (''result='' @ [DQ] @ ''hit'' @ [DQ]) (cacheHit m)
     @ pline ''shrt_cache_lookups_total'' (''result='' @ [DQ] @ ''miss'' @ [DQ]) (cacheMiss m)
     @ headLine ''shrt_store_reads_total'' ''Backing-store point reads (cache misses)'' ''counter''
     @ pline ''shrt_store_reads_total'' [] (storeReads m)
     @ headLine ''shrt_store_read_us_total'' ''Cumulative backing-store read latency (us)'' ''counter''
     @ pline ''shrt_store_read_us_total'' [] (storeReadUS m)
     @ headLine ''shrt_store_writes_total'' ''Backing-store writes'' ''counter''
     @ pline ''shrt_store_writes_total'' [] (storeWrites m)
     @ headLine ''shrt_rate_limited_total'' ''Requests rejected by the rate limiter'' ''counter''
     @ pline ''shrt_rate_limited_total'' [] (i64 rateLimited)
     @ headLine ''shrt_links_total'' ''Live links created minus deleted'' ''gauge''
     @ pline ''shrt_links_total'' [] (linksTotal m)
     @ headLine ''shrt_uptime_seconds'' ''Process uptime'' ''gauge''
     @ pline ''shrt_uptime_seconds'' [] ((now - started m) div 1000)
     @ [NL]"

section \<open>The window counts requests\<close>

definition ticksIn :: "int \<Rightarrow> int list \<Rightarrow> int" where
  "ticksIn t ts = int (length (filter (\<lambda>x. x div 1000 = t) ts))"

definition ring_ok :: "int list \<Rightarrow> Metrics \<Rightarrow> bool" where
  "ring_ok ts m \<longleftrightarrow>
     length (ring m) = 60 \<and> (\<forall>x \<in> set ts. x div 1000 \<le> cur m)
     \<and> (\<forall>t. cur m - 60 < t \<and> t \<le> cur m \<longrightarrow> ring m ! slot t = i64 (ticksIn t ts))"

lemma slot_less [simp]: "slot t < 60"
  by (simp add: slot_def ringN_def nat_less_iff)

lemma slot_eq: "slot t = slot u \<longleftrightarrow> t mod 60 = u mod 60"
  by (simp add: slot_def ringN_def eq_nat_nat_iff)

lemma slot_neq:
  assumes "t < u" and "u < t + 60"
  shows "slot t \<noteq> slot u"
proof
  assume "slot t = slot u"
  then have "60 dvd u - t" by (simp add: slot_eq mod_eq_dvd_iff dvd_diff_commute)
  then have "60 \<le> u - t" using assms(1) by (intro zdvd_imp_le) simp_all
  with assms(2) show False by simp
qed

lemma length_reset [simp]: "length (fold (\<lambda>t r. r[slot t := 0]) ts r) = length r"
  by (induction ts arbitrary: r) simp_all

lemma nth_reset:
  "i < length r \<Longrightarrow> fold (\<lambda>t r. r[slot t := 0]) ts r ! i = (if \<exists>t \<in> set ts. slot t = i then 0 else r ! i)"
  by (induction ts arbitrary: r) auto

lemma ring_ok_init: "ring_ok [] (initMetrics now)"
  by (simp add: ring_ok_def initMetrics_def ticksIn_def i64_def)

lemma ticksIn_snoc: "ticksIn t (ts @ [x]) = ticksIn t ts + (if x div 1000 = t then 1 else 0)"
  by (simp add: ticksIn_def)

lemma ring_ok_Tick:
  assumes ok: "ring_ok ts m" and "cur m \<le> now div 1000"
  shows "ring_ok (ts @ [now]) (Tick now m)"
proof -
  let ?s = "now div 1000" and ?c = "cur m"
  define r where "r = (if ?s \<noteq> ?c then resetRing ?c ?s (ring m) else ring m)"
  have len: "length r = 60" using ok by (simp add: r_def ring_ok_def resetRing_def)
  have old: "ring m ! slot t = i64 (ticksIn t ts)" if "?c - 60 < t" "t \<le> ?c" for t
    using ok that by (simp add: ring_ok_def)
  have r: "r ! slot t = i64 (ticksIn t ts)" if t: "?s - 60 < t" "t \<le> ?s" for t
  proof (cases "t \<le> ?c")
    case True
    have "slot u \<noteq> slot t" if "u \<in> set [?c + 1..?s]" for u
      using slot_neq [of t u] that True t by auto
    then have "r ! slot t = ring m ! slot t"
      using ok by (simp add: r_def resetRing_def nth_reset ring_ok_def)
    then show ?thesis using old True t assms(2) by simp
  next
    case False
    then have "ticksIn t ts = 0"
      using ok by (fastforce simp: ticksIn_def ring_ok_def filter_empty_conv)
    moreover have "r ! slot t = 0"
      using False t ok by (auto simp: r_def resetRing_def nth_reset ring_ok_def)
    ultimately show ?thesis by (simp add: i64_id in_i64_def)
  qed
  have "addAt (slot ?s) r ! slot t = i64 (ticksIn t (ts @ [now]))" if "?s - 60 < t" "t \<le> ?s" for t
  proof (cases "t = ?s")
    case True
    then show ?thesis using r [of ?s] len by (simp add: addAt_def ticksIn_snoc)
  next
    case False
    then show ?thesis using r [OF that] slot_neq [of t ?s] that by (simp add: addAt_def ticksIn_snoc)
  qed
  moreover have "\<forall>x \<in> set (ts @ [now]). x div 1000 \<le> ?s" using ok assms(2) by (force simp: ring_ok_def)
  ultimately show ?thesis using len by (simp add: ring_ok_def Tick_def Let_def r_def addAt_def)
qed

lemma cur_Tick [simp]: "cur (Tick now m) = now div 1000"
  by (simp add: Tick_def Let_def)

lemma ring_ok_run:
  assumes "sorted (map (\<lambda>x. x div 1000) (t0 # ts))"
  shows "ring_ok ts (fold Tick ts (initMetrics t0)) \<and> cur (fold Tick ts (initMetrics t0)) = last (t0 # ts) div 1000"
  using assms
proof (induction ts rule: rev_induct)
  case Nil
  show ?case using ring_ok_init [of t0] by simp (simp add: initMetrics_def)
next
  case (snoc x ts)
  have s: "sorted (map (\<lambda>x. x div 1000) (t0 # ts))" "last (t0 # ts) div 1000 \<le> x div 1000"
    using snoc.prems by (auto simp: sorted_append split: if_splits)
  from snoc.IH [OF s(1)] s(2) have "ring_ok (ts @ [x]) (Tick x (fold Tick ts (initMetrics t0)))"
    by (intro ring_ok_Tick) auto
  then show ?case by simp
qed

text \<open>C28. The report is exact: after any requests whose clock readings do not decrease, the window
  holds, for the current second and each of the thirty before it, the number of requests received
  in that second.\<close>

theorem window_counts:
  assumes "sorted (map (\<lambda>x. x div 1000) (t0 # ts @ [now]))"
  shows "window now (fold Tick ts (initMetrics t0))
         = map (\<lambda>i. i64 (ticksIn (now div 1000 - 30 + int i) ts)) [0..<31]"
proof -
  let ?m = "fold Tick ts (initMetrics t0)" and ?s = "now div 1000"
  have s: "sorted (map (\<lambda>x. x div 1000) (t0 # ts))" "last (t0 # ts) div 1000 \<le> ?s"
    using assms by (auto simp: sorted_append split: if_splits)
  have ok: "ring_ok ts ?m" and c: "cur ?m \<le> ?s" using ring_ok_run [OF s(1)] s(2) by auto
  have "(if t \<le> cur ?m \<and> cur ?m - t < ringN then ring ?m ! slot t else 0) = i64 (ticksIn t ts)"
    if "?s - 30 \<le> t" for t
  proof (cases "t \<le> cur ?m")
    case True
    then show ?thesis using ok that c by (simp add: ring_ok_def ringN_def)
  next
    case False
    then have "ticksIn t ts = 0" using ok by (fastforce simp: ticksIn_def ring_ok_def filter_empty_conv)
    then show ?thesis using False by (simp add: i64_id in_i64_def)
  qed
  then show ?thesis by (simp add: window_def Let_def)
qed

theorem window_counts_witness:
  "let w = window 70500 (fold Tick [10100, 69000, 69999, 70100] (initMetrics 10000))
   in w ! 30 = 1 \<and> w ! 29 = 2 \<and> w ! 28 = 0 \<and> length w = 31"
  using window_counts [of 10000 "[10100, 69000, 69999, 70100]" 70500]
  by (simp add: ticksIn_def i64_id in_i64_def del: upt.simps)

end
