(* ===== verification/Api.thy ===== *)
theory Api
  imports Links Metrics
begin

text \<open>
  The interface \<open>API\<close> of \<open>internal/store/store.go\<close> between the HTTP layer and a storage engine, as a
  record of operations over an engine state; the AOF engine as an instance of it; the choice of
  the engine from the environment (\<open>NewFromEnv\<close>). The locale \<open>store_api\<close> states what the HTTP layer
  relies on; the AOF engine satisfies it. An operation yields \<open>None\<close> when it panics or does not
  return. The counters of \<open>internal/metrics\<close> that an engine advances are part of its state:
  \<open>apiCounters\<close> writes them into the handler's counters when those are rendered.
\<close>

record 's API =
  apiShorten :: "bytes \<Rightarrow> bytes \<Rightarrow> bool \<Rightarrow> int \<Rightarrow> 's \<Rightarrow> (bytes \<times> 's) option"
  apiShortenMany :: "bytes list \<Rightarrow> int \<Rightarrow> 's \<Rightarrow> (bytes list \<times> 's) option"
  apiResolve :: "bytes \<Rightarrow> 's \<Rightarrow> (bytes option \<times> 's) option"
  apiUpdate :: "bytes \<Rightarrow> bytes \<Rightarrow> int \<Rightarrow> bool \<Rightarrow> 's \<Rightarrow> (MutResult \<times> 's) option"
  apiRemove :: "bytes \<Rightarrow> 's \<Rightarrow> (MutResult \<times> 's) option"
  apiList :: "int \<Rightarrow> int \<Rightarrow> bytes \<Rightarrow> bytes \<Rightarrow> 's \<Rightarrow> (Link list \<times> int) option"
  apiStats :: "bytes \<Rightarrow> 's \<Rightarrow> Link option option"
  apiSeed :: "bytes list \<Rightarrow> 's \<Rightarrow> (nat \<times> 's) option"
  apiIsEmpty :: "'s \<Rightarrow> bool option"
  apiHealthy :: "'s \<Rightarrow> bool option"
  apiFlush :: "'s \<Rightarrow> 's option"
  apiPollTails :: "'s \<Rightarrow> 's option"
  apiCompact :: "'s \<Rightarrow> 's"
  apiClose :: "'s \<Rightarrow> 's option"
  apiCounters :: "'s \<Rightarrow> Metrics \<Rightarrow> Metrics"

text \<open>What one call of the AOF engine takes from its surroundings: runtime choices, the \<open>HITS\<close>
  setting, clock readings, random bytes, results of the system calls of \<open>Compact\<close>.\<close>

record aof_env =
  eRt :: gort
  eTrack :: bool
  eClk :: "nat \<Rightarrow> int"
  eDraws :: "bytes list"
  eRnd :: bytes
  eManyDraws :: "nat \<Rightarrow> bytes list"
  eCreateOK :: bool
  eSnapWrites :: "nat list"
  eRenameOK :: bool
  eTruncOK :: bool

type_synonym aof_state = "Store \<times> fsys"

definition aofAPI :: "aof_env \<Rightarrow> aof_state API" where
  "aofAPI env =
     \<lparr>apiShorten = (\<lambda>url al hasAlias ttl (s, fs).
        Shorten (eDraws env) (eClk env 0) url al hasAlias ttl fs s),
      apiShortenMany = (\<lambda>urls ttl (s, fs).
        ShortenMany (eRnd env) (eManyDraws env) (eClk env 0) urls ttl fs s),
      apiResolve = (\<lambda>code (s, fs).
        map_option (\<lambda>(r, s). (r, s, fs)) (Resolve (eRt env) (eTrack env) (eClk env) code fs s)),
      apiUpdate = (\<lambda>code url ttl hasTTL (s, fs).
        let (r, s) = Update (eClk env 0) code url ttl hasTTL s in Some (r, s, fs)),
      apiRemove = (\<lambda>code (s, fs). let (r, s) = Remove code s in Some (r, s, fs)),
      apiList = (\<lambda>limit offset sortBy q (s, fs). ListLinks (eRt env) limit offset sortBy q s),
      apiStats = (\<lambda>code (s, fs). Some (Stats code s)),
      apiSeed = (\<lambda>urls (s, fs).
        Seed (eRt env) (eRnd env) (eManyDraws env) (eClk env 0) urls fs s),
      apiIsEmpty = (\<lambda>(s, fs). Some (IsEmpty s)),
      apiHealthy = (\<lambda>(s, fs). Some (Healthy s)),
      apiFlush = (\<lambda>(s, fs). Some (Flush (eRt env) fs s)),
      apiPollTails = (\<lambda>(s, fs). map_option (\<lambda>s. (s, fs)) (PollTails (eRt env) (eClk env 0) fs s)),
      apiCompact = (\<lambda>(s, fs). Compact (eRt env) (eCreateOK env) (eSnapWrites env) (eRenameOK env) (eTruncOK env) fs s),
      apiClose = (\<lambda>(s, fs). Some (Close (eRt env) fs s)),
      apiCounters = (\<lambda>_ m. m)\<rparr>"

section \<open>Choosing the engine\<close>

text \<open>An environment variable that is unset or empty reads as the empty string.\<close>

definition envInt :: "(bytes \<Rightarrow> bytes) \<Rightarrow> bytes \<Rightarrow> int \<Rightarrow> int" where
  "envInt getenv k dflt =
     (let v = getenv k
      in if v \<noteq> [] then (case ParseInt v of (n, None) \<Rightarrow> n | _ \<Rightarrow> dflt) else dflt)"

datatype engine =
    PebbleEngine bytes int int int
  | KvEngine bytes int int int
  | AofEngine bytes int

definition NewFromEnv :: "(bytes \<Rightarrow> bytes) \<Rightarrow> bytes \<Rightarrow> int \<Rightarrow> engine" where
  "NewFromEnv getenv dir inst =
     (let st = getenv ''STORE'';
          cache = envInt getenv ''CACHE'' 100000; ttl = envInt getenv ''CACHE_TTL_MS'' 5000
      in if st = ''pebble'' \<or> st = ''rocksdb'' then
           let path = getenv ''PEBBLE_PATH'';
               path = (if path = [] then dir @ ''/pebble'' else path)
           in PebbleEngine path inst cache ttl
         else if st = ''dragonfly'' \<or> st = ''redis'' \<or> st = ''kv'' then
           let addr = getenv ''DRAGONFLY_ADDR'';
               addr = (if addr = [] then getenv ''KV_ADDR'' else addr);
               addr = (if addr = [] then ''127.0.0.1:6379'' else addr)
           in KvEngine addr inst cache ttl
         else AofEngine dir inst)"

section \<open>Codes the HTTP layer passes on\<close>

text \<open>\<open>codeOK\<close> of \<open>internal/app/app.go\<close>, which guards every code and alias that reaches an engine.\<close>

definition codeChar :: "char \<Rightarrow> bool" where
  "codeChar c \<longleftrightarrow>
     (c \<ge> CHR ''0'' \<and> c \<le> CHR ''9'') \<or> (c \<ge> CHR ''a'' \<and> c \<le> CHR ''z'') \<or> (c \<ge> CHR ''A'' \<and> c \<le> CHR ''Z'')
     \<or> c = CHR ''_'' \<or> c = CHR ''-''"

definition codeOK :: "bytes \<Rightarrow> bool" where
  "codeOK s \<longleftrightarrow> \<not> (length s = 0 \<or> 64 < length s) \<and> list_all codeChar s"

lemma codeOK_chars: "codeOK s \<Longrightarrow> c \<in> set s \<Longrightarrow> codeChar c"
  by (simp add: codeOK_def list_all_iff)

lemma not_codeChar [simp]:
  "\<not> codeChar (CHR ''/'')" "\<not> codeChar (CHR ''?'')" "\<not> codeChar DQ" "\<not> codeChar BSL" "\<not> codeChar NL"
  by (simp_all add: codeChar_def less_eq_char_def)

lemma ALPHABET_codeChar: "c \<in> set ALPHABET \<Longrightarrow> codeChar c"
proof -
  have "list_all codeChar ALPHABET" by (simp add: ALPHABET_def codeChar_def less_eq_char_def)
  then show "c \<in> set ALPHABET \<Longrightarrow> codeChar c" by (simp add: list_all_iff)
qed

lemma codeOK_generated: "length code = codeLen \<Longrightarrow> set code \<subseteq> set ALPHABET \<Longrightarrow> codeOK code"
  using ALPHABET_codeChar by (auto simp: codeOK_def codeLen_def list_all_iff)

section \<open>What the HTTP layer relies on\<close>

text \<open>
  A view gives the url and the expiry (0 for none) of each code. \<open>ok\<close> is the engine's invariant, \<open>fitsCode\<close>
  and \<open>fitsURL\<close> the codes and urls it can take, among them all the handler lets pass, \<open>fitsTTL\<close> the lifetimes. \<open>stamp\<close> is the
  engine's clock when it creates a link, \<open>seen\<close> its clock when it resolves one.
\<close>

locale store_api =
  fixes api :: "'s API"
    and view :: "'s \<Rightarrow> bytes \<Rightarrow> (bytes \<times> int) option"
    and ok :: "'s \<Rightarrow> bool"
    and fitsCode :: "bytes \<Rightarrow> bool"
    and fitsURL :: "bytes \<Rightarrow> bool"
    and fitsTTL :: "int \<Rightarrow> bool"
    and stamp :: int
    and seen :: int
  assumes fits_code: "codeOK code \<Longrightarrow> fitsCode code"
    and fits_url: "length url \<le> 2048 \<Longrightarrow> fitsURL url"
    and fits_ttl: "in_i64 ttl \<Longrightarrow> ttl \<le> 2 ^ 62 \<Longrightarrow> fitsTTL ttl"
    and alias_taken: "ok s \<Longrightarrow> fitsCode al \<Longrightarrow> fitsURL url \<Longrightarrow> fitsTTL ttl \<Longrightarrow> view s al \<noteq> None \<Longrightarrow>
      \<exists>s'. apiShorten api url al True ttl s = Some ([], s') \<and> ok s' \<and> view s' = view s"
    and alias_free: "ok s \<Longrightarrow> fitsCode al \<Longrightarrow> fitsURL url \<Longrightarrow> fitsTTL ttl \<Longrightarrow> view s al = None \<Longrightarrow>
      \<exists>s'. apiShorten api url al True ttl s = Some (al, s') \<and> ok s'
           \<and> view s' = (view s)(al \<mapsto> (url, expiry stamp ttl))"
    and generated: "ok s \<Longrightarrow> fitsURL url \<Longrightarrow> fitsTTL ttl \<Longrightarrow> apiShorten api url al False ttl s = Some (code, s') \<Longrightarrow>
      length code = codeLen \<and> set code \<subseteq> set ALPHABET \<and> view s code = None \<and> ok s'
      \<and> view s' = (view s)(code \<mapsto> (url, expiry stamp ttl))"
    and resolve_live: "ok s \<Longrightarrow> fitsCode code \<Longrightarrow> view s code = Some (u, e) \<Longrightarrow> e = 0 \<or> seen < e \<Longrightarrow>
      \<exists>s'. apiResolve api code s = Some (Some u, s') \<and> ok s' \<and> view s' = view s"
    and updated: "ok s \<Longrightarrow> fitsCode code \<Longrightarrow> fitsURL url \<Longrightarrow> apiUpdate api code url ttl hasTTL s = Some (m, s') \<Longrightarrow>
      ok s' \<and> (if m = MutOK
               then \<exists>u e. view s code = Some (u, e)
                      \<and> view s' = (view s)(code \<mapsto> (url, if hasTTL then expiry stamp ttl else e))
               else view s' = view s)"
    and removed: "ok s \<Longrightarrow> fitsCode code \<Longrightarrow> apiRemove api code s = Some (m, s') \<Longrightarrow>
      ok s' \<and> (if m = MutOK then view s code \<noteq> None \<and> view s' = (view s)(code := None) else view s' = view s)"
begin

lemma shorten_view:
  assumes "ok s" and "apiShorten api url al hasAlias ttl s = Some (code, s')" and "code \<noteq> []"
    and "hasAlias \<longrightarrow> fitsCode al" and "fitsURL url" and "fitsTTL ttl"
  shows "ok s'" and "view s code = None" and "view s' = (view s)(code \<mapsto> (url, expiry stamp ttl))"
    and "if hasAlias then code = al else length code = codeLen \<and> set code \<subseteq> set ALPHABET"
proof -
  have "ok s' \<and> view s code = None \<and> view s' = (view s)(code \<mapsto> (url, expiry stamp ttl))
        \<and> (if hasAlias then code = al else length code = codeLen \<and> set code \<subseteq> set ALPHABET)"
  proof (cases hasAlias)
    case True
    then have al: "fitsCode al" using assms(4) by simp
    then have "view s al = None"
      using True assms(2,3) alias_taken [OF assms(1) al assms(5,6)] by (cases "view s al") auto
    then show ?thesis using assms(2) True alias_free [OF assms(1) al assms(5,6)] by auto
  next
    case False
    then show ?thesis using assms(2) generated [OF assms(1,5,6)] by simp
  qed
  then show "ok s'" and "view s code = None" and "view s' = (view s)(code \<mapsto> (url, expiry stamp ttl))"
    and "if hasAlias then code = al else length code = codeLen \<and> set code \<subseteq> set ALPHABET" by simp_all
qed

end

text \<open>The AOF engine keeps the contract in every state, in memory or on disk, whose prefix is a
  character of the alphabet.\<close>

definition aofView :: "aof_state \<Rightarrow> bytes \<Rightarrow> (bytes \<times> int) option" where
  "aofView st c = map_option (\<lambda>e. (e_u e, e_e e)) (getEntry c (fst st))"

lemma aofView_Shorten:
  assumes "Shorten draws now url al hasAlias ttl fs s = Some (code, s', fs')" and "code \<noteq> []"
  shows "aofView (s, fs) code = None" and "aofView (s', fs') = (aofView (s, fs))(code \<mapsto> (url, expiry now ttl))"
  using Shorten_stores [OF assms] by (auto simp: aofView_def newEntry_def fun_eq_iff)

definition aofOk :: "aof_state \<Rightarrow> bool" where
  "aofOk st \<longleftrightarrow> sprefix (fst st) \<in> set ALPHABET"

lemma aofView_countHit [simp]:
  "getEntry code s = Some e \<Longrightarrow> aofView (countHit code e s, fs) = aofView (s, fs)"
  by (auto simp: aofView_def countHit_def fun_eq_iff)

lemma sprefix_countHit [simp]: "sprefix (countHit code e s) = sprefix s"
  by (simp add: countHit_def)

lemma sprefix_Shorten:
  "Shorten draws now url al hasAlias ttl fs s = Some (code, s', fs') \<Longrightarrow> sprefix s' = sprefix s"
  using flushIfLarge_keeps(3)
  by (fastforce simp: Shorten_def Let_def split: if_splits prod.splits)

lemma aof_alias_taken:
  assumes "aofView st al \<noteq> None"
  shows "apiShorten (aofAPI env) url al True ttl st = Some ([], st)"
  using assms by (cases st) (auto simp: aofAPI_def aofView_def Shorten_def)

lemma aof_alias_free:
  assumes "aofView st al = None"
  shows "\<exists>st'. apiShorten (aofAPI env) url al True ttl st = Some (al, st') \<and> sprefix (fst st') = sprefix (fst st)
             \<and> aofView st' = (aofView st)(al \<mapsto> (url, expiry (eClk env 0) ttl))"
proof -
  obtain s fs where st: "st = (s, fs)" by (cases st)
  obtain s' fs' where fl: "flushIfLarge (insertRow al url (eClk env 0) (expiry (eClk env 0) ttl) s) fs = (s', fs')"
    by fastforce
  have "getEntry al s = None" using assms st by (simp add: aofView_def)
  then have "Shorten (eDraws env) (eClk env 0) url al True ttl fs s = Some (al, s', fs')"
    using fl by (simp add: Shorten_def)
  moreover have "aofView (s', fs') = (aofView (s, fs))(al \<mapsto> (url, expiry (eClk env 0) ttl))"
    using getEntry_flushIfLarge [OF fl] by (auto simp: aofView_def newEntry_def fun_eq_iff)
  moreover have "sprefix s' = sprefix s" using flushIfLarge_keeps(3) [OF fl] by simp
  ultimately show ?thesis using st by (simp add: aofAPI_def)
qed

lemma aof_generated:
  assumes "apiShorten (aofAPI env) url al False ttl st = Some (code, st')" and "aofOk st"
  shows "length code = codeLen \<and> set code \<subseteq> set ALPHABET \<and> aofView st code = None \<and> aofOk st'
         \<and> aofView st' = (aofView st)(code \<mapsto> (url, expiry (eClk env 0) ttl))"
proof -
  obtain s fs s' fs' where st: "st = (s, fs)" "st' = (s', fs')" by (cases st, cases st')
  have sh: "Shorten (eDraws env) (eClk env 0) url al False ttl fs s = Some (code, s', fs')"
    using assms(1) st by (simp add: aofAPI_def)
  then have "freshCode s (eDraws env) = Some code" by (auto simp: Shorten_def Let_def split: prod.splits)
  then obtain d where d: "code = sprefix s # randSuffix d" using freshCode_shape by blast
  then have "length code = codeLen" "set code \<subseteq> set ALPHABET"
    using assms(2) st randSuffix_ALPHABET [of d] by (auto simp: codeLen_def aofOk_def)
  moreover have "code \<noteq> []" using d by simp
  ultimately show ?thesis
    using aofView_Shorten [OF sh] sprefix_Shorten [OF sh] assms(2) st by (simp add: aofOk_def)
qed

lemma aof_resolve_live:
  assumes "aofView st code = Some (u, e)" and "e = 0 \<or> eClk env 2 < e"
  shows "\<exists>st'. apiResolve (aofAPI env) code st = Some (Some u, st') \<and> sprefix (fst st') = sprefix (fst st)
             \<and> aofView st' = aofView st"
proof -
  obtain s fs where st: "st = (s, fs)" by (cases st)
  obtain en where en: "getEntry code s = Some en" "u = e_u en" "e = e_e en"
    using assms(1) st by (auto simp: aofView_def)
  have "\<not> expired (eClk env 2) en" using assms(2) en by (auto simp: expired_def)
  from Resolve_hit [of code s en "eClk env", OF en(1) this] en st show ?thesis
    by (auto simp: aofAPI_def)
qed

lemma aof_updated:
  assumes "apiUpdate (aofAPI env) code url ttl hasTTL st = Some (m, st')"
  shows "sprefix (fst st') = sprefix (fst st)
    \<and> (if m = MutOK then \<exists>u e. aofView st code = Some (u, e)
         \<and> aofView st' = (aofView st)(code \<mapsto> (url, if hasTTL then expiry (eClk env 0) ttl else e))
       else aofView st' = aofView st)"
  using assms
  by (cases st) (auto simp: aofAPI_def aofView_def Update_def Let_def fun_eq_iff split: option.splits if_splits prod.splits)

lemma aof_removed:
  assumes "apiRemove (aofAPI env) code st = Some (m, st')"
  shows "sprefix (fst st') = sprefix (fst st)
    \<and> (if m = MutOK then aofView st code \<noteq> None \<and> aofView st' = (aofView st)(code := None)
       else aofView st' = aofView st)"
  using assms
  by (cases st) (auto simp: aofAPI_def aofView_def Remove_def Let_def fun_eq_iff split: option.splits if_splits prod.splits)

interpretation aof_api: store_api "aofAPI env" aofView aofOk "\<lambda>_. True" "\<lambda>_. True" "\<lambda>_. True" "eClk env 0" "eClk env 2" for env
proof (unfold_locales, goal_cases)
  case (4 st al url ttl)
  then show ?case using aof_alias_taken by blast
next
  case (5 st al url ttl)
  then show ?case using aof_alias_free [of st al env url ttl] by (auto simp: aofOk_def)
next
  case (6 st url ttl al code st')
  then show ?case using aof_generated by blast
next
  case (7 st code u e)
  then show ?case using aof_resolve_live [of st code u e env] by (auto simp: aofOk_def)
next
  case (8 st code url ttl hasTTL m st')
  then show ?case using aof_updated [of env code url ttl hasTTL st m st'] by (simp add: aofOk_def)
next
  case (9 st code m st')
  then show ?case using aof_removed [of env code st m st'] by (simp add: aofOk_def)
qed simp_all

end
