(* ===== verification/RateLimit.thy ===== *)
theory RateLimit
  imports Prelude "HOL-Library.Finite_Map"
begin

unbundle bit_operations_syntax

text \<open>
  \<open>internal/ratelimit/ratelimit.go\<close>: the sharded token bucket per client address. A \<open>float64\<close> is the
  rational number it stands for (the limits come from the environment and are finite); every
  floating-point operation rounds its exact result by a function \<open>rnd\<close>, an argument of \<open>Allow\<close>. The
  clock reading is an argument. Shown: the tokens of every bucket stay between zero and the burst
  size, a disabled limiter lets everything pass, a request dearer than the burst never passes, and
  no client is served more than its burst plus its rate times the elapsed time, up to the error of rounding.
\<close>

section \<open>The limiter\<close>

record bucket =
  tokens :: rat
  lastMs :: int

record Limiter =
  lshards :: "nat \<Rightarrow> (64 word, bucket) gomap"
  rate :: rat
  burst :: rat

definition maxKeys :: nat where
  "maxKeys = 4096"

definition idleMs :: int where
  "idleMs = 60000"

fun fnv64 :: "64 word \<Rightarrow> bytes \<Rightarrow> 64 word" where
  "fnv64 h [] = h"
| "fnv64 h (c # cs) = fnv64 ((h XOR word_of_nat (of_char c)) * 0x100000001b3) cs"

definition ipKey :: "bytes \<Rightarrow> 64 word" where
  "ipKey ip = fnv64 0xcbf29ce484222325 ip"

definition keyShard :: "64 word \<Rightarrow> nat" where
  "keyShard k = unat (k AND 63)"

text \<open>\<open>New\<close> on the numbers read from \<open>RATE_LIMIT\<close> and \<open>RATE_LIMIT_BURST\<close>.\<close>

definition newLimiter :: "rat \<Rightarrow> rat \<Rightarrow> Limiter" where
  "newLimiter r b =
     (let b = (if b \<le> 0 then r else b); b = (if b < 1 then 1 else b)
      in \<lparr>lshards = (\<lambda>_. fmempty), rate = r, burst = b\<rparr>)"

text \<open>The deletion loop visits every key once and judges each by itself, so its result does not
  depend on the order.\<close>

definition dropIdle :: "int \<Rightarrow> (64 word, bucket) gomap \<Rightarrow> (64 word, bucket) gomap" where
  "dropIdle now m =
     (if maxKeys \<le> maplen m
      then fmfilter (\<lambda>k. case fmlookup m k of None \<Rightarrow> True | Some b \<Rightarrow> \<not> idleMs < i64 (now - lastMs b)) m
      else m)"

definition Allow :: "(rat \<Rightarrow> rat) \<Rightarrow> int \<Rightarrow> bytes \<Rightarrow> rat \<Rightarrow> Limiter \<Rightarrow> bool \<times> Limiter" where
  "Allow rnd now ip cost l =
     (if rate l \<le> 0 then (True, l)
      else
        let k = ipKey ip; j = keyShard k;
            m = dropIdle now (lshards l j);
            b = (case fmlookup m k of None \<Rightarrow> \<lparr>tokens = burst l, lastMs = now\<rparr> | Some b \<Rightarrow> b);
            t = rnd (tokens b + rnd (rnd (rnd (of_int (i64 (now - lastMs b))) / 1000) * rate l));
            t = (if burst l < t then burst l else t);
            ok = (cost \<le> t);
            t = (if ok then rnd (t - cost) else t)
        in (ok, l\<lparr>lshards := (lshards l)(j := fmupd k \<lparr>tokens = t, lastMs = now\<rparr> m)\<rparr>))"

section \<open>Buckets stay within bounds\<close>

definition bucketOf :: "64 word \<Rightarrow> Limiter \<Rightarrow> bucket option" where
  "bucketOf k l = fmlookup (lshards l (keyShard k)) k"

definition limiter_ok :: "Limiter \<Rightarrow> bool" where
  "limiter_ok l \<longleftrightarrow>
     1 \<le> burst l
     \<and> (\<forall>j k b. fmlookup (lshards l j) k = Some b \<longrightarrow> 0 \<le> tokens b \<and> tokens b \<le> burst l)"

text \<open>What rounding to the nearest float gives: it is monotone, keeps zero, and keeps the burst size,
  which is a float.\<close>

definition rounding :: "(rat \<Rightarrow> rat) \<Rightarrow> Limiter \<Rightarrow> bool" where
  "rounding rnd l \<longleftrightarrow> mono rnd \<and> rnd 0 = 0 \<and> rnd (burst l) = burst l"

lemma rounding_nonneg: "rounding rnd l \<Longrightarrow> 0 \<le> x \<Longrightarrow> 0 \<le> rnd x"
  by (metis rounding_def monoD)

lemma rounding_le_burst: "rounding rnd l \<Longrightarrow> x \<le> burst l \<Longrightarrow> rnd x \<le> burst l"
  by (metis rounding_def monoD)

lemma fmlookup_dropIdle:
  "fmlookup (dropIdle now m) k = Some b \<Longrightarrow> fmlookup m k = Some b"
  by (auto simp: dropIdle_def split: if_splits)

lemma Allow_params [simp]: "rate (snd (Allow rnd now ip cost l)) = rate l" "burst (snd (Allow rnd now ip cost l)) = burst l"
  by (simp_all add: Allow_def Let_def)

lemma limiter_ok_store:
  "limiter_ok l \<Longrightarrow> 0 \<le> t \<Longrightarrow> t \<le> burst l
   \<Longrightarrow> limiter_ok (l\<lparr>lshards := (lshards l)(j := fmupd k \<lparr>tokens = t, lastMs = n\<rparr> (dropIdle now (lshards l j)))\<rparr>)"
  by (auto simp: limiter_ok_def dest!: fmlookup_dropIdle split: if_splits)

lemma newLimiter_ok: "limiter_ok (newLimiter r b)"
  by (simp add: limiter_ok_def newLimiter_def Let_def)

text \<open>The clock shows a time after 1970 that fits 64 bits and is not behind any bucket.\<close>

definition clock_ok :: "int \<Rightarrow> Limiter \<Rightarrow> bool" where
  "clock_ok now l \<longleftrightarrow>
     0 \<le> now \<and> in_i64 now
     \<and> (\<forall>j k b. fmlookup (lshards l j) k = Some b \<longrightarrow> 0 \<le> lastMs b \<and> lastMs b \<le> now)"

lemma clock_elapsed:
  "clock_ok now l \<Longrightarrow> fmlookup (lshards l j) k = Some b \<Longrightarrow> i64 (now - lastMs b) = now - lastMs b"
  by (rule i64_id) (force simp: clock_ok_def in_i64_def)

lemma Allow_keeps_bounds_aux:
  assumes "limiter_ok l" and "rounding rnd l" and "clock_ok now l" and "0 \<le> cost"
  shows "limiter_ok (snd (Allow rnd now ip cost l))"
proof (cases "rate l \<le> 0")
  case True
  then show ?thesis using assms(1) by (simp add: Allow_def)
next
  case False
  let ?k = "ipKey ip"
  let ?m = "dropIdle now (lshards l (keyShard ?k))"
  define b where "b = (case fmlookup ?m ?k of None \<Rightarrow> \<lparr>tokens = burst l, lastMs = now\<rparr> | Some b \<Rightarrow> b)"
  define t where "t = rnd (tokens b + rnd (rnd (rnd (of_int (i64 (now - lastMs b))) / 1000) * rate l))"
  define t1 where "t1 = (if burst l < t then burst l else t)"
  have b: "0 \<le> tokens b" "0 \<le> i64 (now - lastMs b)"
    using assms(1,3) fmlookup_dropIdle [of now "lshards l (keyShard ?k)" ?k] clock_elapsed [OF assms(3)]
    by (auto simp: b_def limiter_ok_def clock_ok_def i64_id in_i64_def split: option.split)
  have "0 \<le> rnd (rnd (rnd (of_int (i64 (now - lastMs b))) / 1000) * rate l)"
    using False b(2) by (intro rounding_nonneg [OF assms(2)] mult_nonneg_nonneg divide_nonneg_nonneg) auto
  then have "0 \<le> t" unfolding t_def using b(1) by (intro rounding_nonneg [OF assms(2)]) simp
  then have t1: "0 \<le> t1" "t1 \<le> burst l" using assms(1) by (auto simp: t1_def limiter_ok_def)
  have "0 \<le> (if cost \<le> t1 then rnd (t1 - cost) else t1)"
    "(if cost \<le> t1 then rnd (t1 - cost) else t1) \<le> burst l"
    using t1 assms(4) by (auto intro: rounding_nonneg [OF assms(2)] rounding_le_burst [OF assms(2)])
  note ok = limiter_ok_store [OF assms(1) this, of "keyShard ?k" ?k now now]
  have "snd (Allow rnd now ip cost l) = l\<lparr>lshards := (lshards l)(keyShard ?k :=
      fmupd ?k \<lparr>tokens = (if cost \<le> t1 then rnd (t1 - cost) else t1), lastMs = now\<rparr> ?m)\<rparr>"
    using False by (simp add: Allow_def Let_def b_def t_def t1_def)
  then show ?thesis using ok by (simp only:)
qed

text \<open>Whatever the rounding, the requests and their costs: the tokens of every bucket stay between
  zero and the burst size, as long as the clock does not run backwards.\<close>

theorem Allow_keeps_bounds:
  assumes "limiter_ok l" and "rounding rnd l" and "clock_ok now l" and "0 \<le> cost"
  shows "limiter_ok (snd (Allow rnd now ip cost l))"
  using assms by (rule Allow_keeps_bounds_aux)

theorem Allow_keeps_bounds_witness:
  "limiter_ok (snd (Allow (\<lambda>x. x) 1000 ''10.0.0.1'' 2 (newLimiter 1 3)))"
  by (rule Allow_keeps_bounds [OF newLimiter_ok])
     (simp_all add: rounding_def clock_ok_def newLimiter_def mono_def in_i64_def)

text \<open>A limiter with a rate of zero or less lets every request pass and records nothing; an enabled
  one never serves a request dearer than the burst size, and serves the first request of an unknown
  client that the burst covers.\<close>

theorem Allow_decisions:
  assumes "rounding rnd l"
  shows "(rate l \<le> 0 \<longrightarrow> Allow rnd now ip cost l = (True, l))
         \<and> (0 < rate l \<longrightarrow> burst l < cost \<longrightarrow> fst (Allow rnd now ip cost l) = False)
         \<and> (0 < rate l \<longrightarrow> bucketOf (ipKey ip) l = None \<longrightarrow> cost \<le> burst l
             \<longrightarrow> fst (Allow rnd now ip cost l) = True)"
proof -
  have z: "i64 0 = 0" by (simp add: i64_id in_i64_def)
  have n: "fmlookup (dropIdle now m) k = None" if "fmlookup m k = None" for m k
    using that fmlookup_dropIdle [of now m k] by (cases "fmlookup (dropIdle now m) k") auto
  have r: "rnd 0 = 0" "rnd (burst l) = burst l" using assms by (simp_all add: rounding_def)
  show ?thesis by (auto simp: Allow_def Let_def bucketOf_def z n r split: option.split)
qed

theorem Allow_decisions_witness:
  "fst (Allow (\<lambda>x. x) 1000 ''10.0.0.1'' 2 (newLimiter 1 3)) = True
   \<and> fst (Allow (\<lambda>x. x) 1000 ''10.0.0.1'' 4 (newLimiter 1 3)) = False"
  using Allow_decisions [of "\<lambda>x. x" "newLimiter 1 3" 1000 "''10.0.0.1''" 2]
    Allow_decisions [of "\<lambda>x. x" "newLimiter 1 3" 1000 "''10.0.0.1''" 4]
  by (simp add: rounding_def newLimiter_def mono_def bucketOf_def)

section \<open>The rate is respected\<close>

text \<open>
  The error of a rounding function, relative to the number and to a threshold far above the smallest
  floats: \<open>eps\<close> is \<open>2^-53\<close> for \<open>float64\<close>, subnormal results included, and zero for exact arithmetic. (A result that overflows is
  above every burst size and is clipped like any number above it.)
\<close>

definition tiny :: rat where
  "tiny = 1 / 2 ^ 1000"

lemma tiny_bounds: "0 \<le> tiny" "tiny \<le> 1 / 1000"
  by (simp_all add: tiny_def)

definition roundsTo :: "rat \<Rightarrow> (rat \<Rightarrow> rat) \<Rightarrow> Limiter \<Rightarrow> bool" where
  "roundsTo eps rnd l \<longleftrightarrow>
     rounding rnd l \<and> 0 \<le> eps \<and> eps \<le> 1 / 2 ^ 53 \<and> (\<forall>x. \<bar>rnd x - x\<bar> \<le> eps * (\<bar>x\<bar> + tiny))"

lemma rounds_upper:
  assumes "roundsTo eps rnd l" and "0 \<le> x"
  shows "rnd x \<le> x + eps * x + eps * tiny"
proof -
  have "\<bar>rnd x - x\<bar> \<le> eps * (\<bar>x\<bar> + tiny)" using assms(1) by (simp only: roundsTo_def)
  then have "rnd x - x \<le> eps * (x + tiny)" using assms(2) by (simp only: abs_of_nonneg abs_le_iff)
  then show ?thesis by (simp add: distrib_left)
qed

text \<open>A product with a rounded factor: errors of at most \<open>a\<close> and one more rounding.\<close>

lemma rounds_scaled:
  assumes "roundsTo eps rnd l" and "0 \<le> x" and "x \<le> y * (1 + a * eps)" and "0 \<le> y" and "0 \<le> a" and "a \<le> 10"
  shows "rnd x \<le> y * (1 + (a + 2) * eps) + eps * tiny"
proof -
  have e: "0 \<le> eps" "eps \<le> 1 / 2 ^ 53" using assms(1) by (simp_all add: roundsTo_def)
  have "a * (eps * eps) \<le> 10 * (eps * (1 / 2 ^ 53))" using assms(5,6) e by (intro mult_mono) auto
  then have "a * (eps * eps) \<le> eps" using e(1) by simp
  then have m: "(1 + a * eps) * (1 + eps) \<le> 1 + (a + 2) * eps" by (simp add: algebra_simps)
  have "rnd x \<le> x * (1 + eps) + eps * tiny" using rounds_upper [OF assms(1,2)] by (simp add: algebra_simps)
  also have "x * (1 + eps) \<le> y * (1 + a * eps) * (1 + eps)" using assms(3) e(1) by (intro mult_right_mono) simp_all
  also have "\<dots> \<le> y * (1 + (a + 2) * eps)" using m assms(4) by (simp add: mult.assoc mult_left_mono)
  finally show ?thesis by simp
qed

text \<open>The tokens that accrue in a number of milliseconds.\<close>

definition accrued :: "(rat \<Rightarrow> rat) \<Rightarrow> Limiter \<Rightarrow> int \<Rightarrow> rat" where
  "accrued rnd l ms = rnd (rnd (rnd (of_int ms) / 1000) * rate l)"

lemma accrued_bound:
  assumes "roundsTo eps rnd l" and "0 \<le> ms" and "0 < rate l"
  shows "accrued rnd l ms \<le> of_int ms / 1000 * rate l * (1 + 8 * eps) + eps * tiny" and "0 \<le> accrued rnd l ms"
proof -
  have r: "rounding rnd l" and e: "0 \<le> eps" using assms(1) by (simp_all add: roundsTo_def)
  let ?d = "of_int ms :: rat" and ?a1 = "rnd (of_int ms)" and ?a2 = "rnd (rnd (of_int ms) / 1000)"
  have n: "0 \<le> ?a1" "0 \<le> ?a2" using assms(2) by (auto intro!: rounding_nonneg [OF r] divide_nonneg_nonneg)
  then show "0 \<le> accrued rnd l ms" unfolding accrued_def using assms(3) by (intro rounding_nonneg [OF r]) simp
  show "accrued rnd l ms \<le> ?d / 1000 * rate l * (1 + 8 * eps) + eps * tiny"
  proof (cases "ms = 0")
    case True
    then show ?thesis using r e tiny_bounds(1) by (simp add: accrued_def rounding_def)
  next
    case False
    then have d: "1 \<le> ?d" using assms(2) by simp
    have small: "eps * tiny \<le> ?d / 1000 * eps"
    proof -
      have "tiny \<le> ?d / 1000" using tiny_bounds(2) d by linarith
      from mult_right_mono [OF this e] show ?thesis by (simp add: mult.commute)
    qed
    have small': "eps * tiny \<le> ?d * eps"
    proof -
      have "tiny \<le> ?d" using tiny_bounds(2) d by linarith
      from mult_right_mono [OF this e] show ?thesis by (simp add: mult.commute)
    qed
    have absorb: "a \<le> D * (1 + 6 * eps)" if "a \<le> D * (1 + (3 + 2) * eps) + c" "c \<le> D * eps" for a D c :: rat
      using that by (simp add: algebra_simps)
    have "?a1 \<le> ?d * (1 + (0 + 2) * eps) + eps * tiny"
      by (rule rounds_scaled [OF assms(1)]) (use d in simp_all)
    then have "?a1 \<le> ?d * (1 + 3 * eps)" using small' by (simp add: algebra_simps)
    then have "?a1 / 1000 \<le> ?d / 1000 * (1 + 3 * eps)" by simp
    then have "?a2 \<le> ?d / 1000 * (1 + (3 + 2) * eps) + eps * tiny"
      by (intro rounds_scaled [OF assms(1)]) (use d n in simp_all)
    then have "?a2 \<le> ?d / 1000 * (1 + 6 * eps)" by (rule absorb [OF _ small])
    then have "?a2 * rate l \<le> ?d / 1000 * (1 + 6 * eps) * rate l" using assms(3) by (intro mult_right_mono) simp_all
    then have "?a2 * rate l \<le> ?d / 1000 * rate l * (1 + 6 * eps)" by (simp add: mult_ac)
    then have "rnd (?a2 * rate l) \<le> ?d / 1000 * rate l * (1 + (6 + 2) * eps) + eps * tiny"
      by (intro rounds_scaled [OF assms(1)]) (use d n assms(3) in simp_all)
    then show ?thesis by (simp add: accrued_def)
  qed
qed

text \<open>The tokens a client would find at a given time, if they accrued at the rate with the error of rounding.\<close>

definition levelOf :: "rat \<Rightarrow> Limiter \<Rightarrow> int \<Rightarrow> bucket option \<Rightarrow> rat" where
  "levelOf eps l now bo =
     (case bo of
        None \<Rightarrow> burst l
      | Some b \<Rightarrow> min (burst l) (tokens b + of_int (now - lastMs b) / 1000 * rate l * (1 + 8 * eps)))"

definition level :: "rat \<Rightarrow> 64 word \<Rightarrow> int \<Rightarrow> Limiter \<Rightarrow> rat" where
  "level eps k now l = levelOf eps l now (bucketOf k l)"

text \<open>An evicted bucket was full again, if the burst refills within the idle time.\<close>

lemma level_dropIdle:
  assumes "limiter_ok l" and "clock_ok now l" and "0 < rate l" and "burst l \<le> 60 * rate l" and "0 \<le> eps"
  shows "levelOf eps l now (fmlookup (dropIdle now (lshards l j)) k) = levelOf eps l now (fmlookup (lshards l j) k)"
proof (cases "fmlookup (dropIdle now (lshards l j)) k = fmlookup (lshards l j) k")
  case False
  then obtain b where b: "fmlookup (lshards l j) k = Some b" "fmlookup (dropIdle now (lshards l j)) k = None"
    "idleMs < i64 (now - lastMs b)"
    by (auto simp: dropIdle_def split: if_splits option.splits)
  let ?d = "of_int (now - lastMs b) / 1000 :: rat"
  have "60000 < now - lastMs b" using b clock_elapsed [OF assms(2) b(1)] by (simp add: idleMs_def)
  then have "60 \<le> ?d" by simp
  then have "60 * rate l \<le> ?d * rate l" using assms(3) by (intro mult_right_mono) simp_all
  also have "\<dots> \<le> ?d * rate l * (1 + 8 * eps)"
    using assms(3,5) \<open>60 \<le> ?d\<close> mult_left_mono [of 1 "1 + 8 * eps" "?d * rate l"] by simp
  finally have "60 * rate l \<le> ?d * rate l * (1 + 8 * eps)" .
  moreover have "0 \<le> tokens b" using assms(1) b(1) by (auto simp: limiter_ok_def)
  ultimately show ?thesis using b assms(4) by (simp add: levelOf_def)
qed simp

lemma levelOf_params: "rate l' = rate l \<Longrightarrow> burst l' = burst l \<Longrightarrow> levelOf eps l' = levelOf eps l"
  by (simp add: levelOf_def fun_eq_iff split: option.split)

text \<open>One bucket: refilled, clipped, and charged.\<close>

lemma bucket_step:
  assumes "roundsTo eps rnd l" and "1 \<le> burst l" and "0 \<le> x" and "x \<le> y + eps * tiny" and "0 \<le> cost"
  defines "t \<equiv> (if burst l < rnd x then burst l else rnd x)"
  shows "t \<le> min (burst l) y + 2 * eps * burst l"
    and "cost \<le> t \<Longrightarrow> rnd (t - cost) \<le> min (burst l) y - cost + 4 * eps * burst l"
proof -
  have r: "rounding rnd l" and e: "0 \<le> eps" using assms(1) by (simp_all add: roundsTo_def)
  have "2 * tiny \<le> burst l" using assms(2) tiny_bounds(2) by linarith
  from mult_left_mono [OF this e] have h: "2 * (eps * tiny) \<le> eps * burst l" by (simp add: mult.left_commute)
  have h0: "0 \<le> eps * tiny" "0 \<le> eps * burst l" using e assms(2) tiny_bounds(1) by simp_all
  show t: "t \<le> min (burst l) y + 2 * eps * burst l"
  proof (cases "x \<le> burst l")
    case True
    have "rnd x \<le> x + eps * x + eps * tiny" by (rule rounds_upper [OF assms(1,3)])
    moreover have "eps * x \<le> eps * burst l" using True e by (intro mult_left_mono)
    ultimately have "rnd x \<le> y + 2 * eps * burst l" using assms(4) h by simp
    then show ?thesis using h0 unfolding t_def by (simp add: min_def)
  next
    case False
    then have "burst l \<le> y + eps * tiny" using assms(4) by simp
    then have "burst l \<le> y + 2 * eps * burst l" using h h0 by simp
    then show ?thesis using h0 unfolding t_def by (simp add: min_def)
  qed
  assume c: "cost \<le> t"
  have "t \<le> burst l" by (simp add: t_def)
  then have "eps * (t - cost) \<le> eps * burst l" using assms(5) e by (intro mult_left_mono) simp_all
  moreover have "rnd (t - cost) \<le> (t - cost) + eps * (t - cost) + eps * tiny" using c by (intro rounds_upper [OF assms(1)]) simp
  ultimately show "rnd (t - cost) \<le> min (burst l) y - cost + 4 * eps * burst l" using t h h0 by simp
qed

lemma Allow_level:
  assumes "roundsTo eps rnd l" and "limiter_ok l" and "clock_ok now l" and "0 < rate l" and "burst l \<le> 60 * rate l" and "0 \<le> cost"
    and "Allow rnd now ip cost l = (ok, l')"
  shows "level eps k now l' \<le> level eps k now l - (if ok \<and> ipKey ip = k then cost else 0) + (if ipKey ip = k then 4 * eps * burst l else 0)"
proof -
  let ?k = "ipKey ip" and ?j = "keyShard (ipKey ip)"
  let ?m = "dropIdle now (lshards l ?j)"
  have e: "0 \<le> eps" using assms(1) by (simp add: roundsTo_def)
  define b where "b = (case fmlookup ?m ?k of None \<Rightarrow> \<lparr>tokens = burst l, lastMs = now\<rparr> | Some b \<Rightarrow> b)"
  define y where "y = tokens b + of_int (now - lastMs b) / 1000 * rate l * (1 + 8 * eps)"
  define x where "x = tokens b + accrued rnd l (now - lastMs b)"
  define t where "t = (if burst l < rnd x then burst l else rnd x)"
  have z: "i64 (now - now) = 0" by (simp add: i64_id in_i64_def)
  have old: "i64 (now - lastMs b) = now - lastMs b \<and> 0 \<le> tokens b \<and> lastMs b \<le> now" if "fmlookup ?m ?k = Some b" for b
    using clock_elapsed [OF assms(3) fmlookup_dropIdle [OF that]] fmlookup_dropIdle [OF that] assms(2,3)
    by (auto simp: limiter_ok_def clock_ok_def)
  have b: "i64 (now - lastMs b) = now - lastMs b" "0 \<le> tokens b" "lastMs b \<le> now" "1 \<le> burst l"
    using old z assms(2) by (auto simp: b_def limiter_ok_def split: option.split)
  have lev: "levelOf eps l now (fmlookup (lshards l ?j) ?k) = min (burst l) y"
    unfolding level_dropIdle [OF assms(2-5) e, symmetric] by (cases "fmlookup ?m ?k") (simp_all add: levelOf_def y_def b_def)
  have a: "0 \<le> x" "x \<le> y + eps * tiny"
    using accrued_bound [OF assms(1) _ assms(4), of "now - lastMs b"] b by (simp_all add: x_def y_def)
  note step = bucket_step [OF assms(1) b(4) a assms(6), folded t_def]
  have "Allow rnd now ip cost l = (cost \<le> t, l\<lparr>lshards := (lshards l)(?j :=
      fmupd ?k \<lparr>tokens = (if cost \<le> t then rnd (t - cost) else t), lastMs = now\<rparr> ?m)\<rparr>)"
    using assms(4) b(1) by (simp add: Allow_def Let_def b_def [symmetric] t_def x_def accrued_def)
  then have res: "ok = (cost \<le> t)"
    "l' = l\<lparr>lshards := (lshards l)(?j := fmupd ?k \<lparr>tokens = (if ok then rnd (t - cost) else t), lastMs = now\<rparr> ?m)\<rparr>"
    using assms(7) by simp_all
  have par: "levelOf eps l' = levelOf eps l" by (rule levelOf_params) (simp_all add: res(2))
  show ?thesis
  proof (cases "k = ?k")
    case True
    have "0 \<le> eps * burst l" using e b(4) by simp
    then have "(if ok then rnd (t - cost) else t) \<le> min (burst l) y - (if ok then cost else 0) + 4 * eps * burst l"
      using step res(1) by simp
    then have "levelOf eps l now (Some \<lparr>tokens = (if ok then rnd (t - cost) else t), lastMs = now\<rparr>)
        \<le> min (burst l) y - (if ok then cost else 0) + 4 * eps * burst l"
      unfolding levelOf_def by (simp add: min.coboundedI2)
    then show ?thesis using True par lev by (simp add: level_def bucketOf_def res(2))
  next
    case False
    then have "levelOf eps l now (bucketOf k l') = levelOf eps l now (bucketOf k l)"
      using level_dropIdle [OF assms(2-5) e, of ?j k] by (simp add: bucketOf_def res(2))
    then show ?thesis using False par by (auto simp: level_def)
  qed
qed

lemma level_grows:
  assumes "now \<le> now'" and "0 < rate l" and "0 \<le> eps"
  shows "level eps k now' l \<le> level eps k now l + of_int (now' - now) / 1000 * rate l * (1 + 8 * eps)"
proof -
  let ?f = "\<lambda>d. of_int d / 1000 * rate l * (1 + 8 * eps)"
  have g: "0 \<le> ?f (now' - now)" using assms by simp
  have f: "?f (now' - n) = ?f (now - n) + ?f (now' - now)" for n
    by (simp add: algebra_simps add_divide_distrib diff_divide_distrib)
  have m: "min (burst l) (x + (a + c)) \<le> min (burst l) (x + a) + c" if "0 \<le> c" for x a c :: rat
    using that by (simp add: min_def)
  show ?thesis
  proof (cases "bucketOf k l")
    case None
    then show ?thesis using g by (simp add: level_def levelOf_def)
  next
    case (Some b)
    have "min (burst l) (tokens b + ?f (now' - lastMs b)) \<le> min (burst l) (tokens b + ?f (now - lastMs b)) + ?f (now' - now)"
      unfolding f [of "lastMs b"] by (rule m [OF g])
    then show ?thesis unfolding level_def levelOf_def Some option.case .
  qed
qed

lemma level_nonneg: "limiter_ok l \<Longrightarrow> clock_ok now l \<Longrightarrow> 0 < rate l \<Longrightarrow> 0 \<le> eps \<Longrightarrow> 0 \<le> level eps k now l"
  by (auto simp: level_def levelOf_def limiter_ok_def clock_ok_def bucketOf_def split: option.split)

lemma clock_ok_Allow:
  assumes "clock_ok now l" and "now \<le> now'" and "in_i64 now'"
  shows "clock_ok now' (snd (Allow rnd now ip cost l))"
proof -
  have d: "0 \<le> lastMs b \<and> lastMs b \<le> now'" if "fmlookup (dropIdle now (lshards l j)) k = Some b" for j k b
    using fmlookup_dropIdle [OF that] assms(1,2) by (force simp: clock_ok_def)
  show ?thesis using assms d by (fastforce simp: Allow_def Let_def clock_ok_def split: if_splits)
qed

text \<open>The tokens a client obtained from a sequence of requests by any clients, and how many of the requests were its
  own.\<close>

fun served :: "(rat \<Rightarrow> rat) \<Rightarrow> (int \<times> bytes \<times> rat) list \<Rightarrow> 64 word \<Rightarrow> Limiter \<Rightarrow> rat" where
  "served rnd [] k l = 0"
| "served rnd ((now, ip, cost) # rs) k l =
     (let (ok, l') = Allow rnd now ip cost l
      in (if ok \<and> ipKey ip = k then cost else 0) + served rnd rs k l')"

definition requestsOf :: "64 word \<Rightarrow> (int \<times> bytes \<times> rat) list \<Rightarrow> nat" where
  "requestsOf k rs = length (filter (\<lambda>(now, ip, cost). ipKey ip = k) rs)"

lemma served_bound:
  assumes "roundsTo eps rnd l" and "limiter_ok l" and "clock_ok t0 l" and "0 < rate l" and "burst l \<le> 60 * rate l"
    and "sorted (t0 # map fst rs @ [t1])" and "in_i64 t1" and "\<And>n ip c. (n, ip, c) \<in> set rs \<Longrightarrow> 0 \<le> c"
  shows "served rnd rs k l \<le> level eps k t0 l + of_int (t1 - t0) / 1000 * rate l * (1 + 8 * eps) + of_nat (requestsOf k rs) * (4 * eps * burst l)"
  using assms
proof (induction rs arbitrary: t0 l)
  case Nil
  have e: "0 \<le> eps" using Nil.prems(1) by (simp add: roundsTo_def)
  then have "0 \<le> of_int (t1 - t0) / 1000 * rate l * (1 + 8 * eps)" using Nil.prems by simp
  with level_nonneg [OF Nil.prems(2-4) e, of k] show ?case by (simp add: requestsOf_def)
next
  case (Cons r rs)
  obtain now ip cost where r: "r = (now, ip, cost)" by (cases r)
  obtain ok l' where a: "Allow rnd now ip cost l = (ok, l')" by fastforce
  have l': "l' = snd (Allow rnd now ip cost l)" using a by simp
  have t: "t0 \<le> now" "now \<le> t1" "sorted (now # map fst rs @ [t1])" "in_i64 now" "0 \<le> cost"
    using Cons.prems(3,6,7,8) r by (auto simp: in_i64_def clock_ok_def)
  have c: "clock_ok now l" using Cons.prems(3) t(1,4) by (force simp: clock_ok_def)
  have rd: "rounding rnd l" and e: "0 \<le> eps" using Cons.prems(1) by (simp_all add: roundsTo_def)
  have l'_ok: "limiter_ok l'" unfolding l' by (rule Allow_keeps_bounds_aux [OF Cons.prems(2) rd c t(5)])
  have par: "rate l' = rate l" "burst l' = burst l" by (simp_all add: l')
  have rd': "roundsTo eps rnd l'" using Cons.prems(1) par by (simp add: roundsTo_def rounding_def)
  let ?R = "rate l * (1 + 8 * eps)" and ?n = "of_nat (requestsOf k rs) * (4 * eps * burst l)"
  have "served rnd rs k l' \<le> level eps k now l' + of_int (t1 - now) / 1000 * rate l' * (1 + 8 * eps) + of_nat (requestsOf k rs) * (4 * eps * burst l')"
  proof (rule Cons.IH [OF rd' l'_ok])
    show "clock_ok now l'" unfolding l' by (rule clock_ok_Allow [OF c order_refl t(4)])
    show "0 \<le> c" if "(n, ip, c) \<in> set rs" for n ip c using Cons.prems(8) [of n ip c] that by simp
  qed (use Cons.prems(4,5,7) t(3) par in simp_all)
  then have 1: "served rnd rs k l' \<le> level eps k now l' + of_int (t1 - now) / 1000 * ?R + ?n" by (simp add: par mult.assoc)
  have 2: "level eps k now l' \<le> level eps k now l - (if ok \<and> ipKey ip = k then cost else 0) + (if ipKey ip = k then 4 * eps * burst l else 0)"
    by (rule Allow_level [OF Cons.prems(1,2) c Cons.prems(4,5) t(5) a])
  have 3: "level eps k now l \<le> level eps k t0 l + of_int (now - t0) / 1000 * ?R"
    using level_grows [OF t(1) Cons.prems(4) e, of k] by (simp add: mult.assoc)
  have 4: "of_int (t1 - t0) / 1000 * ?R = of_int (now - t0) / 1000 * ?R + of_int (t1 - now) / 1000 * ?R"
    by (simp add: algebra_simps add_divide_distrib diff_divide_distrib)
  have 5: "of_nat (requestsOf k (r # rs)) * (4 * eps * burst l) = ?n + (if ipKey ip = k then 4 * eps * burst l else 0)"
    using r by (simp add: requestsOf_def algebra_simps)
  have "served rnd (r # rs) k l = (if ok \<and> ipKey ip = k then cost else 0) + served rnd rs k l'"
    using r a by simp
  then have "served rnd (r # rs) k l \<le> level eps k t0 l + of_int (t1 - t0) / 1000 * ?R + of_nat (requestsOf k (r # rs)) * (4 * eps * burst l)"
    unfolding 4 5 using 1 2 3 by linarith
  then show ?case by (simp add: mult.assoc)
qed

text \<open>C27. The rate limit holds in floating-point arithmetic: whatever requests any clients send in the meantime, also when
  buckets are evicted, the requests of one client that pass in an interval cost at most the burst size plus the rate times
  the length of the interval, up to the error of rounding (\<open>eps\<close> is \<open>2^-53\<close> for \<open>float64\<close>): a relative error of \<open>8 eps\<close> in the
  rate, and \<open>4 eps\<close> of the burst for each of its requests. This needs a clock that does not run backwards, and a burst
  that refills within the idle time of a minute; a rate below one sixtieth per second does not meet that with
  the default burst of one, and there an eviction refills the bucket early.\<close>

theorem rate_respected:
  assumes "roundsTo eps rnd l" and "limiter_ok l" and "clock_ok t0 l" and "0 < rate l" and "burst l \<le> 60 * rate l"
    and "sorted (t0 # map fst rs @ [t1])" and "in_i64 t1" and "\<forall>(n, ip, c) \<in> set rs. 0 \<le> c"
  shows "served rnd rs k l
         \<le> burst l + of_int (t1 - t0) / 1000 * rate l * (1 + 8 * eps) + of_nat (requestsOf k rs) * (4 * eps * burst l)"
proof -
  have "level eps k t0 l \<le> burst l" by (simp add: level_def levelOf_def split: option.split)
  moreover have "served rnd rs k l
      \<le> level eps k t0 l + of_int (t1 - t0) / 1000 * rate l * (1 + 8 * eps) + of_nat (requestsOf k rs) * (4 * eps * burst l)"
    by (rule served_bound) (use assms in auto)
  ultimately show ?thesis by simp
qed

text \<open>Rounding to the nearest multiple of the smallest float.\<close>

definition roundSmallest :: "rat \<Rightarrow> rat" where
  "roundSmallest x = of_int (round (x * 2 ^ 1074)) / 2 ^ 1074"

lemma round_scaled_error:
  fixes x c :: rat
  assumes "0 < c"
  shows "\<bar>of_int (round (x * c)) / c - x\<bar> \<le> 1 / (2 * c)"
proof -
  have "of_int (round (x * c)) / c - x = (of_int (round (x * c)) - x * c) / c" using assms by (simp add: diff_divide_distrib)
  moreover have "\<bar>of_int (round (x * c)) - x * c\<bar> / c \<le> (1 / 2) / c"
    using assms by (intro divide_right_mono of_int_round_abs_le) simp_all
  ultimately show ?thesis using assms by simp
qed

lemma round_scaled_whole: "0 < n \<Longrightarrow> of_int (round (2 * (of_nat n :: rat))) / of_nat n = (2 :: rat)"
proof -
  assume n: "0 < n"
  have "round (2 * (of_nat n :: rat)) = 2 * int n" using round_of_int [of "2 * int n"] by simp
  then show ?thesis using n by simp
qed

lemma roundSmallest_rounds: "roundsTo (1 / 2 ^ 53) roundSmallest (newLimiter 1 2)"
proof -
  have "\<bar>roundSmallest x - x\<bar> \<le> 1 / 2 ^ 53 * (\<bar>x\<bar> + tiny)" for x
  proof -
    have "\<bar>roundSmallest x - x\<bar> \<le> 1 / (2 * 2 ^ 1074)"
      unfolding roundSmallest_def by (rule round_scaled_error) simp
    also have "(1 :: rat) / (2 * 2 ^ 1074) \<le> 1 / 2 ^ 53 * tiny" by (simp add: tiny_def)
    also have "\<dots> \<le> 1 / 2 ^ 53 * (\<bar>x\<bar> + tiny)" by (intro mult_left_mono) simp_all
    finally show ?thesis .
  qed
  moreover have "mono roundSmallest"
    unfolding mono_def roundSmallest_def by (auto intro!: divide_right_mono round_mono mult_right_mono)
  moreover have "roundSmallest 0 = 0" by (simp add: roundSmallest_def)
  moreover have "roundSmallest 2 = 2"
    using round_scaled_whole [of "2 ^ 1074"] unfolding roundSmallest_def of_nat_power of_nat_numeral by simp
  ultimately show ?thesis by (simp add: roundsTo_def rounding_def newLimiter_def)
qed

theorem rate_respected_witness:
  "served roundSmallest [(0, ''10.0.0.1'', 1), (0, ''10.0.0.2'', 1), (500, ''10.0.0.1'', 1)] (ipKey ''10.0.0.1'') (newLimiter 1 2)
     \<le> 2 + 1 / 2 * (1 + 8 / 2 ^ 53) + of_nat (requestsOf (ipKey ''10.0.0.1'') [(0, ''10.0.0.1'', 1), (0, ''10.0.0.2'', 1), (500, ''10.0.0.1'', 1)]) * (8 / 2 ^ 53)"
  using rate_respected [OF roundSmallest_rounds newLimiter_ok, of 0 "[(0, ''10.0.0.1'', 1), (0, ''10.0.0.2'', 1), (500, ''10.0.0.1'', 1)]"
      500 "ipKey ''10.0.0.1''"]
  by (simp add: newLimiter_def clock_ok_def in_i64_def)

end
