(* ===== verification/App.thy ===== *)
theory App
  imports Api RateLimit Metrics
begin

text \<open>
  \<open>internal/app/app.go\<close>: the transport-independent request handler. \<open>route\<close> maps a request to a reply
  and a new state of store, limiter and counters, over any engine that implements \<open>API\<close>. JSON
  decoding and encoding (the sonic package), the parsers of \<open>net/url\<close>, the conversion of a \<open>float64\<close> to
  an \<open>int64\<close>, the settings read from the environment and the clock are fields of an environment
  record. A JSON number is the rational it denotes. \<open>None\<close> is a panic of the handler.
\<close>

record Reply =
  Status1 :: int
  Location :: bytes
  Body :: bytes
  CType :: bytes

record shortenReq =
  rqURL :: "bytes option"
  rqAlias :: "bytes option"
  rqTTLMS :: "rat option"

record patchReq =
  pqURL :: "bytes option"
  pqTTLMS :: "rat option"

record app_env =
  unmarshalShorten :: "bytes \<Rightarrow> shortenReq option"
  unmarshalBulk :: "bytes \<Rightarrow> bytes list option"
  unmarshalPatch :: "bytes \<Rightarrow> patchReq option"
  marshalLinks :: "Link list \<Rightarrow> int \<Rightarrow> bytes"
  marshalLink :: "Link \<Rightarrow> bytes"
  urlParse :: "bytes \<Rightarrow> (bytes \<times> bytes) option"
  queryGet :: "bytes \<Rightarrow> bytes \<Rightarrow> bytes"
  f64int :: "rat \<Rightarrow> int"
  roundF :: "rat \<Rightarrow> rat"
  ADMIN_TOKEN :: bytes
  LinkTTLMS :: int
  uiBytes :: "bytes option"
  nowMs :: int

record 's app =
  appStore :: 's
  appLimiter :: Limiter
  appLimited :: int
  appMetrics :: Metrics

definition MaxBody :: nat where
  "MaxBody = 4096"

definition MaxBulkBody :: nat where
  "MaxBulkBody = 1048576"

definition MaxBulkURLs :: nat where
  "MaxBulkURLs = 10000"

definition MaxListLimit :: int where
  "MaxListLimit = 1000"

section \<open>Validation\<close>

definition adminOk :: "app_env \<Rightarrow> bytes \<Rightarrow> bool" where
  "adminOk env token \<longleftrightarrow> ADMIN_TOKEN env \<noteq> [] \<and> token = ADMIN_TOKEN env"

text \<open>\<open>strings.EqualFold\<close> on a parsed scheme, which is ASCII.\<close>

definition lowerASCII :: "char \<Rightarrow> char" where
  "lowerASCII c = (if CHR ''A'' \<le> c \<and> c \<le> CHR ''Z'' then char_of (of_char c + 32 :: nat) else c)"

definition EqualFold :: "bytes \<Rightarrow> bytes \<Rightarrow> bool" where
  "EqualFold s t \<longleftrightarrow> map lowerASCII s = map lowerASCII t"

definition isValidURL :: "app_env \<Rightarrow> bytes \<Rightarrow> bool" where
  "isValidURL env raw =
     (if length raw = 0 \<or> 2048 < length raw then False
      else case urlParse env raw of
             None \<Rightarrow> False
           | Some (scheme, host) \<Rightarrow>
               if host = [] then False else EqualFold scheme ''http'' \<or> EqualFold scheme ''https'')"

definition okBulkURL :: "bytes \<Rightarrow> bool" where
  "okBulkURL u \<longleftrightarrow>
     7 < length u \<and> length u \<le> 2048
     \<and> (HasPrefix u ''http://'' \<or> HasPrefix u ''https://'')
     \<and> \<not> ContainsAny u [DQ, BSL, NL, CHR 0x0D]"

section \<open>Replies\<close>

definition status :: "int \<Rightarrow> Reply" where
  "status n = \<lparr>Status1 = n, Location = [], Body = [], CType = []\<rparr>"

definition json :: "int \<Rightarrow> bytes \<Rightarrow> Reply" where
  "json n b = \<lparr>Status1 = n, Location = [], Body = b, CType = []\<rparr>"

definition bad :: "bytes \<Rightarrow> Reply" where
  "bad err = json 400 (''{\"error\":\"'' @ err @ ''\"}'')"

definition notFound :: Reply where
  "notFound = json 404 ''{\"error\":\"not found\"}''"

definition rateLimited :: Reply where
  "rateLimited = json 429 ''{\"error\":\"rate limited\"}''"

definition ownedElsewhere :: Reply where
  "ownedElsewhere = json 409 ''{\"error\":\"owned by another instance\"}''"

section \<open>Counters in the handler's state\<close>

definition met :: "(Metrics \<Rightarrow> Metrics) \<Rightarrow> 's app \<Rightarrow> 's app" where
  "met f a = a\<lparr>appMetrics := f (appMetrics a)\<rparr>"

definition setStore :: "'s \<Rightarrow> 's app \<Rightarrow> 's app" where
  "setStore s a = a\<lparr>appStore := s\<rparr>"

section \<open>Creating links\<close>

text \<open>The lifetime of a new link: the default, or the requested one cut to the default.\<close>

definition capTTL :: "app_env \<Rightarrow> rat \<Rightarrow> int" where
  "capTTL env t = (let ttl = f64int env t in if LinkTTLMS env < ttl then LinkTTLMS env else ttl)"

definition createdBody :: "bytes \<Rightarrow> bytes" where
  "createdBody code = ''{\"code\":\"'' @ code @ ''\",\"short_url\":\"/'' @ code @ ''\"}''"

definition shortenOne :: "app_env \<Rightarrow> 's API \<Rightarrow> shortenReq \<Rightarrow> 's app \<Rightarrow> (Reply \<times> 's app) option" where
  "shortenOne env api p a =
     (case rqURL p of
        None \<Rightarrow> Some (bad ''invalid url'', a)
      | Some url \<Rightarrow>
          if \<not> isValidURL env url then Some (bad ''invalid url'', a)
          else if (case rqAlias p of None \<Rightarrow> False | Some al \<Rightarrow> \<not> codeOK al) then Some (bad ''invalid alias'', a)
          else if (case rqTTLMS p of None \<Rightarrow> False | Some t \<Rightarrow> t \<le> 0) then Some (bad ''invalid ttl_ms'', a)
          else
            let ttl = (case rqTTLMS p of None \<Rightarrow> LinkTTLMS env | Some t \<Rightarrow> capTTL env t);
                (al, hasAlias) = (case rqAlias p of None \<Rightarrow> ([], False) | Some al \<Rightarrow> (al, True))
            in map_option
                 (\<lambda>(code, s).
                    let a = setStore s a
                    in if code = [] then (json 409 ''{\"error\":\"alias taken\"}'', a)
                       else (json 201 (createdBody code),
                             met (LinksDelta 1) a))
                 (apiShorten api url al hasAlias ttl (appStore a)))"

definition bulkError :: Reply where
  "bulkError = bad (''urls must be 1-'' @ Itoa (int MaxBulkURLs) @ '' valid http(s) urls'')"

definition shortenBulk :: "app_env \<Rightarrow> 's API \<Rightarrow> bytes list \<Rightarrow> 's app \<Rightarrow> (Reply \<times> 's app) option" where
  "shortenBulk env api urls a =
     (if length urls = 0 \<or> MaxBulkURLs < length urls then Some (bulkError, a)
      else if \<not> list_all okBulkURL urls then Some (bulkError, a)
      else map_option
             (\<lambda>(codes, s).
                (json 201 (''{\"count\":'' @ Itoa (int (length codes)) @ '',\"codes\":[''
                           @ commaJoin (map (\<lambda>c. [DQ] @ c @ [DQ]) codes) @ '']}''),
                 met (LinksDelta (int (length codes))) (setStore s a)))
             (apiShortenMany api urls (LinkTTLMS env) (appStore a)))"

section \<open>Routing\<close>

definition listLimit :: "bytes \<Rightarrow> int" where
  "listLimit v =
     (let limit = (if v = [] then 50
                   else case ParseInt v of (n, None) \<Rightarrow> if n \<noteq> 0 then n else 50 | _ \<Rightarrow> 50);
          limit = (if limit < 1 then 1 else limit)
      in if MaxListLimit < limit then MaxListLimit else limit)"

definition listOffset :: "bytes \<Rightarrow> int" where
  "listOffset v =
     (if v = [] then 0 else case ParseInt v of (n, None) \<Rightarrow> if 0 < n then n else 0 | _ \<Rightarrow> 0)"

definition routeList :: "app_env \<Rightarrow> 's API \<Rightarrow> bytes \<Rightarrow> 's app \<Rightarrow> (Reply \<times> 's app) option" where
  "routeList env api query a =
     (let g = queryGet env query;
          sortBy = (if g ''sort'' = ''hits'' then ''hits'' else ''created'')
      in map_option (\<lambda>(links, total). (json 200 (marshalLinks env links total), a))
           (apiList api (listLimit (g ''limit'')) (listOffset (g ''offset'')) sortBy (g ''q'') (appStore a)))"

definition redirect :: "'s API \<Rightarrow> bytes \<Rightarrow> 's app \<Rightarrow> (Reply \<times> 's app) option" where
  "redirect api code a =
     (if codeOK code then
        let a = met (Op 0) a
        in map_option (\<lambda>(r, s). (case r of
                                  Some target \<Rightarrow> \<lparr>Status1 = 302, Location = target, Body = [], CType = []\<rparr>
                                | None \<Rightarrow> notFound, setStore s a))
             (apiResolve api code (appStore a))
      else Some (notFound, a))"

definition routeGet :: "app_env \<Rightarrow> 's API \<Rightarrow> bytes \<Rightarrow> bytes \<Rightarrow> 's app \<Rightarrow> (Reply \<times> 's app) option" where
  "routeGet env api pathname query a =
     (if pathname = ''/api/health'' then
        map_option (\<lambda>up. (if up then json 200 ''{\"ok\":true}'' else json 503 ''{\"ok\":false}'', met (Op 7) a))
          (apiHealthy api (appStore a))
      else if pathname = ''/api/metrics'' then
        let a = met (Op 8) a in Some (json 200 (Snapshot (nowMs env) (appMetrics a)), a)
      else if pathname = ''/metrics'' then
        let a = met (Op 8) a
        in Some (\<lparr>Status1 = 200, Location = [], Body = Prometheus (nowMs env) (appLimited a) (apiCounters api (appStore a) (appMetrics a)),
                 CType = ''text/plain; version=0.0.4''\<rparr>, a)
      else if pathname = ''/'' then
        Some (case uiBytes env of
                None \<Rightarrow> notFound
              | Some html \<Rightarrow> \<lparr>Status1 = 200, Location = [], Body = html, CType = ''text/html; charset=utf-8''\<rparr>,
              met (Op 9) a)
      else if pathname = ''/api/links'' then routeList env api query (met (Op 5) a)
      else if HasPrefix pathname ''/api/stats/'' then
        let code = drop (length ''/api/stats/'') pathname
        in map_option (\<lambda>found. (case found of
                                  None \<Rightarrow> notFound
                                | Some link \<Rightarrow> json 200 (marshalLink env link),
                                met (Op 6) a))
             (apiStats api code (appStore a))
      else if pathname = [] then None
      else redirect api (tl pathname) a)"

text \<open>Spending tokens of the client's bucket; a refusal is counted.\<close>

definition limited ::
  "app_env \<Rightarrow> bytes \<Rightarrow> rat \<Rightarrow> ('s app \<Rightarrow> (Reply \<times> 's app) option) \<Rightarrow> 's app \<Rightarrow> (Reply \<times> 's app) option" where
  "limited env client cost k a =
     (let (ok, l) = Allow (roundF env) (nowMs env) client cost (appLimiter a);
          a = a\<lparr>appLimiter := l\<rparr>
      in if ok then k a
         else Some (rateLimited, met (Op 10) (a\<lparr>appLimited := (appLimited a + 1) mod 2 ^ 64\<rparr>)))"

definition routePost ::
  "app_env \<Rightarrow> 's API \<Rightarrow> bytes \<Rightarrow> bytes \<Rightarrow> bytes \<Rightarrow> 's app \<Rightarrow> (Reply \<times> 's app) option" where
  "routePost env api pathname body client a =
     (if pathname \<noteq> ''/api/shorten'' \<and> pathname \<noteq> ''/api/shorten/bulk'' then Some (notFound, met (Op 10) a)
      else if pathname = ''/api/shorten'' then
        (case unmarshalShorten env body of
           None \<Rightarrow> Some (bad ''invalid json'', a)
         | Some p \<Rightarrow> limited env client 1 (\<lambda>a. shortenOne env api p (met (Op 1) a)) a)
      else
        (case unmarshalBulk env body of
           None \<Rightarrow> Some (bad ''invalid json'', a)
         | Some urls \<Rightarrow>
             limited env client (of_nat (max (length urls) 1)) (\<lambda>a. shortenBulk env api urls (met (Op 2) a)) a))"

definition routeDelete :: "'s API \<Rightarrow> bytes \<Rightarrow> 's app \<Rightarrow> (Reply \<times> 's app) option" where
  "routeDelete api code a =
     (let a = met (Op 4) a
      in map_option
           (\<lambda>(r, s). let a = setStore s a
                     in case r of
                          MutOK \<Rightarrow> (status 204, met (LinksDelta (-1)) a)
                        | MutMissing \<Rightarrow> (notFound, a)
                        | MutRemote \<Rightarrow> (ownedElsewhere, a))
           (apiRemove api code (appStore a)))"

definition routePatch :: "app_env \<Rightarrow> 's API \<Rightarrow> bytes \<Rightarrow> bytes \<Rightarrow> 's app \<Rightarrow> (Reply \<times> 's app) option" where
  "routePatch env api code body a =
     (case unmarshalPatch env body of
        None \<Rightarrow> Some (bad ''invalid json'', a)
      | Some p \<Rightarrow>
          (case pqURL p of
             None \<Rightarrow> Some (bad ''nothing to update'', a)
           | Some url \<Rightarrow>
               if \<not> isValidURL env url then Some (bad ''invalid url'', a)
               else
                 let (ttl, hasTTL) = (case pqTTLMS p of None \<Rightarrow> (0, False) | Some t \<Rightarrow> (capTTL env t, True));
                     a = met (Op 3) a
                 in map_option
                      (\<lambda>(r, s). let a = setStore s a
                                in case r of
                                     MutOK \<Rightarrow> (json 200 ''{\"ok\":true}'', a)
                                   | MutMissing \<Rightarrow> (notFound, a)
                                   | MutRemote \<Rightarrow> (ownedElsewhere, a))
                      (apiUpdate api code url ttl hasTTL (appStore a))))"

definition splitPath :: "bytes \<Rightarrow> bytes \<times> bytes" where
  "splitPath path =
     (case IndexByte path (CHR ''?'') of
        None \<Rightarrow> (path, [])
      | Some i \<Rightarrow> (take i path, drop (i + 1) path))"

definition route ::
  "app_env \<Rightarrow> 's API \<Rightarrow> bytes \<Rightarrow> bytes \<Rightarrow> bytes \<Rightarrow> bytes \<Rightarrow> bytes \<Rightarrow> 's app \<Rightarrow> (Reply \<times> 's app) option" where
  "route env api method path body adminToken client a =
     (let (pathname, query) = splitPath path;
          a = met (Tick (nowMs env)) a
      in if method = ''OPTIONS'' then Some (status 204, a)
         else if method = ''GET'' then routeGet env api pathname query a
         else if method = ''POST'' then routePost env api pathname body client a
         else if method = ''PATCH'' \<or> method = ''DELETE'' then
           (if \<not> HasPrefix pathname ''/api/links/'' \<or> \<not> adminOk env adminToken then Some (notFound, a)
            else
              let code = drop (length ''/api/links/'') pathname
              in if \<not> codeOK code then Some (bad ''invalid code'', a)
                 else if method = ''DELETE'' then routeDelete api code a
                 else routePatch env api code body a)
         else Some (notFound, a))"

definition Handle ::
  "app_env \<Rightarrow> 's API \<Rightarrow> bytes \<Rightarrow> bytes \<Rightarrow> bytes \<Rightarrow> bytes \<Rightarrow> bytes \<Rightarrow> 's app \<Rightarrow> (Reply \<times> 's app) option" where
  "Handle env api method path body adminToken client a =
     map_option (\<lambda>(r, a). (r, met (Status (Status1 r)) a))
       (route env api method path body adminToken client a)"

section \<open>A concrete setting\<close>

text \<open>Used to show that the hypotheses of the theorems can be met: a decoder that takes the body as the
  url and asks for the alias \<open>al\<close>, a url parser for plain http, exact arithmetic.\<close>

definition demoEnv :: app_env where
  "demoEnv =
     \<lparr>unmarshalShorten = (\<lambda>b. Some \<lparr>rqURL = Some b, rqAlias = Some ''al'', rqTTLMS = Some 60000\<rparr>),
      unmarshalBulk = (\<lambda>b. Some [b]),
      unmarshalPatch = (\<lambda>b. Some \<lparr>pqURL = Some b, pqTTLMS = None\<rparr>),
      marshalLinks = (\<lambda>_ _. []), marshalLink = l_URL,
      urlParse = (\<lambda>u. if HasPrefix u ''http://'' then Some (''http'', drop 7 u) else None),
      queryGet = (\<lambda>_ _. []), f64int = (\<lambda>x. \<lfloor>x\<rfloor>), roundF = (\<lambda>x. x), ADMIN_TOKEN = ''s3cret'',
      LinkTTLMS = 86400000, uiBytes = None, nowMs = 1000\<rparr>"

definition demoAof :: aof_env where
  "demoAof =
     \<lparr>eRt = det_rt, eTrack = True, eClk = (\<lambda>_. 1000), eDraws = [''abcdefg''], eRnd = ''abcdefg'',
      eManyDraws = (\<lambda>_. []), eCreateOK = True, eSnapWrites = [], eRenameOK = True, eTruncOK = True\<rparr>"

definition demoApp :: "aof_state app" where
  "demoApp =
     \<lparr>appStore = (emptyStore, fmempty), appLimiter = newLimiter 1 2, appLimited = 0,
      appMetrics = initMetrics 0\<rparr>"

section \<open>What the handler guarantees for any engine\<close>

lemma met_store [simp]: "appStore (met f a) = appStore a" "appLimiter (met f a) = appLimiter a"
  by (simp_all add: met_def)

lemma setStore_simps [simp]: "appStore (setStore s a) = s" "appLimiter (setStore s a) = appLimiter a"
  by (simp_all add: setStore_def)

lemma reply_status [simp]:
  "Status1 (json n b) = n" "Status1 (status n) = n" "Status1 (bad e) = 400" "Status1 notFound = 404"
  "Status1 rateLimited = 429" "Status1 bulkError = 400" "Status1 ownedElsewhere = 409"
  by (simp_all add: json_def status_def bad_def notFound_def rateLimited_def bulkError_def ownedElsewhere_def)

text \<open>C30. Links are immutable for the public: without the admin token, or when no token is configured,
  \<open>PATCH\<close> and \<open>DELETE\<close> answer 404 and leave the store alone.\<close>

theorem admin_gate:
  assumes "method = ''PATCH'' \<or> method = ''DELETE''" and "ADMIN_TOKEN env = [] \<or> token \<noteq> ADMIN_TOKEN env"
  shows "\<exists>a'. Handle env api method path body token client a = Some (notFound, a') \<and> appStore a' = appStore a"
proof -
  have "\<not> adminOk env token" using assms(2) by (auto simp: adminOk_def)
  then show ?thesis using assms(1) by (auto simp: Handle_def route_def Let_def split: prod.split)
qed

theorem admin_gate_witness:
  "\<exists>a'. Handle demoEnv (aofAPI demoAof) ''DELETE'' ''/api/links/abc'' [] ''guess'' [] demoApp = Some (notFound, a')
        \<and> appStore a' = appStore demoApp"
  using admin_gate [of "''DELETE''" demoEnv "''guess''"] by (simp add: demoEnv_def)

lemma shortenOne_refusal:
  "shortenOne env api p a = Some (r, a') \<Longrightarrow> Status1 r = 400 \<or> Status1 r = 429 \<Longrightarrow> appStore a' = appStore a"
  by (auto simp: shortenOne_def Let_def split: option.splits if_splits)

lemma shortenBulk_refusal:
  "shortenBulk env api urls a = Some (r, a') \<Longrightarrow> Status1 r = 400 \<or> Status1 r = 429 \<Longrightarrow> appStore a' = appStore a"
  by (auto simp: shortenBulk_def Let_def split: if_splits)

lemma limited_refusal:
  assumes "limited env client cost k a = Some (r, a')" and "Status1 r = 400 \<or> Status1 r = 429"
    and "\<And>b. k b = Some (r, a') \<Longrightarrow> appStore a' = appStore b"
  shows "appStore a' = appStore a"
  using assms(1,2) assms(3) [of "a\<lparr>appLimiter := snd (Allow (roundF env) (nowMs env) client cost (appLimiter a))\<rparr>"]
  by (auto simp: limited_def Let_def split: prod.splits if_splits)

lemma routePost_refusal:
  assumes "routePost env api pathname body client a = Some (r, a')" and "Status1 r = 400 \<or> Status1 r = 429"
  shows "appStore a' = appStore a"
proof -
  have one: "appStore a' = appStore b" if "shortenOne env api p (met (Op 1) b) = Some (r, a')" for p b
    using shortenOne_refusal [OF that assms(2)] by simp
  have many: "appStore a' = appStore b" if "shortenBulk env api urls (met (Op 2) b) = Some (r, a')" for urls b
    using shortenBulk_refusal [OF that assms(2)] by simp
  show ?thesis
    using assms(1) limited_refusal [OF _ assms(2)] one many
    by (fastforce simp: routePost_def split: if_splits option.splits)
qed

lemma routeGet_refusal:
  "routeGet env api pathname query a = Some (r, a') \<Longrightarrow> Status1 r = 400 \<or> Status1 r = 429 \<Longrightarrow> appStore a' = appStore a"
  by (auto simp: routeGet_def routeList_def redirect_def Let_def split: if_splits option.splits)

lemma MutResult_rest: "r \<noteq> MutOK \<Longrightarrow> r \<noteq> MutMissing \<Longrightarrow> r = MutRemote"
  by (cases r) simp_all

lemma routeMut_refusal:
  "routeDelete api code a = Some (r, a') \<Longrightarrow> Status1 r = 400 \<or> Status1 r = 429 \<Longrightarrow> appStore a' = appStore a"
  "routePatch env api code body a = Some (r, a') \<Longrightarrow> Status1 r = 400 \<or> Status1 r = 429 \<Longrightarrow> appStore a' = appStore a"
  by (auto simp: routeDelete_def routePatch_def Let_def dest: MutResult_rest
      split: MutResult.split_asm option.splits if_splits)

text \<open>C31. A refused request changes no link: whenever the handler answers 400 or 429, for any engine and
  any request, the state of the store is what it was.\<close>

theorem refusal_keeps_store:
  assumes "Handle env api method path body token client a = Some (r, a')"
    and "Status1 r = 400 \<or> Status1 r = 429"
  shows "appStore a' = appStore a"
proof -
  obtain a1 where r: "route env api method path body token client a = Some (r, a1)" "appStore a' = appStore a1"
    using assms(1) by (auto simp: Handle_def)
  obtain pathname query where p: "splitPath path = (pathname, query)" by fastforce
  have "appStore a1 = appStore (met (Tick (nowMs env)) a)"
  proof (cases "method = ''OPTIONS'' \<or> method \<notin> {''GET'', ''POST'', ''PATCH'', ''DELETE''}")
    case True
    then show ?thesis using r(1) by (auto simp: route_def p Let_def split: if_splits)
  next
    case False
    then consider "routeGet env api pathname query (met (Tick (nowMs env)) a) = Some (r, a1)"
      | "routePost env api pathname body client (met (Tick (nowMs env)) a) = Some (r, a1)"
      | "routeDelete api (drop (length ''/api/links/'') pathname) (met (Tick (nowMs env)) a) = Some (r, a1)"
      | "routePatch env api (drop (length ''/api/links/'') pathname) body (met (Tick (nowMs env)) a) = Some (r, a1)"
      | "a1 = met (Tick (nowMs env)) a"
      using r(1) by (auto simp: route_def p Let_def split: if_splits)
    then show ?thesis
    proof cases
      case 1
      then show ?thesis by (rule routeGet_refusal [OF _ assms(2)])
    next
      case 2
      then show ?thesis by (rule routePost_refusal [OF _ assms(2)])
    next
      case 3
      then show ?thesis by (rule routeMut_refusal(1) [OF _ assms(2)])
    next
      case 4
      then show ?thesis by (rule routeMut_refusal(2) [OF _ assms(2)])
    qed simp
  qed
  then show ?thesis using r(2) by simp
qed

theorem refusal_keeps_store_witness:
  "\<exists>r a'. Handle demoEnv (aofAPI demoAof) ''POST'' ''/api/shorten'' ''ftp://x'' [] ''10.0.0.1'' demoApp = Some (r, a')
          \<and> Status1 r = 400 \<and> appStore a' = appStore demoApp"
proof -
  have "HasPrefix ''ftp://x'' ''http://'' = False" by (simp add: HasPrefix_def)
  moreover have "splitPath ''/api/shorten'' = (''/api/shorten'', [])" by (simp add: splitPath_def)
  moreover have "fst (Allow (\<lambda>x. x) 1000 ''10.0.0.1'' 1 (newLimiter 1 2)) = True"
    by (simp add: Allow_def newLimiter_def dropIdle_def maplen_def fcard_fempty maxKeys_def Let_def i64_id in_i64_def)
  ultimately obtain r a' where h: "Handle demoEnv (aofAPI demoAof) ''POST'' ''/api/shorten'' ''ftp://x'' [] ''10.0.0.1'' demoApp
      = Some (r, a')" "Status1 r = 400"
    by (cases "Allow (\<lambda>x. x) 1000 ''10.0.0.1'' 1 (newLimiter 1 2)")
       (auto simp: Handle_def route_def routePost_def limited_def shortenOne_def isValidURL_def demoEnv_def demoApp_def met_def)
  then show ?thesis using refusal_keeps_store [OF h(1)] by blast
qed

text \<open>An engine whose operations return in a given state, on the arguments a request with a given body leads to.\<close>

definition answers :: "app_env \<Rightarrow> 's API \<Rightarrow> bytes \<Rightarrow> 's \<Rightarrow> bool" where
  "answers env api body s \<longleftrightarrow>
     (unmarshalShorten env body \<noteq> None \<longrightarrow> (\<forall>url al hasAlias ttl. apiShorten api url al hasAlias ttl s \<noteq> None))
     \<and> (\<forall>urls. unmarshalBulk env body = Some urls \<longrightarrow> length urls \<le> MaxBulkURLs \<longrightarrow> apiShortenMany api urls (LinkTTLMS env) s \<noteq> None)
     \<and> (\<forall>code. apiResolve api code s \<noteq> None)
     \<and> (\<forall>code url ttl hasTTL. apiUpdate api code url ttl hasTTL s \<noteq> None)
     \<and> (\<forall>code. apiRemove api code s \<noteq> None) \<and> (\<forall>code. apiStats api code s \<noteq> None) \<and> apiHealthy api s \<noteq> None
     \<and> (\<forall>limit offset sortBy q. 1 \<le> limit \<longrightarrow> limit \<le> MaxListLimit \<longrightarrow> 0 \<le> offset \<longrightarrow> apiList api limit offset sortBy q s \<noteq> None)"

lemma listLimit_bounds: "1 \<le> listLimit v \<and> listLimit v \<le> MaxListLimit"
  by (auto simp: listLimit_def MaxListLimit_def Let_def split: prod.splits option.splits)

lemma listOffset_nonneg: "0 \<le> listOffset v"
  by (auto simp: listOffset_def split: prod.splits option.splits)

lemma shorten_total:
  "answers env api body (appStore a) \<Longrightarrow> unmarshalShorten env body = Some p \<Longrightarrow> shortenOne env api p a \<noteq> None"
  "answers env api body (appStore a) \<Longrightarrow> unmarshalBulk env body = Some urls \<Longrightarrow> shortenBulk env api urls a \<noteq> None"
  by (auto simp del: not_None_eq simp add: shortenOne_def shortenBulk_def answers_def Let_def split: option.split)

lemma routePost_total: "answers env api body (appStore a) \<Longrightarrow> routePost env api pathname body client a \<noteq> None"
  using shorten_total [of env api body "met (Op k) (a\<lparr>appLimiter := l\<rparr>)" for k l]
  by (auto simp del: not_None_eq simp add: routePost_def limited_def Let_def split: option.split prod.split)

lemma routeGet_None_iff:
  assumes "answers env api body (appStore a)"
  shows "routeGet env api pathname query a = None \<longleftrightarrow> pathname = []"
proof (cases "pathname = []")
  case True
  then show ?thesis by (simp add: routeGet_def HasPrefix_def)
next
  case False
  have "redirect api code a \<noteq> None" for code
    using assms by (auto simp del: not_None_eq simp add: redirect_def answers_def Let_def)
  moreover have "routeList env api query (met f a) \<noteq> None" for f
    using assms listLimit_bounds listOffset_nonneg by (auto simp del: not_None_eq simp add: routeList_def answers_def Let_def)
  moreover have "apiStats api code (appStore a) \<noteq> None" "apiHealthy api (appStore a) \<noteq> None" for code
    using assms by (simp_all add: answers_def del: not_None_eq)
  ultimately show ?thesis using False by (simp add: routeGet_def Let_def del: not_None_eq)
qed

lemma routeMut_total:
  "answers env api body (appStore a) \<Longrightarrow> routeDelete api code a \<noteq> None"
  "answers env api body (appStore a) \<Longrightarrow> routePatch env api code body a \<noteq> None"
  by (auto simp del: not_None_eq simp add: routeDelete_def routePatch_def answers_def Let_def split: option.split)

text \<open>Over such an engine the handler panics on one kind of request only.\<close>

lemma Handle_None_iff:
  assumes "answers env api body (appStore a)"
  shows "Handle env api method path body token client a = None \<longleftrightarrow> method = ''GET'' \<and> fst (splitPath path) = []"
proof -
  obtain pathname query where p: "splitPath path = (pathname, query)" by fastforce
  have t: "answers env api body (appStore (met f a))" for f using assms by simp
  show ?thesis
    using routeGet_None_iff [OF t] routePost_total [OF t] routeMut_total [OF t]
    by (auto simp: Handle_def route_def p Let_def)
qed

section \<open>From creation to redirect\<close>

text \<open>A code the handler accepts is one the log can carry.\<close>

lemma codeOK_code_ok: "codeOK s \<Longrightarrow> code_ok s"
  using codeOK_chars [of s DQ] codeOK_chars [of s BSL] codeOK_chars [of s NL]
  by (auto simp: code_ok_def plain_def codeOK_def)

lemma splitPath_code: "codeOK code \<Longrightarrow> splitPath (CHR ''/'' # code) = (CHR ''/'' # code, [])"
  using codeOK_chars [of code "CHR ''?''"] IndexByte_None [of code "CHR ''?''"]
  by (auto simp: splitPath_def simp del: IndexByte_None)

lemma routeGet_code:
  assumes "codeOK code" and "code \<noteq> ''metrics''"
  shows "routeGet env api (CHR ''/'' # code) query a = redirect api code a"
proof -
  have slash: "CHR ''/'' \<notin> set code" using codeOK_chars [OF assms(1)] by fastforce
  then have "code \<noteq> ''api/health''" "code \<noteq> ''api/metrics''" "code \<noteq> ''api/links''" by auto
  moreover have "\<not> HasPrefix code ''api/stats/''" using slash by (auto simp: HasPrefix_iff)
  then have "\<not> HasPrefix (CHR ''/'' # code) ''/api/stats/''" by (simp add: HasPrefix_def)
  moreover have "code \<noteq> []" using assms(1) by (auto simp: codeOK_def)
  ultimately show ?thesis using assms(2) by (simp add: routeGet_def)
qed

text \<open>What a 201 from \<open>/api/shorten\<close> means.\<close>

definition newTTL :: "app_env \<Rightarrow> shortenReq \<Rightarrow> int" where
  "newTTL env p = (case rqTTLMS p of None \<Rightarrow> LinkTTLMS env | Some t \<Rightarrow> capTTL env t)"

lemma shortenOne_created:
  assumes "shortenOne env api p a = Some (r, a')" and "Status1 r = 201"
  shows "\<exists>url code al hasAlias. rqURL p = Some url \<and> isValidURL env url \<and> r = json 201 (createdBody code) \<and> code \<noteq> []
           \<and> (al, hasAlias) = (case rqAlias p of None \<Rightarrow> ([], False) | Some al \<Rightarrow> (al, True))
           \<and> (\<forall>x. rqAlias p = Some x \<longrightarrow> codeOK x) \<and> (\<forall>t. rqTTLMS p = Some t \<longrightarrow> 0 < t)
           \<and> apiShorten api url al hasAlias (newTTL env p) (appStore a) = Some (code, appStore a')"
proof -
  obtain url where u: "rqURL p = Some url"
    using assms by (auto simp: shortenOne_def split: option.splits)
  have g: "isValidURL env url" "\<forall>x. rqAlias p = Some x \<longrightarrow> codeOK x" "\<forall>t. rqTTLMS p = Some t \<longrightarrow> 0 < t"
    using assms u by (auto simp: shortenOne_def split: option.splits if_splits)
  obtain al hasAlias where ah: "(case rqAlias p of None \<Rightarrow> ([], False) | Some al \<Rightarrow> (al, True)) = (al, hasAlias)"
    by fastforce
  have "shortenOne env api p a = map_option
      (\<lambda>(code, s). let a = setStore s a in if code = [] then (json 409 ''{\"error\":\"alias taken\"}'', a)
                    else (json 201 (createdBody code), met (LinksDelta 1) a))
      (apiShorten api url al hasAlias (newTTL env p) (appStore a))"
    using u g ah by (auto simp: shortenOne_def newTTL_def split: option.splits)
  then obtain code where "apiShorten api url al hasAlias (newTTL env p) (appStore a) = Some (code, appStore a')"
    "code \<noteq> []" "r = json 201 (createdBody code)"
    using assms
    by (cases "apiShorten api url al hasAlias (newTTL env p) (appStore a)") (auto simp: Let_def split: if_splits)
  with u g ah show ?thesis by metis
qed

lemma Handle_created:
  assumes "Handle env api ''POST'' ''/api/shorten'' body token client a = Some (r, a')" and "Status1 r = 201"
  obtains p b b' where "unmarshalShorten env body = Some p" and "appStore b = appStore a"
    and "shortenOne env api p b = Some (r, b')" and "appStore b' = appStore a'"
proof -
  have "splitPath ''/api/shorten'' = (''/api/shorten'', [])" by (simp add: splitPath_def)
  then obtain p a1 where p: "unmarshalShorten env body = Some p" "appStore a1 = appStore a'"
    "limited env client 1 (\<lambda>a. shortenOne env api p (met (Op 1) a)) (met (Tick (nowMs env)) a) = Some (r, a1)"
    using assms by (auto simp: Handle_def route_def routePost_def Let_def split: option.splits)
  obtain ok l where al: "Allow (roundF env) (nowMs env) client 1 (appLimiter a) = (ok, l)" by fastforce
  let ?b = "met (Op 1) ((met (Tick (nowMs env)) a)\<lparr>appLimiter := l\<rparr>)"
  have "shortenOne env api p ?b = Some (r, a1)" "appStore ?b = appStore a"
    using p(3) al assms(2) by (auto simp: limited_def Let_def split: if_splits)
  with p that show thesis by blast
qed

text \<open>The reply of a creation names the code of the submitted url, with the lifetime in force; a code redirects
  when every \<open>GET /code\<close> answers 302 with the url and leaves the engine as its own \<open>Resolve\<close> leaves it.\<close>

definition acknowledges :: "app_env \<Rightarrow> bytes \<Rightarrow> Reply \<Rightarrow> bytes \<Rightarrow> bytes \<Rightarrow> int \<Rightarrow> bool" where
  "acknowledges env body r code url ttl \<longleftrightarrow>
     (\<exists>p. unmarshalShorten env body = Some p \<and> rqURL p = Some url \<and> ttl = newTTL env p)
     \<and> isValidURL env url \<and> Body r = createdBody code \<and> codeOK code"

definition redirects :: "'s API \<Rightarrow> bytes \<Rightarrow> bytes \<Rightarrow> 's \<Rightarrow> bool" where
  "redirects api code url s \<longleftrightarrow>
     (\<forall>env body token client b. appStore b = s \<longrightarrow>
        (\<exists>r b'. Handle env api ''GET'' (CHR ''/'' # code) body token client b = Some (r, b')
              \<and> Status1 r = 302 \<and> Location r = url \<and> apiResolve api code s = Some (Some url, appStore b')))"

lemma redirects_resolved:
  assumes "apiResolve api code s = Some (Some url, s')" and "codeOK code" and "code \<noteq> ''metrics''"
  shows "redirects api code url s"
  unfolding redirects_def
  using assms by (auto simp: Handle_def route_def splitPath_code routeGet_code redirect_def)

text \<open>For any engine that keeps the contract.\<close>

context store_api
begin

lemma isValidURL_fits: "isValidURL env url \<Longrightarrow> fitsURL url"
  by (rule fits_url) (simp add: isValidURL_def split: if_splits)

lemma redirect_live:
  assumes "ok s" and "view s code = Some (url, x)" and "x = 0 \<or> seen < x" and "codeOK code" and "code \<noteq> ''metrics''"
  shows "redirects api code url s"
proof -
  obtain s' where "apiResolve api code s = Some (Some url, s')"
    using resolve_live [OF assms(1) _ assms(2,3)] fits_code [OF assms(4)] by blast
  then show ?thesis using assms(4,5) by (rule redirects_resolved)
qed

lemma created_link:
  assumes "Handle env api ''POST'' ''/api/shorten'' body token client a = Some (r, a')" and "Status1 r = 201"
    and "ok (appStore a)" and "\<And>p. unmarshalShorten env body = Some p \<Longrightarrow> fitsTTL (newTTL env p)"
  obtains code url ttl al hasAlias where "acknowledges env body r code url ttl" and "code \<noteq> []"
    and "hasAlias \<longrightarrow> codeOK al"
    and "apiShorten api url al hasAlias ttl (appStore a) = Some (code, appStore a')"
    and "ok (appStore a')" and "view (appStore a) code = None"
    and "view (appStore a') = (view (appStore a))(code \<mapsto> (url, expiry stamp ttl))"
proof -
  obtain p b b' where h: "unmarshalShorten env body = Some p" "appStore b = appStore a"
    "shortenOne env api p b = Some (r, b')" "appStore b' = appStore a'"
    using Handle_created [OF assms(1,2)] by blast
  obtain url code al hasAlias where o: "rqURL p = Some url" "isValidURL env url" "r = json 201 (createdBody code)" "code \<noteq> []"
    "(al, hasAlias) = (case rqAlias p of None \<Rightarrow> ([], False) | Some al \<Rightarrow> (al, True))"
    "\<forall>x. rqAlias p = Some x \<longrightarrow> codeOK x"
    "apiShorten api url al hasAlias (newTTL env p) (appStore a) = Some (code, appStore a')"
    using shortenOne_created [OF h(3) assms(2)] h(2,4) by metis
  have al: "codeOK al" if hasAlias using o(5,6) that by (auto split: option.splits)
  have "hasAlias \<longrightarrow> fitsCode al" using al fits_code by blast
  note v = shorten_view [OF assms(3) o(7,4) this isValidURL_fits [OF o(2)] assms(4) [OF h(1)]]
  have "codeOK code" using v(4) al codeOK_generated by (cases hasAlias) auto
  then have "acknowledges env body r code url (newTTL env p)" using h(1) o(1-3) by (simp add: acknowledges_def json_def)
  then show thesis using that o(4,7) al v(1-3) by blast
qed

end

text \<open>An engine seen with the environments of several calls: the clocks and draws change from call to call,
  the stored links do not.\<close>

locale store_family =
  fixes api :: "'e \<Rightarrow> 's API"
    and view :: "'s \<Rightarrow> bytes \<Rightarrow> (bytes \<times> int) option"
    and ok :: "'e \<Rightarrow> 's \<Rightarrow> bool"
    and fitsCode fitsURL :: "bytes \<Rightarrow> bool"
    and fitsTTL :: "int \<Rightarrow> bool"
    and stamp seen :: "'e \<Rightarrow> int"
  assumes member: "store_api (api e) view (ok e) fitsCode fitsURL fitsTTL (stamp e) (seen e)"
begin

lemma end_to_end:
  assumes "Handle env (api e) ''POST'' ''/api/shorten'' body token client a = Some (r, a')" and "Status1 r = 201"
    and "ok e (appStore a)" and "\<forall>p. unmarshalShorten env body = Some p \<longrightarrow> fitsTTL (newTTL env p)"
  obtains code url ttl where "acknowledges env body r code url ttl" and "ok e (appStore a')"
    and "\<And>e2. ok e2 (appStore a') \<Longrightarrow> code \<noteq> ''metrics'' \<Longrightarrow> expiry (stamp e) ttl = 0 \<or> seen e2 < expiry (stamp e) ttl
         \<Longrightarrow> redirects (api e2) code url (appStore a')"
proof -
  obtain code url ttl where c: "acknowledges env body r code url ttl" "ok e (appStore a')"
    "view (appStore a') = (view (appStore a))(code \<mapsto> (url, expiry (stamp e) ttl))"
    using store_api.created_link [OF member assms(1-3) assms(4) [rule_format]] by blast
  have "codeOK code" using c(1) by (simp add: acknowledges_def)
  then have "redirects (api e2) code url (appStore a')"
    if "ok e2 (appStore a')" and "code \<noteq> ''metrics''" and "expiry (stamp e) ttl = 0 \<or> seen e2 < expiry (stamp e) ttl" for e2
    using store_api.redirect_live [OF member that(1) _ that(3) _ that(2)] c(3) by simp
  with c(1,2) show thesis by (rule that)
qed

end

interpretation aof_family: store_family aofAPI aofView "\<lambda>_. aofOk" "\<lambda>_. True" "\<lambda>_. True" "\<lambda>_. True"
  "\<lambda>e. eClk e 0" "\<lambda>e. eClk e 2"
  by unfold_locales

text \<open>C7. End to end: when \<open>POST /api/shorten\<close> answers 201, the url was valid, the body names the code,
  and until the link expires \<open>GET /code\<close> answers 302 with exactly that url as its location and leaves the engine as its
  own \<open>Resolve\<close> leaves it, hit included (the code
  \<open>metrics\<close> excepted, whose path is taken).\<close>

theorem shorten_then_redirect:
  assumes "Handle env (aofAPI e) ''POST'' ''/api/shorten'' body token client a = Some (r, a')" and "Status1 r = 201"
    and "sprefix (fst (appStore a)) \<in> set ALPHABET"
  shows "\<exists>code url ttl. acknowledges env body r code url ttl
           \<and> (\<forall>e2. code \<noteq> ''metrics'' \<longrightarrow> expiry (eClk e 0) ttl = 0 \<or> eClk e2 2 < expiry (eClk e 0) ttl
                \<longrightarrow> redirects (aofAPI e2) code url (appStore a'))"
proof -
  have "aofOk (appStore a)" using assms(3) by (simp add: aofOk_def)
  then obtain code url ttl where "acknowledges env body r code url ttl" "aofOk (appStore a')"
    "\<And>e2. aofOk (appStore a') \<Longrightarrow> code \<noteq> ''metrics'' \<Longrightarrow> expiry (eClk e 0) ttl = 0 \<or> eClk e2 2 < expiry (eClk e 0) ttl
        \<Longrightarrow> redirects (aofAPI e2) code url (appStore a')"
    by (rule aof_family.end_to_end [OF assms(1,2)]) simp_all
  then show ?thesis by blast
qed

text \<open>The first request of a client, in the concrete setting.\<close>

lemma Allow_demo: "\<exists>l. Allow (\<lambda>x. x) 1000 ''10.0.0.1'' 1 (newLimiter 1 2) = (True, l)"
  by (simp add: Allow_def newLimiter_def dropIdle_def maplen_def fcard_fempty maxKeys_def Let_def i64_id in_i64_def)

lemma codeOK_al: "codeOK ''al''"
  by (simp add: codeOK_def codeChar_def less_eq_char_def)

lemma Handle_demo_any:
  assumes "apiShorten api ''http://x'' ''al'' True 60000 (appStore a) = Some (''al'', st')" and "appLimiter a = newLimiter 1 2"
  shows "\<exists>a'. Handle demoEnv api ''POST'' ''/api/shorten'' ''http://x'' [] ''10.0.0.1'' a = Some (json 201 (createdBody ''al''), a')"
proof -
  obtain l where l: "Allow (\<lambda>x. x) 1000 ''10.0.0.1'' 1 (newLimiter 1 2) = (True, l)" using Allow_demo by blast
  have v: "isValidURL demoEnv ''http://x''"
    by (simp add: isValidURL_def demoEnv_def HasPrefix_def EqualFold_def)
  have "splitPath ''/api/shorten'' = (''/api/shorten'', [])" by (simp add: splitPath_def)
  moreover have "capTTL demoEnv 60000 = 60000" by (simp add: capTTL_def demoEnv_def)
  moreover have env: "unmarshalShorten demoEnv b = Some \<lparr>rqURL = Some b, rqAlias = Some ''al'', rqTTLMS = Some 60000\<rparr>"
    "roundF demoEnv = (\<lambda>x. x)" "nowMs demoEnv = 1000" for b
    by (simp_all add: demoEnv_def)
  ultimately show ?thesis
    using l v codeOK_al assms
    by (simp add: Handle_def route_def routePost_def limited_def shortenOne_def)
qed

lemma Handle_demo:
  assumes "aofView st ''al'' = None"
  shows "\<exists>a'. Handle demoEnv (aofAPI demoAof) ''POST'' ''/api/shorten'' ''http://x'' [] ''10.0.0.1'' (demoApp\<lparr>appStore := st\<rparr>)
           = Some (json 201 (createdBody ''al''), a')"
proof -
  obtain st' where "apiShorten (aofAPI demoAof) ''http://x'' ''al'' True 60000 st = Some (''al'', st')"
    using aof_alias_free [OF assms] by blast
  then show ?thesis by (intro Handle_demo_any) (simp_all add: demoApp_def)
qed

lemma demoApp_store: "demoApp\<lparr>appStore := (emptyStore, fmempty)\<rparr> = demoApp" "aofView (emptyStore, fmempty) c = None"
  by (simp_all add: demoApp_def aofView_def)

lemma createdBody_inj:
  assumes "createdBody c = createdBody d"
  shows "c = d"
proof -
  have "length c = length d" using arg_cong [OF assms, of length] by (simp add: createdBody_def)
  then show ?thesis using assms by (simp add: createdBody_def)
qed

lemma demo_acknowledges:
  "acknowledges demoEnv ''http://x'' (json 201 (createdBody ''al'')) code url ttl \<longleftrightarrow> code = ''al'' \<and> url = ''http://x'' \<and> ttl = 60000"
proof -
  have "isValidURL demoEnv ''http://x''" by (simp add: isValidURL_def demoEnv_def HasPrefix_def EqualFold_def)
  moreover have "unmarshalShorten demoEnv ''http://x'' = Some p \<and> rqURL p = Some u \<and> t = newTTL demoEnv p
      \<longleftrightarrow> p = \<lparr>rqURL = Some ''http://x'', rqAlias = Some ''al'', rqTTLMS = Some 60000\<rparr> \<and> u = ''http://x'' \<and> t = 60000" for p u t
    by (auto simp: demoEnv_def newTTL_def capTTL_def)
  ultimately show ?thesis using codeOK_al createdBody_inj by (auto simp: acknowledges_def json_def)
qed

lemma redirects_demo:
  "redirects api ''al'' url (appStore b) \<Longrightarrow> \<exists>r b'. Handle demoEnv api ''GET'' ''/al'' [] [] [] b = Some (r, b') \<and> Location r = url"
  unfolding redirects_def by blast

theorem shorten_then_redirect_witness:
  "\<exists>a' r2 b'. Handle demoEnv (aofAPI demoAof) ''POST'' ''/api/shorten'' ''http://x'' [] ''10.0.0.1'' demoApp
         = Some (json 201 (createdBody ''al''), a')
     \<and> Handle demoEnv (aofAPI demoAof) ''GET'' ''/al'' [] [] [] a' = Some (r2, b') \<and> Location r2 = ''http://x''"
proof -
  obtain a' where h: "Handle demoEnv (aofAPI demoAof) ''POST'' ''/api/shorten'' ''http://x'' [] ''10.0.0.1'' demoApp
      = Some (json 201 (createdBody ''al''), a')" using Handle_demo [of "(emptyStore, fmempty)"] by (auto simp: demoApp_store)
  have "sprefix (fst (appStore demoApp)) \<in> set ALPHABET" by (simp add: demoApp_def ALPHABET_def)
  from shorten_then_redirect [OF h reply_status(1) this]
  have "redirects (aofAPI demoAof) ''al'' ''http://x'' (appStore a')"
    by (auto simp: demo_acknowledges demoAof_def expiry_def i64_id in_i64_def)
  then show ?thesis using h redirects_demo by blast
qed

end
