(* ===== verification/Recovery.thy ===== *)
theory Recovery
  imports Links
begin

text \<open>
  Durability of the AOF engine for an instance that is alone in its data directory. The abstract
  state is the table of links (url, creation time, expiry, owner under each code); a run of the
  store is an \<open>inductive\<close> relation over its public operations that also records the history of
  table changes. The invariant ties three things together: the table of the index is the result of
  the history, the bytes of snapshot, log file and write buffer print the history (interleaved with
  hit deltas), and the index is well-formed. Crash recovery follows: reopening the directory with
  the log cut at any byte yields the table after a prefix of the history.
\<close>

section \<open>The abstract table\<close>

type_synonym row = "bytes \<times> int \<times> int \<times> int"
type_synonym link_table = "bytes \<Rightarrow> row option"

definition rowOf :: "entry \<Rightarrow> row" where
  "rowOf e = (e_u e, e_a e, e_e e, e_i e)"

definition rows :: "Store \<Rightarrow> link_table" where
  "rows s = (\<lambda>c. map_option rowOf (getEntry c s))"

fun rowStep :: "logrec \<Rightarrow> link_table \<Rightarrow> link_table" where
  "rowStep (Row c u a e i n) m = m(c \<mapsto> (u, a, e, i))"
| "rowStep (Hit c d i) m = m"
| "rowStep (Del c) m = m(c := None)"

fun isHit :: "logrec \<Rightarrow> bool" where
  "isHit (Hit c d i) = True"
| "isHit _ = False"

fun owner_ok :: "int \<Rightarrow> logrec \<Rightarrow> bool" where
  "owner_ok j (Row c u a e i n) \<longleftrightarrow> i = j \<and> in_i32 i"
| "owner_ok j (Hit c d i) = True"
| "owner_ok j (Del c) = True"

definition recs_ok :: "int \<Rightarrow> logrec list \<Rightarrow> bool" where
  "recs_ok j rs \<longleftrightarrow> list_all (\<lambda>r. rec_ok r \<and> owner_ok j r) rs"

definition tableOf :: "logrec list \<Rightarrow> link_table" where
  "tableOf h = fold rowStep h Map.empty"

section \<open>Replay computes the table\<close>

lemma rows_applyRec:
  assumes "rec_ok r" and "owner_ok j r"
  shows "rows (applyRec g r s) = rowStep r (rows s)"
  using assms
  by (cases r)
     (auto simp: rows_def rowOf_def [abs_def] getEntry_applyRec fun_eq_iff option.map_comp comp_def)

lemma rows_fold_applyRec:
  "recs_ok j rs \<Longrightarrow> rows (fold (applyRec g) rs s) = fold rowStep rs (rows s)"
  by (induction rs arbitrary: s) (simp_all add: recs_ok_def rows_applyRec [of _ j])

lemma rowStep_filter: "fold rowStep (filter (\<lambda>r. \<not> isHit r) rs) m = fold rowStep rs m"
proof (induction rs arbitrary: m)
  case (Cons r rs)
  then show ?case by (cases r) (simp_all add: fun_upd_def)
qed simp

lemma recs_ok_rec: "recs_ok j rs \<Longrightarrow> r \<in> set rs \<Longrightarrow> rec_ok r"
  by (auto simp: recs_ok_def list_all_iff)

lemma recs_ok_take: "recs_ok j rs \<Longrightarrow> recs_ok j (take n rs)"
  by (auto simp: recs_ok_def list_all_iff dest: in_set_takeD)

lemma recs_ok_simps [simp]:
  "recs_ok j []" "recs_ok j (r # rs) \<longleftrightarrow> rec_ok r \<and> owner_ok j r \<and> recs_ok j rs"
  "recs_ok j (xs @ ys) \<longleftrightarrow> recs_ok j xs \<and> recs_ok j ys"
  by (auto simp: recs_ok_def)

lemma tableOf_snoc: "tableOf (h @ [r]) = rowStep r (tableOf h)"
  by (simp add: tableOf_def)

lemma fold_applyRec_frame [simp]:
  "aof (fold (applyRec g) rs s) = aof s" "sinstance (fold (applyRec g) rs s) = sinstance s"
  "sprefix (fold (applyRec g) rs s) = sprefix s" "ownName (fold (applyRec g) rs s) = ownName s"
  "tails (fold (applyRec g) rs s) = tails s" "closed (fold (applyRec g) rs s) = closed s"
  "getDirty c (fold (applyRec g) rs s) = getDirty c s"
  by (induction rs arbitrary: s) simp_all

section \<open>Shape of an open store alone in its directory\<close>

definition alone :: "int \<Rightarrow> fsys \<Rightarrow> bool" where
  "alone i fs \<longleftrightarrow>
     (\<forall>n. fmlookup fs n \<noteq> None \<and> HasPrefix n ''data-'' \<and> HasSuffix n ''.log'' \<longrightarrow> n = logName i)"

definition idle_tails :: "fsys \<Rightarrow> Store \<Rightarrow> bool" where
  "idle_tails fs s \<longleftrightarrow>
     (\<forall>n t. fmlookup (tails s) n = Some t \<longrightarrow>
        t = TailFromStart n \<and> HasPrefix n ''data-'' \<and> HasSuffix n ''.log'' \<and> fmlookup fs n = None)"

definition opened :: "int \<Rightarrow> Store \<Rightarrow> fsys \<Rightarrow> bool" where
  "opened i s fs \<longleftrightarrow>
     0 \<le> i \<and> i < 62 \<and> sinstance s = i \<and> sprefix s = ALPHABET ! nat i \<and> ownName s = logName i
     \<and> (\<exists>a f. aof s = Some a \<and> aopen a \<and> aio a = goodIO \<and> aPath a = logName i \<and> fmlookup fs (logName i) = Some f)
     \<and> (\<forall>l. release s = Some l \<longrightarrow> \<not> HasPrefix l ''data-'')
     \<and> alone i fs \<and> idle_tails fs s"

text \<open>Every code sits in the shard its hash names; every value is one the log can carry.\<close>

definition wf_index :: "Store \<Rightarrow> bool" where
  "wf_index s \<longleftrightarrow>
     (\<forall>j c e. fmlookup (sh_data (shards s j)) c = Some e \<longrightarrow>
        j = shardOf c \<and> code_ok c \<and> e_i e = sinstance s
        \<and> in_i64 (e_a e) \<and> in_i64 (e_e e) \<and> in_i64 (e_h e) \<and> in_i64 (e_oh e))
     \<and> (\<forall>j c d. fmlookup (sh_dirty (shards s j)) c = Some d \<longrightarrow>
        j = shardOf c \<and> code_ok c \<and> in_i64 d)"

definition fileBytes :: "fsys \<Rightarrow> bytes \<Rightarrow> bytes" where
  "fileBytes fs n = (case fmlookup fs n of None \<Rightarrow> [] | Some f \<Rightarrow> fbytes f)"

definition pending :: "Store \<Rightarrow> bytes" where
  "pending s = (case aof s of None \<Rightarrow> [] | Some a \<Rightarrow> abuf a)"

definition syncedBytes :: "fsys \<Rightarrow> bytes \<Rightarrow> nat" where
  "syncedBytes fs n = (case fmlookup fs n of None \<Rightarrow> 0 | Some f \<Rightarrow> fsynced f)"

text \<open>The table changes of a log, and how many of them its first \<open>m\<close> records hold.\<close>

definition changes :: "logrec list \<Rightarrow> logrec list" where
  "changes rs = filter (\<lambda>r. \<not> isHit r) rs"

text \<open>Snapshot, log file and buffer print the history; the snapshot and the synced part of the log
  hold its first \<open>d\<close> changes.\<close>

definition logged :: "nat \<Rightarrow> Store \<Rightarrow> fsys \<Rightarrow> logrec list \<Rightarrow> bool" where
  "logged d s fs h \<longleftrightarrow>
     (\<exists>rs0 rs h0 h1. h = h0 @ h1
        \<and> fileBytes fs (snapName (sinstance s)) = logBytes lineOf rs0
        \<and> fileBytes fs (ownName s) @ pending s = logBytes lineOf rs
        \<and> recs_ok (sinstance s) rs0 \<and> recs_ok (sinstance s) rs
        \<and> tableOf rs0 = tableOf h0 \<and> changes rs = h1
        \<and> (\<exists>m \<le> length rs. length (logBytes lineOf (take m rs)) \<le> syncedBytes fs (ownName s)
                          \<and> d \<le> length h0 + length (changes (take m rs))))"

definition sinv :: "int \<Rightarrow> nat \<Rightarrow> Store \<Rightarrow> fsys \<Rightarrow> logrec list \<Rightarrow> bool" where
  "sinv i d s fs h \<longleftrightarrow> opened i s fs \<and> wf_index s \<and> logged d s fs h \<and> rows s = tableOf h"

lemma in_i32_instance: "0 \<le> i \<Longrightarrow> i < 62 \<Longrightarrow> in_i32 i"
  by (simp add: in_i32_def)

section \<open>File names\<close>

lemma HasSuffix_append [simp]: "HasSuffix (s @ p) p"
  by (simp add: HasSuffix_def)

lemma HasSuffix_append_neq:
  "length p = length q \<Longrightarrow> HasSuffix (s @ p) q \<longleftrightarrow> p = q"
  by (simp add: HasSuffix_def HasPrefix_def)

lemma logName_shape [simp]: "HasPrefix (logName i) ''data-''" "HasSuffix (logName i) ''.log''"
proof -
  show "HasPrefix (logName i) ''data-''" by (simp add: logName_def HasPrefix_def)
  have "HasSuffix ((''data-'' @ Itoa i) @ ''.log'') ''.log''" by (rule HasSuffix_append)
  then show "HasSuffix (logName i) ''.log''" by (simp add: logName_def)
qed

lemma snapName_not_log: "\<not> HasSuffix (snapName i) ''.log''"
proof -
  have "snapName i = (''data-'' @ Itoa i @ ''.sna'') @ ''p''" by (simp add: snapName_def)
  then show ?thesis by (simp add: HasSuffix_def HasPrefix_def)
qed

lemma tmpName_not_log: "\<not> HasSuffix (snapName i @ ''.tmp'') ''.log''"
  by (simp add: HasSuffix_def HasPrefix_def)

lemma snapName_neq_logName [simp]: "snapName i \<noteq> logName j" "logName j \<noteq> snapName i"
  using snapName_not_log [of i] logName_shape(2) [of j] by metis+

lemma tmpName_neq [simp]:
  "snapName i @ ''.tmp'' \<noteq> logName j" "logName j \<noteq> snapName i @ ''.tmp''"
  "snapName i \<noteq> snapName i @ ''.tmp''"
  using tmpName_not_log [of i] logName_shape(2) [of j] by (metis, metis, simp)

lemma logName_inj: "in_i64 i \<Longrightarrow> in_i64 j \<Longrightarrow> logName i = logName j \<longleftrightarrow> i = j"
  using dec_int.enc_inj [of i j] by (auto simp: logName_def)

lemma ShardFiles_alone: "alone i fs \<Longrightarrow> ShardFiles (logName i) fs = []"
  by (auto simp: ShardFiles_def alone_def filter_empty_conv)

section \<open>The index stays well-formed\<close>

definition entry_ok :: "int \<Rightarrow> entry \<Rightarrow> bool" where
  "entry_ok i e \<longleftrightarrow>
     e_i e = i \<and> in_i64 (e_a e) \<and> in_i64 (e_e e) \<and> in_i64 (e_h e) \<and> in_i64 (e_oh e)"

lemma wf_index_putEntry [wf_rules]:
  "wf_index s \<Longrightarrow> code_ok c \<Longrightarrow> entry_ok (sinstance s) e \<Longrightarrow> wf_index (putEntry c e s)"
  by (auto simp: wf_index_def putEntry_def Let_def entry_ok_def split: if_splits)

lemma wf_index_delEntry [wf_rules]: "wf_index s \<Longrightarrow> wf_index (delEntry c s)"
  by (auto simp: wf_index_def delEntry_def Let_def split: if_splits)

lemma wf_index_bumpDirty [wf_rules]: "wf_index s \<Longrightarrow> code_ok c \<Longrightarrow> wf_index (bumpDirty c s)"
  by (auto simp: wf_index_def bumpDirty_def Let_def split: if_splits)

lemma wf_index_cong:
  "shards t = shards s \<Longrightarrow> sinstance t = sinstance s \<Longrightarrow> wf_index t \<longleftrightarrow> wf_index s"
  by (simp add: wf_index_def)

lemma wf_index_entry:
  "wf_index s \<Longrightarrow> getEntry c s = Some e \<Longrightarrow> code_ok c \<and> entry_ok (sinstance s) e"
  by (auto simp: wf_index_def getEntry_def entry_ok_def)

lemma pushLine_frame [simp]:
  "shards (pushLine l s) = shards s" "sinstance (pushLine l s) = sinstance s"
  "sprefix (pushLine l s) = sprefix s" "ownName (pushLine l s) = ownName s"
  "tails (pushLine l s) = tails s" "getEntry c (pushLine l s) = getEntry c s"
  "getDirty c (pushLine l s) = getDirty c s" "rows (pushLine l s) = rows s"
  "strayHits (pushLine l s) = strayHits s" "closed (pushLine l s) = closed s"
  "release (pushLine l s) = release s" "aof (pushLine l s) = map_option (Push l) (aof s)"
  by (simp_all add: pushLine_def rows_def)

lemma wf_index_pushLine [simp]: "wf_index (pushLine l s) \<longleftrightarrow> wf_index s"
  by (rule wf_index_cong) simp_all

lemma wf_index_update [simp]:
  "wf_index (s\<lparr>aof := a\<rparr>) \<longleftrightarrow> wf_index s" "wf_index (s\<lparr>tails := t\<rparr>) \<longleftrightarrow> wf_index s"
  "wf_index (s\<lparr>lastPoll := n\<rparr>) \<longleftrightarrow> wf_index s" "wf_index (s\<lparr>closed := b\<rparr>) \<longleftrightarrow> wf_index s"
  by (rule wf_index_cong; simp)+

lemma rows_update [simp]:
  "rows (s\<lparr>aof := a\<rparr>) = rows s" "rows (s\<lparr>tails := t\<rparr>) = rows s"
  "rows (s\<lparr>lastPoll := n\<rparr>) = rows s" "rows (s\<lparr>closed := b\<rparr>) = rows s"
  by (simp_all add: rows_def)

lemma rows_putEntry: "rows (putEntry c e s) = (rows s)(c \<mapsto> rowOf e)"
  by (auto simp: rows_def)

lemma rows_delEntry: "rows (delEntry c s) = (rows s)(c := None)"
  by (auto simp: rows_def)

lemma rows_bumpDirty [simp]: "rows (bumpDirty c s) = rows s"
  by (simp add: rows_def)

section \<open>The log keeps up with the history\<close>

lemma logged_elim:
  assumes "logged d s fs h"
  obtains rs0 rs h0 h1 m where "h = h0 @ h1"
    "fileBytes fs (snapName (sinstance s)) = logBytes lineOf rs0"
    "fileBytes fs (ownName s) @ pending s = logBytes lineOf rs"
    "recs_ok (sinstance s) rs0" "recs_ok (sinstance s) rs" "tableOf rs0 = tableOf h0" "changes rs = h1" "m \<le> length rs"
    "length (logBytes lineOf (take m rs)) \<le> syncedBytes fs (ownName s)"
    "d \<le> length h0 + length (changes (take m rs))"
  using assms unfolding logged_def by blast

lemma logged_intro:
  assumes "h = h0 @ h1" and "fileBytes fs (snapName (sinstance s)) = logBytes lineOf rs0"
    and "fileBytes fs (ownName s) @ pending s = logBytes lineOf rs"
    and "recs_ok (sinstance s) rs0" and "recs_ok (sinstance s) rs" and "tableOf rs0 = tableOf h0" and "changes rs = h1"
    and "m \<le> length rs"
    and "length (logBytes lineOf (take m rs)) \<le> syncedBytes fs (ownName s)"
    and "d \<le> length h0 + length (changes (take m rs))"
  shows "logged d s fs h"
  using assms unfolding logged_def by blast

lemma logged_cong:
  "aof t = aof s \<Longrightarrow> sinstance t = sinstance s \<Longrightarrow> ownName t = ownName s
   \<Longrightarrow> logged d t fs h \<longleftrightarrow> logged d s fs h"
  by (simp add: logged_def pending_def)

lemma logged_update [simp]:
  "logged d (s\<lparr>tails := t\<rparr>) fs h \<longleftrightarrow> logged d s fs h"
  "logged d (s\<lparr>lastPoll := n\<rparr>) fs h \<longleftrightarrow> logged d s fs h"
  "logged d (s\<lparr>closed := b\<rparr>) fs h \<longleftrightarrow> logged d s fs h"
  by (rule logged_cong; simp)+

lemma pending_pushLine: "aof s \<noteq> None \<Longrightarrow> pending (pushLine l s) = pending s @ l @ [NL]"
  by (auto simp: pending_def Push_def)

lemma logged_pushLine:
  assumes "logged d s fs h" and "aof s \<noteq> None" and "rec_ok r" and "owner_ok (sinstance s) r"
  shows "logged d (pushLine (lineOf r) s) fs (if isHit r then h else h @ [r])"
proof -
  from assms(1) obtain rs0 rs h0 h1 m where l: "h = h0 @ h1"
    "fileBytes fs (snapName (sinstance s)) = logBytes lineOf rs0"
    "fileBytes fs (ownName s) @ pending s = logBytes lineOf rs"
    "recs_ok (sinstance s) rs0" "recs_ok (sinstance s) rs" "tableOf rs0 = tableOf h0" "changes rs = h1" "m \<le> length rs"
    "length (logBytes lineOf (take m rs)) \<le> syncedBytes fs (ownName s)"
    "d \<le> length h0 + length (changes (take m rs))"
    by (rule logged_elim)
  show ?thesis
  proof (rule logged_intro [of _ h0 "if isHit r then h1 else h1 @ [r]" _ _ rs0 "rs @ [r]" m])
    show "fileBytes fs (ownName (pushLine (lineOf r) s)) @ pending (pushLine (lineOf r) s)
        = logBytes lineOf (rs @ [r])"
      using l(3) assms(2) by (simp add: pending_pushLine logBytes_append logBytes_Cons)
  qed (use l assms(3,4) in \<open>simp_all add: changes_def\<close>)
qed

lemma fileBytes_fmupd: "fileBytes (fmupd n f fs) m = (if m = n then fbytes f else fileBytes fs m)"
  by (simp add: fileBytes_def)

text \<open>Moving the buffer into the file.\<close>

definition aof_ready :: "bytes \<Rightarrow> Aof \<Rightarrow> fsys \<Rightarrow> bool" where
  "aof_ready n a fs \<longleftrightarrow> aopen a \<and> aio a = goodIO \<and> aPath a = n \<and> (\<exists>f. fmlookup fs n = Some f)"

lemma aofFlush_effect:
  assumes "aof_ready n a fs" and "aofFlush a fs = (a', fs')"
  shows "a' = a\<lparr>abuf := []\<rparr>" and "aof_ready n a' fs'"
    and "fileBytes fs' m = (if m = n then fileBytes fs n @ abuf a else fileBytes fs m)"
    and "fmlookup fs' m = None \<longleftrightarrow> fmlookup fs m = None"
    and "syncedBytes fs' m = syncedBytes fs m"
proof -
  obtain f where f: "fmlookup fs n = Some f" "aopen a" "aPath a = n" "aio a = goodIO"
    using assms(1) by (auto simp: aof_ready_def)
  show a': "a' = a\<lparr>abuf := []\<rparr>"
    using assms(2) f by (cases a) (auto simp: aofFlush_def aofFlushLocked_def writeLog_def split: if_splits)
  show "aof_ready n a' fs'"
    using assms(2) f a'
    by (auto simp: aofFlush_def aofFlushLocked_def aof_ready_def writeLog_def split: if_splits)
  show "fileBytes fs' m = (if m = n then fileBytes fs n @ abuf a else fileBytes fs m)"
    using assms(2) f
    by (auto simp: aofFlush_def aofFlushLocked_def writeLog_def fileBytes_def appendFile_def
        split: if_splits)
  show "fmlookup fs' m = None \<longleftrightarrow> fmlookup fs m = None"
    using assms(2) f
    by (auto simp: aofFlush_def aofFlushLocked_def writeLog_def split: if_splits)
  show "syncedBytes fs' m = syncedBytes fs m"
    using assms(2) f
    by (auto simp: aofFlush_def aofFlushLocked_def writeLog_def syncedBytes_def appendFile_def
        split: if_splits)
qed

lemma alone_cong:
  "(\<And>n. fmlookup fs' n = None \<longleftrightarrow> fmlookup fs n = None) \<Longrightarrow> alone i fs' \<longleftrightarrow> alone i fs"
  by (simp add: alone_def)

lemma idle_tails_cong:
  "(\<And>n. fmlookup fs' n = None \<longleftrightarrow> fmlookup fs n = None) \<Longrightarrow> tails s' = tails s
   \<Longrightarrow> idle_tails fs' s' \<longleftrightarrow> idle_tails fs s"
  by (simp add: idle_tails_def)

lemma opened_aof: "opened i s fs \<Longrightarrow> \<exists>a. aof s = Some a \<and> aof_ready (logName i) a fs"
  by (auto simp: opened_def aof_ready_def)

text \<open>Everything \<open>opened\<close> looks at in the store, apart from the log handle.\<close>

definition same_id :: "Store \<Rightarrow> Store \<Rightarrow> bool" where
  "same_id s t \<longleftrightarrow> sinstance t = sinstance s \<and> sprefix t = sprefix s \<and> ownName t = ownName s
                   \<and> tails t = tails s \<and> release t = release s"

lemma opened_same_id:
  assumes "opened i s fs" and "same_id s t" and "aof t = Some a" and "aof_ready (logName i) a fs'"
    and "\<And>n. fmlookup fs' n = None \<longleftrightarrow> fmlookup fs n = None"
  shows "opened i t fs'"
  using assms(1-4) alone_cong [of fs' fs i, OF assms(5)] idle_tails_cong [of fs' fs t s, OF assms(5)]
  by (auto simp: opened_def same_id_def aof_ready_def)

lemma aof_ready_Push [simp]: "aof_ready n (Push l a) fs \<longleftrightarrow> aof_ready n a fs"
  by (simp add: aof_ready_def Push_def)

lemma opened_pushLine: "opened i s fs \<Longrightarrow> opened i (pushLine l s) fs"
  using opened_aof [of i s fs]
  by (auto intro!: opened_same_id [of i s fs] simp: same_id_def)

lemma opened_putEntry: "opened i s fs \<Longrightarrow> opened i (putEntry c e s) fs"
  using opened_aof [of i s fs] by (auto intro!: opened_same_id [of i s fs] simp: same_id_def)

lemma opened_delEntry: "opened i s fs \<Longrightarrow> opened i (delEntry c s) fs"
  using opened_aof [of i s fs] by (auto intro!: opened_same_id [of i s fs] simp: same_id_def)

lemma opened_bumpDirty: "opened i s fs \<Longrightarrow> opened i (bumpDirty c s) fs"
  using opened_aof [of i s fs] by (auto intro!: opened_same_id [of i s fs] simp: same_id_def)

lemma sinv_flush:
  assumes "sinv i d s fs h" and "aof s = Some a" and "aofFlush a fs = (a', fs')"
  shows "sinv i d (s\<lparr>aof := Some a'\<rparr>) fs' h"
proof -
  have inv: "opened i s fs" "wf_index s" "logged d s fs h" "rows s = tableOf h"
    using assms(1) by (simp_all add: sinv_def)
  have ready: "aof_ready (logName i) a fs" using opened_aof [OF inv(1)] assms(2) by simp
  note eff = aofFlush_effect [OF ready assms(3)]
  have "opened i (s\<lparr>aof := Some a'\<rparr>) fs'"
    by (rule opened_same_id [OF inv(1)]) (use eff in \<open>simp_all add: same_id_def\<close>)
  moreover have "fileBytes fs' (ownName s) @ pending (s\<lparr>aof := Some a'\<rparr>)
      = fileBytes fs (ownName s) @ pending s"
    using assms(2) inv(1) by (simp add: pending_def eff opened_def)
  then have "logged d (s\<lparr>aof := Some a'\<rparr>) fs' h"
    using inv(3) by (simp add: logged_def eff)
  ultimately show ?thesis using inv(2,4) by (simp add: sinv_def)
qed

section \<open>Every operation keeps the invariant\<close>

lemma sinvI:
  "opened i s fs \<Longrightarrow> wf_index s \<Longrightarrow> logged d s fs h \<Longrightarrow> rows s = tableOf h \<Longrightarrow> sinv i d s fs h"
  by (simp add: sinv_def)

text \<open>A table change: the entry is stored or deleted, and its record queued.\<close>

lemma sinv_put_push:
  assumes inv: "sinv i d s fs h" and "code_ok c" and "entry_ok i e" and "in_i64 n"
  shows "sinv i d (pushLine (rowLine c (e_u e) (e_a e) (e_e e) i n) (putEntry c e s)) fs
           (h @ [Row c (e_u e) (e_a e) (e_e e) i n])"
proof -
  let ?r = "Row c (e_u e) (e_a e) (e_e e) i n"
  have o: "opened i s fs" and w: "wf_index s" and l: "logged d s fs h" and r: "rows s = tableOf h"
    using inv by (simp_all add: sinv_def)
  have i: "sinstance s = i" "in_i32 i" using o in_i32_instance by (auto simp: opened_def)
  have "logged d (putEntry c e s) fs h" using l by (simp add: logged_cong [of "putEntry c e s" s])
  then have "logged d (pushLine (lineOf ?r) (putEntry c e s)) fs (if isHit ?r then h else h @ [?r])"
    by (rule logged_pushLine)
       (use opened_aof [OF o] assms(2-4) i in \<open>auto simp: entry_ok_def in_i32_in_i64\<close>)
  moreover have "rows (putEntry c e s) = tableOf (h @ [?r])"
    using r assms(3) by (simp add: rows_putEntry tableOf_snoc rowOf_def entry_ok_def)
  ultimately show ?thesis
    using o w assms(2,3) i by (intro sinvI) (simp_all add: opened_pushLine opened_putEntry wf_index_putEntry)
qed

lemma sinv_del_push:
  assumes inv: "sinv i d s fs h" and "code_ok c"
  shows "sinv i d (pushLine (delLine c) (delEntry c s)) fs (h @ [Del c])"
proof -
  have o: "opened i s fs" and w: "wf_index s" and l: "logged d s fs h" and r: "rows s = tableOf h"
    using inv by (simp_all add: sinv_def)
  have "logged d (delEntry c s) fs h" using l by (simp add: logged_cong [of "delEntry c s" s])
  then have "logged d (pushLine (lineOf (Del c)) (delEntry c s)) fs
      (if isHit (Del c) then h else h @ [Del c])"
    by (rule logged_pushLine) (use opened_aof [OF o] assms(2) in auto)
  moreover have "rows (delEntry c s) = tableOf (h @ [Del c])"
    using r by (simp add: rows_delEntry tableOf_snoc)
  ultimately show ?thesis
    using o w by (intro sinvI) (simp_all add: opened_pushLine opened_delEntry wf_index_delEntry)
qed

text \<open>Queueing a hit delta changes neither table nor history.\<close>

lemma sinv_hit_push:
  assumes inv: "sinv i d s fs h" and "code_ok c" and "in_i64 x"
  shows "sinv i d (pushLine (hitLine c x i) s) fs h"
proof -
  have o: "opened i s fs" and w: "wf_index s" and l: "logged d s fs h" and r: "rows s = tableOf h"
    using inv by (simp_all add: sinv_def)
  have "in_i64 i" using o in_i32_instance in_i32_in_i64 by (auto simp: opened_def)
  with l have "logged d (pushLine (lineOf (Hit c x i)) s) fs (if isHit (Hit c x i) then h else h @ [Hit c x i])"
    by (intro logged_pushLine) (use opened_aof [OF o] assms(2,3) in auto)
  with o w r show ?thesis by (intro sinvI) (simp_all add: opened_pushLine)
qed

lemma sinv_flushIfLarge:
  assumes "sinv i d s fs h" and "flushIfLarge s fs = (s', fs')"
  shows "sinv i d s' fs' h"
  using assms sinv_flush [OF assms(1)]
  by (auto simp: flushIfLarge_def split: option.splits if_splits prod.splits)

lemma sinv_insertRow:
  assumes "sinv i d s fs h" and "code_ok c" and "in_i64 now" and "in_i64 exp"
  shows "sinv i d (insertRow c url now exp s) fs (h @ [Row c url now exp i 0])"
proof -
  have i: "sinstance s = i" "in_i32 i"
    using assms(1) in_i32_instance by (auto simp: sinv_def opened_def)
  then have "entry_ok i (newEntry url now exp s)"
    using assms(3,4) by (simp add: entry_ok_def newEntry_def i32_id)
  from sinv_put_push [OF assms(1,2) this, of 0] i show ?thesis
    by (simp add: insertRow_def newEntry_def)
qed

lemma code_ok_generated:
  assumes "0 \<le> i" and "i < 62"
  shows "code_ok ((ALPHABET ! nat i) # randSuffix d)"
proof -
  have "set ((ALPHABET ! nat i) # randSuffix d) \<subseteq> set ALPHABET"
    using assms randSuffix_ALPHABET by simp
  moreover have "DQ \<notin> set ALPHABET" "BSL \<notin> set ALPHABET" "NL \<notin> set ALPHABET"
    by (simp_all add: ALPHABET_def)
  ultimately show ?thesis unfolding code_ok_def plain_def by blast
qed

lemma code_ok_freshCode:
  "opened i s fs \<Longrightarrow> freshCode s ds = Some code \<Longrightarrow> code_ok code"
  by (auto dest!: freshCode_shape simp: opened_def code_ok_generated)

lemma sinv_Shorten:
  assumes inv: "sinv i d s fs h"
    and sh: "Shorten draws now url al hasAlias ttl fs s = Some (code, s', fs')"
    and "hasAlias \<Longrightarrow> code_ok al" and "in_i64 now"
  shows "sinv i d s' fs' (h @ (if code = [] then [] else [Row code url now (expiry now ttl) i 0]))"
proof -
  have o: "opened i s fs" using inv by (simp add: sinv_def)
  have st: "sinv i d s' fs' (h @ (if c = [] then [] else [Row c url now (expiry now ttl) i 0]))"
    if "code_ok c" "flushIfLarge (insertRow c url now (expiry now ttl) s) fs = (s', fs')" for c
    using sinv_flushIfLarge [OF sinv_insertRow [OF inv that(1) assms(4) in_i64_expiry] that(2)] that(1)
    by (simp add: code_ok_def)
  show ?thesis
  proof (cases hasAlias)
    case True
    then show ?thesis
      using sh inv assms(3) st [of al]
      by (cases "getEntry al s") (auto simp: Shorten_def Let_def split: prod.splits)
  next
    case False
    then obtain c where "freshCode s draws = Some c" "code = c"
      "flushIfLarge (insertRow c url now (expiry now ttl) s) fs = (s', fs')"
      using sh by (auto simp: Shorten_def Let_def split: prod.splits)
    then show ?thesis using st code_ok_freshCode [OF o] by blast
  qed
qed

lemma sinv_shortenManyLoop:
  assumes "sinv i d s fs h" and "in_i64 now" and "in_i64 exp"
    and "shortenManyLoop rnd draws now exp k urls s = Some (codes, s')"
  shows "sinv i d s' fs (h @ map2 (\<lambda>c u. Row c u now exp i 0) codes urls)"
  using assms
proof (induction urls arbitrary: k s codes h)
  case Nil
  then show ?case by simp
next
  case (Cons u us)
  then obtain code codes' where c: "freshCode s (drop (k * (codeLen - 1)) rnd # draws k) = Some code"
    "shortenManyLoop rnd draws now exp (Suc k) us (insertRow code u now exp s) = Some (codes', s')"
    "codes = code # codes'"
    by (auto simp del: freshCode.simps split: option.splits)
  have "opened i s fs" using Cons.prems(1) by (simp add: sinv_def)
  then have "code_ok code" using c(1) by (rule code_ok_freshCode)
  from sinv_insertRow [OF Cons.prems(1) this Cons.prems(2,3), of u]
  have "sinv i d s' fs ((h @ [Row code u now exp i 0]) @ map2 (\<lambda>c u. Row c u now exp i 0) codes' us)"
    using Cons.IH Cons.prems(2,3) c(2) by blast
  then show ?case using c(3) by simp
qed

lemma sinv_ShortenMany:
  assumes "sinv i d s fs h" and "in_i64 now"
    and "ShortenMany rnd draws now urls ttl fs s = Some (codes, s', fs')"
  shows "sinv i d s' fs' (h @ map2 (\<lambda>c u. Row c u now (expiry now ttl) i 0) codes urls)"
proof -
  from assms(3) obtain s1 where
    "shortenManyLoop rnd draws now (expiry now ttl) 0 urls s = Some (codes, s1)"
    "flushIfLarge s1 fs = (s', fs')"
    by (auto simp: ShortenMany_def split: prod.splits)
  then show ?thesis
    using sinv_shortenManyLoop [OF assms(1,2) in_i64_expiry] sinv_flushIfLarge by blast
qed

text \<open>The record \<open>Update\<close> and \<open>Remove\<close> add to the history, as a function of the table.\<close>

definition updateRecs :: "int \<Rightarrow> int \<Rightarrow> bytes \<Rightarrow> bytes \<Rightarrow> int \<Rightarrow> bool \<Rightarrow> link_table \<Rightarrow> logrec list" where
  "updateRecs i now code url ttl hasTTL m =
     (case m code of
        None \<Rightarrow> []
      | Some (u, a, e, j) \<Rightarrow> [Row code url a (if hasTTL then expiry now ttl else e) i 0])"

definition removeRecs :: "bytes \<Rightarrow> link_table \<Rightarrow> logrec list" where
  "removeRecs code m = (case m code of None \<Rightarrow> [] | Some _ \<Rightarrow> [Del code])"

lemma rows_Some: "getEntry c s = Some e \<Longrightarrow> rows s c = Some (rowOf e)"
  by (simp add: rows_def)

lemma rows_None: "getEntry c s = None \<Longrightarrow> rows s c = None"
  by (simp add: rows_def)

lemma sinv_Update:
  assumes inv: "sinv i d s fs h" and up: "Update now code url ttl hasTTL s = (r, s')"
  shows "sinv i d s' fs (h @ updateRecs i now code url ttl hasTTL (tableOf h))"
    and "r = (if tableOf h code = None then MutMissing else MutOK)"
proof -
  have "sinv i d s' fs (h @ updateRecs i now code url ttl hasTTL (rows s))
        \<and> r = (if rows s code = None then MutMissing else MutOK)"
  proof (cases "getEntry code s")
    case None
    then show ?thesis using inv up by (simp add: Update_def updateRecs_def rows_None)
  next
    case (Some e)
    have i: "sinstance s = i" and w: "wf_index s" using inv by (auto simp: sinv_def opened_def)
    have e: "code_ok code" "entry_ok i e" using wf_index_entry [OF w Some] i by simp_all
    let ?exp = "if hasTTL then expiry now ttl else e_e e"
    have "entry_ok i (e\<lparr>e_u := url, e_e := ?exp\<rparr>)" using e(2) by (simp add: entry_ok_def)
    from sinv_put_push [OF inv e(1) this, of 0] show ?thesis
      using Some up e(2) i
      by (auto simp: Update_def updateRecs_def rows_Some rowOf_def entry_ok_def Let_def)
  qed
  moreover have "rows s = tableOf h" using inv by (simp add: sinv_def)
  ultimately show "sinv i d s' fs (h @ updateRecs i now code url ttl hasTTL (tableOf h))"
    and "r = (if tableOf h code = None then MutMissing else MutOK)" by simp_all
qed

lemma sinv_Remove:
  assumes inv: "sinv i d s fs h" and rm: "Remove code s = (r, s')"
  shows "sinv i d s' fs (h @ removeRecs code (tableOf h))"
    and "r = (if tableOf h code = None then MutMissing else MutOK)"
proof -
  have "sinv i d s' fs (h @ removeRecs code (rows s))
        \<and> r = (if rows s code = None then MutMissing else MutOK)"
  proof (cases "getEntry code s")
    case None
    then show ?thesis using inv rm by (simp add: Remove_def removeRecs_def rows_None)
  next
    case (Some e)
    have i: "sinstance s = i" and w: "wf_index s" using inv by (auto simp: sinv_def opened_def)
    have e: "code_ok code" "entry_ok i e" using wf_index_entry [OF w Some] i by simp_all
    from sinv_del_push [OF inv e(1)] show ?thesis
      using Some rm e(2) i by (simp add: Remove_def removeRecs_def rows_Some entry_ok_def)
  qed
  moreover have "rows s = tableOf h" using inv by (simp add: sinv_def)
  ultimately show "sinv i d s' fs (h @ removeRecs code (tableOf h))"
    and "r = (if tableOf h code = None then MutMissing else MutOK)" by simp_all
qed

section \<open>Reading while alone\<close>

lemma readTail_idle: "idle_tails fs s \<Longrightarrow> readTail g fs n s = Some s"
proof (cases "fmlookup (tails s) n")
  case (Some t)
  assume "idle_tails fs s"
  with Some have t: "t = TailFromStart n" "fmlookup fs n = None" by (auto simp: idle_tails_def)
  have "fmupd n t (tails s) = tails s" using Some by (intro fmap_ext) auto
  with Some t show ?thesis
    by (simp add: readTail_def ReadNew_def TailFromStart_def fileSize_def Let_def)
qed (simp add: readTail_def)

lemma foldOpt_readTail_idle: "idle_tails fs s \<Longrightarrow> foldOpt (readTail g fs) ns s = Some s"
  by (induction ns) (simp_all add: readTail_idle)

lemma sinv_lastPoll: "sinv i d s fs h \<Longrightarrow> sinv i d (s\<lparr>lastPoll := n\<rparr>) fs h"
  by (simp add: sinv_def opened_def idle_tails_def)

lemma PollTails_alone:
  "sinv i d s fs h \<Longrightarrow> PollTails g now fs s = Some (s\<lparr>lastPoll := now\<rparr>)"
  by (auto simp: PollTails_def sinv_def opened_def ShardFiles_alone foldOpt_readTail_idle)

lemma sinv_addTail:
  assumes "sinv i d s fs h" and "0 \<le> j" and "j < 62" and "j \<noteq> i"
  shows "sinv i d (addTail (logName j) s) fs h" and "shards (addTail (logName j) s) = shards s"
proof -
  have "0 \<le> i" "i < 62" "alone i fs" using assms(1) by (auto simp: sinv_def opened_def)
  then have "fmlookup fs (logName j) = None"
    using assms(2-4) logName_inj [of j i] logName_shape [of j]
    by (auto simp: alone_def in_i64_def)
  then show "sinv i d (addTail (logName j) s) fs h"
    using assms(1) logName_shape [of j]
    by (auto simp: addTail_def sinv_def opened_def idle_tails_def split: option.split)
  show "shards (addTail (logName j) s) = shards s" by (simp add: addTail_def split: option.split)
qed

lemma tailOwner_alone:
  assumes "sinv i d s fs h"
  shows "\<exists>t. tailOwner g code fs s = Some t \<and> sinv i d t fs h \<and> shards t = shards s"
proof (cases code)
  case (Cons c cs)
  have i: "sinstance s = i" using assms by (simp add: sinv_def opened_def)
  show ?thesis
  proof (cases "alphaIdx c < 0 \<or> alphaIdx c = i \<or> aof s = None")
    case False
    then have "0 \<le> alphaIdx c" "alphaIdx c < 62" using alphaIdx_bounds [of c] by auto
    note s = sinv_addTail [OF assms this] 
    have "idle_tails fs (addTail (logName (alphaIdx c)) s)"
      using s(1) False by (simp add: sinv_def opened_def)
    then show ?thesis using s Cons False i by (auto simp: tailOwner_def readTail_idle Let_def)
  qed (use assms Cons i in \<open>auto simp: tailOwner_def Let_def\<close>)
qed (use assms in \<open>simp add: tailOwner_def\<close>)

lemma getEntry_shards: "shards t = shards s \<Longrightarrow> getEntry c t = getEntry c s"
  by (simp add: getEntry_def)

lemma findEntry_alone:
  assumes "sinv i d s fs h"
  shows "\<exists>t. findEntry g clk code fs s = Some (getEntry code s, t) \<and> sinv i d t fs h
             \<and> shards t = shards s"
proof (cases "getEntry code s = None \<and> aof s \<noteq> None")
  case True
  obtain t where t: "tailOwner g code fs s = Some t" "sinv i d t fs h" "shards t = shards s"
    using tailOwner_alone [OF assms] by blast
  note p = sinv_lastPoll [OF t(2)]
  show ?thesis
    using True t p PollTails_alone [OF p] sinv_lastPoll [OF p] getEntry_shards [OF t(3), of code]
      getEntry_shards [of "t\<lparr>lastPoll := clk 1\<rparr>" s code]
    by (simp add: findEntry_def lazyPoll_def)
qed (use assms in \<open>auto simp: findEntry_def\<close>)

lemma entry_ok_hit:
  "entry_ok i e \<Longrightarrow> entry_ok i (e\<lparr>e_h := i64 x, e_oh := i64 y\<rparr>)"
  by (simp add: entry_ok_def)

lemma sinv_countHit:
  assumes inv: "sinv i d s fs h" and e: "getEntry code s = Some e"
  shows "sinv i d (countHit code e s) fs h"
proof -
  let ?e = "e\<lparr>e_h := i64 (e_h e + 1), e_oh := i64 (e_oh e + 1)\<rparr>"
  have o: "opened i s fs" and w: "wf_index s" and l: "logged d s fs h" and r: "rows s = tableOf h"
    using inv by (simp_all add: sinv_def)
  have ok: "code_ok code" "entry_ok (sinstance s) e" using wf_index_entry [OF w e] by simp_all
  have "rows (putEntry code ?e s) = rows s"
    using e by (simp add: rows_putEntry rowOf_def fun_upd_idem rows_Some)
  moreover have "wf_index (bumpDirty code (putEntry code ?e s))"
    using w ok by (intro wf_index_bumpDirty wf_index_putEntry entry_ok_hit) simp_all
  moreover have "logged d (countHit code e s) fs h"
    using l by (simp add: countHit_def logged_cong [of "bumpDirty code (putEntry code ?e s)" s])
  ultimately show ?thesis
    using o r unfolding countHit_def
    by (intro sinvI opened_bumpDirty opened_putEntry) (simp_all add: countHit_def)
qed

text \<open>While alone, \<open>Resolve\<close> answers from the table alone.\<close>

definition tableResolve :: "int \<Rightarrow> bytes \<Rightarrow> link_table \<Rightarrow> bytes option" where
  "tableResolve now code m =
     (case m code of
        None \<Rightarrow> None
      | Some (u, a, e, j) \<Rightarrow> if e \<noteq> 0 \<and> e \<le> now then None else Some u)"

lemma sinv_Resolve:
  assumes inv: "sinv i d s fs h"
  shows "\<exists>s'. Resolve g track clk code fs s = Some (tableResolve (clk 2) code (tableOf h), s')
              \<and> sinv i d s' fs h"
proof -
  obtain t where t: "findEntry g clk code fs s = Some (getEntry code s, t)" "sinv i d t fs h"
    "shards t = shards s" using findEntry_alone [OF inv] by blast
  have r: "tableOf h = rows s" using inv by (simp add: sinv_def)
  show ?thesis
  proof (cases "getEntry code s")
    case None
    then show ?thesis using t by (simp add: Resolve_def tableResolve_def r rows_None)
  next
    case (Some e)
    then have "getEntry code t = Some e" using getEntry_shards [OF t(3), of code] by simp
    then have c: "sinv i d (countHit code e t) fs h" by (rule sinv_countHit [OF t(2)])
    have "tableResolve (clk 2) code (tableOf h) = (if expired (clk 2) e then None else Some (e_u e))"
      using Some by (simp add: tableResolve_def r rows_Some rowOf_def expired_def)
    then show ?thesis using t(1,2) Some c by (simp add: Resolve_def)
  qed
qed

section \<open>Flush and fsync\<close>

lemma sinv_pushHits:
  assumes "sinv i d s fs h" and "\<And>c x. fmlookup m c = Some x \<Longrightarrow> code_ok c \<and> in_i64 x"
  shows "sinv i d (fold (\<lambda>c s. case fmlookup m c of None \<Rightarrow> s
                                | Some x \<Rightarrow> pushLine (hitLine c x (sinstance s)) s) ks s) fs h"
  using assms(1)
proof (induction ks arbitrary: s)
  case (Cons k ks)
  have "sinstance s = i" using Cons.prems by (simp add: sinv_def opened_def)
  then show ?case
    using Cons assms(2) sinv_hit_push [OF Cons.prems] by (cases "fmlookup m k") simp_all
qed simp

lemma sinv_shards:
  assumes "sinv i d s fs h" and "wf_index (s\<lparr>shards := X\<rparr>)" and "rows (s\<lparr>shards := X\<rparr>) = rows s"
  shows "sinv i d (s\<lparr>shards := X\<rparr>) fs h"
  using assms
  by (simp add: sinv_def opened_def idle_tails_def logged_cong [of "s\<lparr>shards := X\<rparr>" s])

lemma wf_index_clearDirty:
  "wf_index s \<Longrightarrow> wf_index (s\<lparr>shards := (shards s)(j := (shards s j)\<lparr>sh_dirty := fmempty\<rparr>)\<rparr>)"
  by (auto simp: wf_index_def split: if_splits)

lemma rows_clearDirty [simp]:
  "rows (s\<lparr>shards := (shards s)(j := (shards s j)\<lparr>sh_dirty := fmempty\<rparr>)\<rparr>) = rows s"
  by (auto simp: rows_def getEntry_def)

lemma sinv_flushShard:
  assumes "sinv i d s fs h"
  shows "sinv i d (flushShard g j s) fs h"
proof -
  have "wf_index s" using assms by (simp add: sinv_def)
  then have ok: "code_ok c \<and> in_i64 x" if "fmlookup (sh_dirty (shards s j)) c = Some x" for c x
    using that by (auto simp: wf_index_def)
  have p: "sinv i d (fold (\<lambda>c t. case fmlookup (sh_dirty (shards s j)) c of None \<Rightarrow> t
      | Some x \<Rightarrow> pushLine (hitLine c x (sinstance t)) t) (ordDirty g (sh_dirty (shards s j))) s) fs h"
    using assms ok by (rule sinv_pushHits)
  show ?thesis
    unfolding flushShard_def Let_def
    by (rule sinv_shards [OF p]) (use p in \<open>simp_all add: wf_index_clearDirty sinv_def\<close>)
qed

lemma sinv_fold:
  "(\<And>j s. sinv i d s fs h \<Longrightarrow> sinv i d (f j s) fs h) \<Longrightarrow> sinv i d s fs h
   \<Longrightarrow> sinv i d (fold f js s) fs h"
  by (induction js arbitrary: s) simp_all

lemma sinv_flushLocked:
  assumes "sinv i d s fs h" and "flushLocked g fs s = (s', fs')"
  shows "sinv i d s' fs' h"
proof -
  have "sinv i d (fold (flushShard g) [0..<numShards] s) fs h"
    by (rule sinv_fold) (use assms(1) in \<open>simp_all add: sinv_flushShard\<close>)
  from sinv_flush [OF this] this assms show ?thesis
    by (auto simp: flushLocked_def Let_def split: option.splits prod.splits)
qed

lemma sinv_Flush:
  assumes "sinv i d s fs h" and "Flush g fs s = (s', fs')"
  shows "sinv i d s' fs' h"
proof -
  have "sinv i d (fold (\<lambda>i s. if 0 < maplen (sh_dirty (shards s i)) then flushShard g i s else s)
                    [0..<numShards] s) fs h"
    by (rule sinv_fold) (use assms(1) in \<open>simp_all add: sinv_flushShard\<close>)
  from sinv_flush [OF this] this assms show ?thesis
    by (auto simp: Flush_def Let_def split: option.splits prod.splits)
qed

text \<open>After an fsync the whole history is durable.\<close>

lemma sinv_Sync:
  assumes inv: "sinv i d s fs h" and a: "aof s = Some a" and "Sync a fs = (a', fs')"
  shows "sinv i (length h) (s\<lparr>aof := Some a'\<rparr>) fs' h"
    and "fileBytes fs' (ownName s) = fileBytes fs (ownName s) @ pending s"
proof -
  have o: "opened i s fs" using inv by (simp add: sinv_def)
  then have ready: "aof_ready (logName i) a fs" and n: "ownName s = logName i"
    using opened_aof [OF o] a by (auto simp: opened_def)
  obtain fs1 where fl: "aofFlush a fs = (a\<lparr>abuf := []\<rparr>, fs1)"
    using aofFlush_effect(1) [OF ready] by (cases "aofFlush a fs") auto
  note eff = aofFlush_effect [OF ready fl]
  obtain f where f: "fmlookup fs1 (logName i) = Some f" "aopen a" "aPath a = logName i" "aio a = goodIO"
    using eff(2) by (auto simp: aof_ready_def)
  have "a\<lparr>abuf := [], aio := goodIO\<rparr> = a\<lparr>abuf := []\<rparr>" using f(4) by (cases a) simp
  then have sy: "a' = a\<lparr>abuf := []\<rparr>" "fs' = fmupd (logName i) (syncFile f) fs1"
    using assms(3) fl f by (auto simp: Sync_def aofFlush_def)
  have inv1: "sinv i d (s\<lparr>aof := Some a'\<rparr>) fs1 h" using sinv_flush [OF inv a fl] sy(1) by simp
  have look: "fmlookup fs' m = None \<longleftrightarrow> fmlookup fs1 m = None" for m using sy(2) f(1) by auto
  have bytes: "fileBytes fs' m = fileBytes fs1 m" for m
    using sy(2) f(1) by (auto simp: fileBytes_def syncFile_def)
  have all: "syncedBytes fs' (logName i) = length (fileBytes fs' (logName i))"
    using sy(2) by (simp add: fileBytes_def syncedBytes_def syncFile_def)
  have "logged d (s\<lparr>aof := Some a'\<rparr>) fs1 h" using inv1 by (simp add: sinv_def)
  then obtain rs0 rs h0 h1 m where l: "h = h0 @ h1"
    "fileBytes fs1 (snapName (sinstance s)) = logBytes lineOf rs0"
    "fileBytes fs1 (logName i) @ [] = logBytes lineOf rs"
    "recs_ok (sinstance s) rs0" "recs_ok (sinstance s) rs" "tableOf rs0 = tableOf h0" "changes rs = h1"
    by (rule logged_elim) (use sy(1) n in \<open>simp add: pending_def\<close>)
  have "logged (length h) (s\<lparr>aof := Some a'\<rparr>) fs' h"
    by (rule logged_intro [of h h0 h1 _ _ rs0 rs "length rs"])
       (use l bytes all n sy(1) in \<open>simp_all add: pending_def\<close>)
  moreover have "opened i (s\<lparr>aof := Some a'\<rparr>) fs'"
    by (rule opened_same_id [of i "s\<lparr>aof := Some a'\<rparr>" fs1 _ a'])
       (use inv1 look f sy(1) in \<open>simp_all add: sinv_def same_id_def aof_ready_def sy(2)\<close>)
  ultimately show "sinv i (length h) (s\<lparr>aof := Some a'\<rparr>) fs' h" using inv1 by (simp add: sinv_def)
  show "fileBytes fs' (ownName s) = fileBytes fs (ownName s) @ pending s"
    using bytes eff(3) [of "logName i"] n a by (simp add: pending_def)
qed

lemma sinv_syncTick:
  assumes "sinv i d s fs h" and "syncTick fs s = (s', fs')"
  shows "sinv i (length h) s' fs' h"
  using assms sinv_Sync(1) [OF assms(1)] opened_aof [of i s fs]
  by (auto simp: syncTick_def sinv_def split: option.splits prod.splits)

section \<open>Compaction\<close>

definition snapRecs :: "gort \<Rightarrow> Store \<Rightarrow> nat \<Rightarrow> logrec list" where
  "snapRecs g s j =
     concat (map (\<lambda>c. case fmlookup (sh_data (shards s j)) c of
                        None \<Rightarrow> []
                      | Some e \<Rightarrow> if e_i e = sinstance s
                                  then [Row c (e_u e) (e_a e) (e_e e) (e_i e) (e_oh e)] else [])
               (ordData g (sh_data (shards s j))))"

lemma logBytes_concat: "logBytes line (concat rss) = concat (map (logBytes line) rss)"
  by (induction rss) (simp_all add: logBytes_append)

lemma concat_concat: "concat (concat xss) = concat (map concat xss)"
  by (induction xss) simp_all

lemma snapShard_logBytes: "concat (snapShard g s j) = logBytes lineOf (snapRecs g s j)"
  unfolding snapShard_def snapRecs_def logBytes_concat concat_concat map_map comp_def
  by (rule arg_cong [where f = concat])
     (auto intro!: map_cong simp: logBytes_Cons split: option.split)

text \<open>A list of rows that all agree with a table and mention each of its codes builds that table.\<close>

lemma fold_rowStep_agree:
  assumes "\<And>r. r \<in> set rs \<Longrightarrow> \<exists>c u a e i n. r = Row c u a e i n \<and> t c = Some (u, a, e, i)"
  shows "fold rowStep rs m c = (if \<exists>u a e i n. Row c u a e i n \<in> set rs then t c else m c)"
  using assms
proof (induction rs arbitrary: m)
  case (Cons r rs)
  obtain c' u a e i n where r: "r = Row c' u a e i n" "t c' = Some (u, a, e, i)"
    using Cons.prems [of r] by auto
  have "fold rowStep (r # rs) m c
      = (if \<exists>u a e i n. Row c u a e i n \<in> set rs then t c else (m(c' \<mapsto> (u, a, e, i))) c)"
    using Cons.IH Cons.prems r(1) by simp
  then show ?case using r by (cases "c = c'") auto
qed simp

lemma tableOf_agree:
  assumes "\<And>r. r \<in> set rs \<Longrightarrow> \<exists>c u a e i n. r = Row c u a e i n \<and> t c = Some (u, a, e, i)"
    and "\<And>c. t c \<noteq> None \<Longrightarrow> \<exists>u a e i n. Row c u a e i n \<in> set rs"
  shows "tableOf rs = t"
proof
  fix c
  show "tableOf rs c = t c"
    using fold_rowStep_agree [OF assms(1), of rs Map.empty c] assms(2) [of c]
    by (cases "t c") (auto simp: tableOf_def)
qed

lemma snapRecs_iff:
  assumes "rt_ok g" and "wf_index s"
  shows "r \<in> set (snapRecs g s j) \<longleftrightarrow>
     (\<exists>c e. getEntry c s = Some e \<and> j = shardOf c
            \<and> r = Row c (e_u e) (e_a e) (e_e e) (e_i e) (e_oh e))"
proof -
  let ?m = "sh_data (shards s j)"
  have "r \<in> set (snapRecs g s j) \<longleftrightarrow> (\<exists>c \<in> set (ordData g ?m). \<exists>e. fmlookup ?m c = Some e
      \<and> e_i e = sinstance s \<and> r = Row c (e_u e) (e_a e) (e_e e) (e_i e) (e_oh e))"
    unfolding snapRecs_def set_concat set_map image_image UN_iff
  proof (rule bex_cong [OF refl])
    fix c
    show "r \<in> set (case fmlookup ?m c of None \<Rightarrow> []
            | Some e \<Rightarrow> if e_i e = sinstance s then [Row c (e_u e) (e_a e) (e_e e) (e_i e) (e_oh e)] else [])
          \<longleftrightarrow> (\<exists>e. fmlookup ?m c = Some e
            \<and> e_i e = sinstance s \<and> r = Row c (e_u e) (e_a e) (e_e e) (e_i e) (e_oh e))"
      by (cases "fmlookup ?m c") auto
  qed
  also have "\<dots> \<longleftrightarrow> (\<exists>c e. fmlookup ?m c = Some e
      \<and> e_i e = sinstance s \<and> r = Row c (e_u e) (e_a e) (e_e e) (e_i e) (e_oh e))"
    using assms(1) iter_order_mem [of ?m "ordData g ?m"] by (auto simp: rt_ok_def)
  also have "\<dots> \<longleftrightarrow> (\<exists>c e. getEntry c s = Some e \<and> j = shardOf c
      \<and> r = Row c (e_u e) (e_a e) (e_e e) (e_i e) (e_oh e))"
    using assms(2) unfolding wf_index_def getEntry_def by metis
  finally show ?thesis .
qed

lemma snapshot_table:
  assumes "rt_ok g" and "wf_index s" and "0 \<le> sinstance s" and "sinstance s < 62"
  defines "rs \<equiv> concat (map (snapRecs g s) [0..<numShards])"
  shows "tableOf rs = rows s" and "recs_ok (sinstance s) rs"
proof -
  have rs: "r \<in> set rs \<longleftrightarrow> (\<exists>c e. getEntry c s = Some e
      \<and> r = Row c (e_u e) (e_a e) (e_e e) (e_i e) (e_oh e))" for r
    by (auto simp: rs_def snapRecs_iff [OF assms(1,2)])
  show "tableOf rs = rows s"
  proof (rule tableOf_agree)
    fix c assume "rows s c \<noteq> None"
    then show "\<exists>u a e i n. Row c u a e i n \<in> set rs" by (auto simp: rs rows_def)
  qed (auto simp: rs rows_def rowOf_def)
  show "recs_ok (sinstance s) rs"
    unfolding recs_ok_def list_all_iff
    using assms(3,4) in_i32_instance in_i32_in_i64 wf_index_entry [OF assms(2)]
    by (auto simp: rs entry_ok_def)
qed

lemma flushLocked_effect:
  assumes "sinv i d s fs h" and "flushLocked g fs s = (s', fs')"
  shows "pending s' = []" and "fmlookup fs' n = None \<longleftrightarrow> fmlookup fs n = None"
proof -
  let ?t = "fold (flushShard g) [0..<numShards] s"
  have t: "sinv i d ?t fs h"
    by (rule sinv_fold) (use assms(1) in \<open>simp_all add: sinv_flushShard\<close>)
  then obtain a where a: "aof ?t = Some a" "aof_ready (logName i) a fs"
    using opened_aof [of i ?t fs] by (auto simp: sinv_def)
  obtain a' fs2 where fl: "aofFlush a fs = (a', fs2)" by fastforce
  have "aof s \<noteq> None" using assms(1) by (auto simp: sinv_def opened_def)
  then show "pending s' = []" and "fmlookup fs' n = None \<longleftrightarrow> fmlookup fs n = None"
    using assms(2) a fl aofFlush_effect(1,4) [OF a(2) fl]
    by (auto simp: flushLocked_def pending_def)
qed

lemma sinv_Compact:
  assumes inv: "sinv i d s fs h" and g: "rt_ok g" and c: "Compact g createOK [] True True fs s = (s', fs')"
  shows "sinv i (if createOK then length h else d) s' fs' h"
proof -
  obtain s1 fs1 where fl: "flushLocked g fs s = (s1, fs1)" by fastforce
  note inv1 = sinv_flushLocked [OF inv fl]
  have o: "opened i s1 fs1" and w: "wf_index s1" and r: "rows s1 = tableOf h"
    using inv1 by (simp_all add: sinv_def)
  obtain a where a: "aof s1 = Some a" "aopen a" "aPath a = logName i" "abuf a = []" "aio a = goodIO"
    using o flushLocked_effect(1) [OF inv fl] by (auto simp: opened_def pending_def)
  have i: "sinstance s1 = i" "0 \<le> i" "i < 62" "ownName s1 = logName i"
    and al: "alone i fs1" "idle_tails fs1 s1" using o by (auto simp: opened_def)
  have aofs: "aof s \<noteq> None" using inv by (auto simp: sinv_def opened_def)
  show ?thesis
  proof (cases createOK)
    case False
    then show ?thesis using c fl inv1 aofs by (auto simp: Compact_def)
  next
    case True
    define rs where "rs = concat (map (snapRecs g s1) [0..<numShards])"
    have rb: "concat (concat (map (snapShard g s1) [0..<numShards])) = logBytes lineOf rs"
      by (simp add: rs_def logBytes_concat concat_concat comp_def snapShard_logBytes)
    have tb: "tableOf rs = tableOf h" "recs_ok i rs"
      using snapshot_table [OF g w] i r by (simp_all add: rs_def)
    have "a\<lparr>aopen := True\<rparr> = a" using a(2) by (cases a) simp
    then have res: "s' = s1\<lparr>aof := Some a\<rparr>" "fs' = fmupd (logName i) emptyFile (fmupd (snapName i)
        (appendFile (logBytes lineOf rs) emptyFile) (fmdrop (snapName i @ ''.tmp'') fs1))"
      using c True fl aofs a i rb
      by (auto simp: Compact_def Truncate_def aofFlushLocked_def fmdrop_fmupd_same Let_def)
    have "fmlookup (tails s1) (logName i) = None"
      using o by (cases "fmlookup (tails s1) (logName i)") (auto simp: opened_def idle_tails_def)
    then have "alone i fs'" "idle_tails fs' s'"
      using al snapName_not_log [of i] logName_shape
      by (auto simp: res alone_def idle_tails_def)
    then have "opened i s' fs'" using o a i by (auto simp: res opened_def)
    moreover have "logged (length h) s' fs' h"
      by (rule logged_intro [of h h "[]" _ _ rs "[]" 0])
         (use tb a i in \<open>simp_all add: res fileBytes_def pending_def emptyFile_def appendFile_def
            changes_def\<close>)
    ultimately show ?thesis using True w r by (simp add: sinv_def res)
  qed
qed

end
