(* ===== verification/Durability.thy ===== *)
theory Durability
  imports Recovery
begin

text \<open>
  Runs of the AOF engine and their recovery. A run interleaves the public operations with the
  flush and fsync tickers, compaction, clean restarts; its invariant is that of theory
  \<open>Recovery\<close>. A crash keeps an arbitrary part of the log beyond what an fsync made durable;
  reopening the directory then yields the table after a prefix of the history that covers
  everything durable.
\<close>

section \<open>Replaying a directory\<close>

lemma logBytes_eq_Nil [simp]: "logBytes line rs = [] \<longleftrightarrow> rs = []"
  by (cases rs) (simp_all add: logBytes_Cons)

lemma ReplayFile_recs:
  assumes "recs_ok i rs" and "fileBytes fs p = logBytes lineOf rs @ t" and "NL \<notin> set t"
  shows "ReplayFile p (applyLine g) fs s = Some (fold (applyRec g) rs s)"
proof (cases "fmlookup fs p")
  case None
  then show ?thesis using assms(2) by (simp add: ReplayFile_def fileBytes_def)
next
  case (Some f)
  have ok: "rec_ok r" if "r \<in> set rs" for r using recs_ok_rec [OF assms(1) that] .
  show ?thesis
    using Some assms(2) store_log.replayLines_log [OF ok assms(3)] store_log.fold_lines [OF ok]
    by (simp add: ReplayFile_def fileBytes_def)
qed

lemma wf_index_stray [simp]: "wf_index (s\<lparr>strayHits := m\<rparr>) \<longleftrightarrow> wf_index s"
  by (rule wf_index_cong) simp_all

lemma wf_index_applyRec:
  assumes "wf_index s" and "rec_ok r" and "owner_ok (sinstance s) r"
  shows "wf_index (applyRec g r s)"
proof (cases r)
  case (Row c u a e i n)
  with assms show ?thesis
    by (auto simp: applyRec_def apply_op_def applyRow_def op_zero_def code_ok_def i32_id entry_ok_def
        intro!: wf_index_putEntry split: option.split)
next
  case (Hit c x i)
  with assms wf_index_entry [OF assms(1), of c] show ?thesis
    by (auto simp: applyRec_def apply_op_def applyHit_def op_zero_def code_ok_def Let_def entry_ok_def
        intro!: wf_index_putEntry split: option.split)
next
  case (Del c)
  with assms show ?thesis
    by (auto simp: applyRec_def apply_op_def op_zero_def code_ok_def intro!: wf_index_delEntry)
qed

lemma wf_index_fold_applyRec:
  "wf_index s \<Longrightarrow> recs_ok (sinstance s) rs \<Longrightarrow> wf_index (fold (applyRec g) rs s)"
  by (induction rs arbitrary: s) (simp_all add: wf_index_applyRec)

lemma applyRec_release [simp]: "release (applyRec g r s) = release s"
  by (simp add: applyRec_def apply_op_def applyHit_def applyRow_def Let_def
      split: option.split prod.split)

lemma fold_applyRec_release [simp]: "release (fold (applyRec g) rs s) = release s"
  by (induction rs arbitrary: s) simp_all

text \<open>The store \<open>New\<close> starts from, and the directory after it created its log.\<close>

definition bareStore :: "int \<Rightarrow> bytes option \<Rightarrow> Store" where
  "bareStore i rel =
     emptyStore\<lparr>release := rel, sinstance := i, sprefix := ALPHABET ! nat i, ownName := logName i,
                aof := Some \<lparr>abuf = [], aopen = True, aPath = logName i, aio = goodIO\<rparr>\<rparr>"

definition withLog :: "int \<Rightarrow> fsys \<Rightarrow> fsys" where
  "withLog i fs =
     (case fmlookup fs (logName i) of None \<Rightarrow> fmupd (logName i) emptyFile fs | Some _ \<Rightarrow> fs)"

lemma withLog_bytes [simp]: "fileBytes (withLog i fs) n = fileBytes fs n"
  by (auto simp: withLog_def fileBytes_def emptyFile_def split: option.split)

lemma withLog_synced [simp]: "syncedBytes (withLog i fs) n = syncedBytes fs n"
  by (auto simp: withLog_def syncedBytes_def emptyFile_def split: option.split)

lemma alone_withLog: "alone i fs \<Longrightarrow> alone i (withLog i fs)"
  by (auto simp: alone_def withLog_def split: option.split)

lemma withLog_present: "\<exists>f. fmlookup (withLog i fs) (logName i) = Some f"
  by (auto simp: withLog_def split: option.split)

lemma bareStore_simps [simp]:
  "sinstance (bareStore i rel) = i" "sprefix (bareStore i rel) = ALPHABET ! nat i"
  "ownName (bareStore i rel) = logName i" "release (bareStore i rel) = rel"
  "aof (bareStore i rel) = Some \<lparr>abuf = [], aopen = True, aPath = logName i, aio = goodIO\<rparr>"
  "tails (bareStore i rel) = fmempty" "rows (bareStore i rel) = Map.empty"
  "getEntry c (bareStore i rel) = None" "getDirty c (bareStore i rel) = 0"
  by (simp_all add: bareStore_def emptyStore_def rows_def getEntry_def getDirty_def)

lemma wf_index_bareStore [simp]: "wf_index (bareStore i rel)"
  by (simp add: bareStore_def emptyStore_def wf_index_def)

lemma openInstance_replay:
  assumes "i < 62" and "alone i fs"
    and "fileBytes fs (snapName i) = logBytes lineOf rs0" and "recs_ok i rs0"
    and "fileBytes fs (logName i) = logBytes lineOf rs1 @ t" and "recs_ok i rs1" and "NL \<notin> set t"
  shows "openInstance g (Some goodIO) i (emptyStore\<lparr>release := rel\<rparr>) fs
         = Some (Inr (fold (applyRec g) (rs0 @ rs1) (bareStore i rel)), withLog i fs)"
proof -
  have aof: "aofNew (Some goodIO) (logName i) fs
      = (Inr \<lparr>abuf = [], aopen = True, aPath = logName i, aio = goodIO\<rparr>, withLog i fs)"
    by (simp add: aofNew_def withLog_def)
  have "ReplayFile (snapName i) (applyLine g) (withLog i fs) s = Some (fold (applyRec g) rs0 s)" for s
    by (rule ReplayFile_recs [OF assms(4), of _ _ "[]"]) (simp_all add: assms(3))
  moreover have "ReplayFile (logName i) (applyLine g) (withLog i fs) s = Some (fold (applyRec g) rs1 s)" for s
    by (rule ReplayFile_recs [OF assms(6) _ assms(7)]) (simp add: assms(5))
  ultimately have "loadAll g (withLog i fs) (bareStore i rel)
      = Some (fold (applyRec g) (rs0 @ rs1) (bareStore i rel))"
    by (simp add: loadAll_def ShardFiles_alone alone_withLog assms(2))
  then show ?thesis
    using assms(1) aof by (simp add: openInstance_def maxInstances_def bareStore_def emptyStore_def)
qed

lemma opened_replayed:
  assumes "0 \<le> i" and "i < 62" and "alone i fs" and "\<And>l. rel = Some l \<Longrightarrow> \<not> HasPrefix l ''data-''"
  shows "opened i (fold (applyRec g) rs (bareStore i rel)) (withLog i fs)"
  using assms withLog_present [of i fs] by (auto simp: opened_def alone_withLog idle_tails_def)

lemma tableOf_append: "tableOf (xs @ ys) = fold rowStep ys (tableOf xs)"
  by (simp add: tableOf_def)

lemma tableOf_changes: "fold rowStep (changes rs) m = fold rowStep rs m"
  by (simp add: changes_def rowStep_filter)

lemma rows_replayed:
  "recs_ok i rs \<Longrightarrow> rows (fold (applyRec g) rs (bareStore i rel)) = tableOf rs"
  using rows_fold_applyRec [of i rs g "bareStore i rel"] by (simp add: tableOf_def)

section \<open>New on an existing directory\<close>

lemma lockName_not_data [simp]: "\<not> HasPrefix (lockName n) ''data-''"
  by (simp add: lockName_def HasPrefix_def)

lemma snapName_data [simp]: "HasPrefix (snapName i) ''data-''"
  by (simp add: snapName_def HasPrefix_def)

lemma New_openInstance:
  assumes "New g locks handle alive pid dir inst fs = Some (Inr s', fs')" and "dir \<noteq> '':memory:''"
  obtains i rel fs1 where "openInstance g handle i (emptyStore\<lparr>release := rel\<rparr>) fs1 = Some (Inr s', fs')"
    and "0 \<le> i" and "\<And>l. rel = Some l \<Longrightarrow> \<not> HasPrefix l ''data-''"
    and "\<And>n. HasPrefix n ''data-'' \<Longrightarrow> fmlookup fs1 n = fmlookup fs n"
proof (cases "0 \<le> inst")
  case True
  have "emptyStore\<lparr>release := None\<rparr> = emptyStore" by (simp add: emptyStore_def)
  then show ?thesis using that [of inst None fs] assms True by (simp add: New_def)
next
  case False
  then obtain j fs1 where j: "ClaimInstance locks alive pid fs = (Inr j, fs1)"
    "openInstance g handle (int j) (emptyStore\<lparr>release := Some (lockName j)\<rparr>) fs1 = Some (Inr s', fs')"
    using assms by (auto simp: New_def split: prod.splits sum.splits)
  then obtain lk where "claimLoop lk alive pid [0..<1024] fs = (Some j, fs1)"
    by (auto simp: ClaimInstance_def split: prod.splits option.splits)
  moreover have "n \<noteq> lockName k" if "HasPrefix n ''data-''" for n k using that lockName_not_data by metis
  ultimately have "fmlookup fs1 n = fmlookup fs n" if "HasPrefix n ''data-''" for n
    using claimLoop_spec(3) [of lk alive pid "[0..<1024]" fs "Some j" fs1 n] that by (simp add: staleLock_def)
  with that [OF j(2)] show ?thesis by simp
qed

lemma openInstance_id:
  assumes "openInstance g handle i s0 fs = Some (Inr s', fs')"
  shows "i < 62"
  using assms by (auto simp: openInstance_def maxInstances_def split: if_splits)

lemma ReplayFile_id:
  assumes "ReplayFile p (applyLine g) fs s = Some t"
  shows "sinstance t = sinstance s \<and> sprefix t = sprefix s"
proof (cases "fmlookup fs p")
  case (Some f)
  then have "foldOpt (applyLine g) (replayLines (fbytes f)) s = Some t"
    using assms by (simp add: ReplayFile_def)
  then show ?thesis
    by (rule foldOpt_inv) (auto dest: apply_line_frame(2,3))
qed (use assms in \<open>simp add: ReplayFile_def\<close>)

lemma loadAll_id:
  assumes "loadAll g fs s = Some t"
  shows "sinstance t = sinstance s \<and> sprefix t = sprefix s"
proof -
  obtain s1 s2 where l: "ReplayFile (snapName (sinstance s)) (applyLine g) fs s = Some s1"
    "ReplayFile (ownName s1) (applyLine g) fs s1 = Some s2"
    "foldOpt (loadSibling g fs) (ShardFiles (ownName s2) fs) s2 = Some t"
    using assms by (auto simp: loadAll_def bind_eq_Some_conv)
  have "sinstance t = sinstance s2 \<and> sprefix t = sprefix s2"
    by (rule foldOpt_inv [OF l(3)]) (auto simp: loadSibling_def Let_def dest: ReplayFile_id)
  then show ?thesis using ReplayFile_id [OF l(1)] ReplayFile_id [OF l(2)] by simp
qed

lemma openInstance_instance:
  assumes "openInstance g handle i s0 fs = Some (Inr s', fs')"
  shows "sinstance s' = i" and "sprefix s' = ALPHABET ! nat i"
  using assms
  by (auto simp: openInstance_def Let_def split: if_splits sum.splits prod.splits dest: loadAll_id)

text \<open>Opening a directory whose log ends in a torn line \<open>t\<close>: the store is the replay of the
  complete records, and the files keep their bytes.\<close>

lemma New_replay:
  assumes new: "New g locks (Some goodIO) alive pid dir inst fs = Some (Inr s', fs')" and "dir \<noteq> '':memory:''"
    and id: "sinstance s' = i" and al: "alone i fs"
    and "fileBytes fs (snapName i) = logBytes lineOf rs0" and "recs_ok i rs0"
    and "fileBytes fs (logName i) = logBytes lineOf rs1 @ t" and "recs_ok i rs1" and "NL \<notin> set t"
  shows "opened i s' fs'" and "wf_index s'" and "rows s' = tableOf (rs0 @ rs1)" and "pending s' = []"
    and "\<And>n. HasPrefix n ''data-'' \<Longrightarrow> fileBytes fs' n = fileBytes fs n"
    and "\<And>n. HasPrefix n ''data-'' \<Longrightarrow> syncedBytes fs' n = syncedBytes fs n"
proof -
  obtain j rel fs1 where o: "openInstance g (Some goodIO) j (emptyStore\<lparr>release := rel\<rparr>) fs1 = Some (Inr s', fs')"
    "0 \<le> j" "\<And>l. rel = Some l \<Longrightarrow> \<not> HasPrefix l ''data-''"
    "\<And>n. HasPrefix n ''data-'' \<Longrightarrow> fmlookup fs1 n = fmlookup fs n"
    using New_openInstance [OF new assms(2)] by metis
  have j: "j = i" "i < 62" using openInstance_instance(1) [OF o(1)] openInstance_id [OF o(1)] id by simp_all
  have al1: "alone i fs1" using al o(4) unfolding alone_def by metis
  have by1: "fileBytes fs1 n = fileBytes fs n" "syncedBytes fs1 n = syncedBytes fs n"
    if "HasPrefix n ''data-''" for n using o(4) [OF that] by (simp_all add: fileBytes_def syncedBytes_def)
  have "openInstance g (Some goodIO) i (emptyStore\<lparr>release := rel\<rparr>) fs1
      = Some (Inr (fold (applyRec g) (rs0 @ rs1) (bareStore i rel)), withLog i fs1)"
    by (rule openInstance_replay [OF j(2) al1 _ assms(6) _ assms(8,9)]) (simp_all add: by1 assms)
  then have res: "s' = fold (applyRec g) (rs0 @ rs1) (bareStore i rel)" "fs' = withLog i fs1"
    using o(1) j(1) by simp_all
  have ok: "recs_ok i (rs0 @ rs1)" using assms(6,8) by simp
  show "opened i s' fs'"
    unfolding res by (rule opened_replayed [OF _ j(2) al1 o(3)]) (use o(2) j(1) in simp_all)
  show "wf_index s'" unfolding res(1) by (rule wf_index_fold_applyRec) (use ok in simp_all)
  show "rows s' = tableOf (rs0 @ rs1)" unfolding res(1) by (rule rows_replayed [OF ok])
  show "pending s' = []" by (simp add: res pending_def)
  show "fileBytes fs' n = fileBytes fs n" "syncedBytes fs' n = syncedBytes fs n"
    if "HasPrefix n ''data-''" for n using by1 [OF that] by (simp_all add: res)
qed

section \<open>Crash recovery\<close>

text \<open>A crash loses the process and leaves the log with the first \<open>k\<close> bytes of what had been written
  or was being written.\<close>

definition crashAt :: "nat \<Rightarrow> Store \<Rightarrow> fsys \<Rightarrow> fsys" where
  "crashAt k s fs =
     fmupd (ownName s)
       \<lparr>fbytes = take k (fileBytes fs (ownName s) @ pending s), fsynced = syncedBytes fs (ownName s)\<rparr> fs"

lemma changes_take: "\<exists>n \<le> length (changes rs). changes (take m rs) = take n (changes rs)"
proof -
  have "changes rs = changes (take m rs) @ changes (drop m rs)"
    by (simp add: changes_def flip: filter_append)
  then show ?thesis by (intro exI [of _ "length (changes (take m rs))"]) simp
qed

lemma logBytes_take_mono:
  assumes "length (logBytes line (take m rs)) \<le> k" and "k < length (logBytes line (take (Suc n) rs))"
  shows "m \<le> n"
proof (rule ccontr)
  assume "\<not> m \<le> n"
  then have "take m rs = take (Suc n) rs @ drop (Suc n) (take m rs)"
    by (metis append_take_drop_id min.absorb1 not_less_eq_eq take_take)
  then have "length (logBytes line (take (Suc n) rs)) \<le> length (logBytes line (take m rs))"
    by (metis le_add1 length_append logBytes_append)
  with assms show False by simp
qed

lemma crash_recovers:
  assumes inv: "sinv i d s fs h" and k: "syncedBytes fs (ownName s) \<le> k"
    and new: "New g locks (Some goodIO) alive pid dir inst (crashAt k s fs) = Some (Inr s', fs')"
    and "dir \<noteq> '':memory:''" and "sinstance s' = i"
  shows "\<exists>n. d \<le> n \<and> n \<le> length h \<and> rows s' = tableOf (take n h)
             \<and> (length (fileBytes fs (ownName s) @ pending s) \<le> k \<longrightarrow> n = length h)"
proof -
  have o: "opened i s fs" and "logged d s fs h" using inv by (simp_all add: sinv_def)
  then obtain rs0 rs h0 h1 m where l: "h = h0 @ h1"
    "fileBytes fs (snapName i) = logBytes lineOf rs0"
    "fileBytes fs (logName i) @ pending s = logBytes lineOf rs"
    "recs_ok i rs0" "recs_ok i rs" "tableOf rs0 = tableOf h0" "changes rs = h1" "m \<le> length rs"
    "length (logBytes lineOf (take m rs)) \<le> syncedBytes fs (ownName s)"
    "d \<le> length h0 + length (changes (take m rs))"
    and own: "ownName s = logName i"
    by (auto simp: opened_def elim!: logged_elim)
  obtain n t where nt: "n \<le> length rs" "take k (logBytes lineOf rs) = logBytes lineOf (take n rs) @ t"
    "NL \<notin> set t" "n < length rs \<longrightarrow> k < length (logBytes lineOf (take (Suc n) rs))"
    using store_log.torn_split [of rs k] recs_ok_rec [OF l(5)] by metis
  have "alone i (crashAt k s fs)" using o own by (auto simp: crashAt_def opened_def alone_def)
  note r = New_replay(3) [OF new assms(4,5) this _ l(4) _ recs_ok_take [OF l(5)] nt(3), of n]
  have rows: "rows s' = tableOf (rs0 @ take n rs)"
    by (rule r) (use l(2,3) nt(2) own in \<open>simp_all add: crashAt_def fileBytes_fmupd\<close>)
  obtain q where q: "q \<le> length h1" "changes (take n rs) = take q h1"
    using changes_take [of rs n] l(7) by blast
  have tab: "rows s' = tableOf (take (length h0 + q) h)"
    using rows l(1,6) q tableOf_changes [of "take n rs" "tableOf h0"] by (simp add: tableOf_append)
  have "m \<le> n"
    using logBytes_take_mono [of lineOf m rs k n] l(8,9) k nt(1,4) by (cases "n < length rs") simp_all
  then have "length (changes (take m rs)) \<le> length (changes (take n rs))"
    using changes_take [of "take n rs" m] by (auto simp: min_absorb1)
  then have "d \<le> length h0 + q" using l(10) q by simp
  moreover have "length h0 + q = length h" if "length (fileBytes fs (ownName s) @ pending s) \<le> k"
  proof -
    have "n = length rs"
    proof (rule ccontr)
      assume "n \<noteq> length rs"
      with nt(1,4) have "k < length (logBytes lineOf (take (Suc n) rs))" by simp
      moreover have "length (logBytes lineOf (take (Suc n) rs)) \<le> length (logBytes lineOf rs)"
        by (metis append_take_drop_id le_add1 length_append logBytes_append)
      ultimately show False using that l(3) own by simp
    qed
    then have "take q h1 = h1" using q(2) l(7) by simp
    then show ?thesis using l(1) q(1) by (simp add: take_all_iff)
  qed
  ultimately show ?thesis using tab q(1) l(1) by (intro exI [of _ "length h0 + q"]) simp
qed

section \<open>Clean restart\<close>

definition same_data :: "fsys \<Rightarrow> fsys \<Rightarrow> bool" where
  "same_data fs fs' \<longleftrightarrow> (\<forall>n. HasPrefix n ''data-'' \<longrightarrow> fmlookup fs' n = fmlookup fs n)"

lemma sinv_New:
  assumes inv: "sinv i d s fs h" and "pending s = []" and same: "same_data fs fs1"
    and new: "New g locks (Some goodIO) alive pid dir inst fs1 = Some (Inr s', fs')"
    and "dir \<noteq> '':memory:''" and "sinstance s' = i"
  shows "sinv i d s' fs' h"
proof -
  have o: "opened i s fs" and "logged d s fs h" using inv by (simp_all add: sinv_def)
  then obtain rs0 rs h0 h1 m where l: "h = h0 @ h1"
    "fileBytes fs (snapName i) = logBytes lineOf rs0"
    "fileBytes fs (logName i) = logBytes lineOf rs @ []"
    "recs_ok i rs0" "recs_ok i rs" "tableOf rs0 = tableOf h0" "changes rs = h1" "m \<le> length rs"
    "length (logBytes lineOf (take m rs)) \<le> syncedBytes fs (logName i)"
    "d \<le> length h0 + length (changes (take m rs))"
    using assms(2) by (auto simp: opened_def elim!: logged_elim)
  have al: "alone i fs1" using o same unfolding opened_def alone_def same_data_def by metis
  have b: "fileBytes fs1 n = fileBytes fs n" "syncedBytes fs1 n = syncedBytes fs n"
    if "HasPrefix n ''data-''" for n
    using same that by (simp_all add: same_data_def fileBytes_def syncedBytes_def)
  have no: "NL \<notin> set []" by simp
  have "fileBytes fs1 (snapName i) = logBytes lineOf rs0" "fileBytes fs1 (logName i) = logBytes lineOf rs @ []"
    using l(2,3) by (simp_all add: b)
  note r = New_replay [OF new assms(5,6) al this(1) l(4) this(2) l(5) no]
  have "rows s' = tableOf h"
    using r(3) l(1,6,7) tableOf_changes [of rs "tableOf h0"] by (simp add: tableOf_append)
  moreover have "ownName s' = logName i" using r(1) by (simp add: opened_def)
  then have "logged d s' fs' h"
    by (intro logged_intro [OF l(1) _ _ _ _ l(6-8) _ l(10)])
       (use l r(4-6) b assms(6) in simp_all)
  ultimately show ?thesis using r(1,2) by (simp add: sinv_def)
qed

lemma sinv_no_tails: "sinv i d s fs h \<Longrightarrow> sinv i d (s\<lparr>closed := b, tails := fmempty\<rparr>) fs h"
  by (simp add: sinv_def opened_def idle_tails_def logged_cong [of "s\<lparr>closed := b, tails := fmempty\<rparr>" s]
      wf_index_cong [of "s\<lparr>closed := b, tails := fmempty\<rparr>" s] rows_def getEntry_def)

lemma Close_effect:
  assumes inv: "sinv i d s fs h" and "\<not> closed s" and cl: "Close g fs s = (s1, fs1)"
  shows "\<exists>s2 fs2. sinv i (length h) s2 fs2 h \<and> pending s2 = [] \<and> same_data fs2 fs1"
proof -
  obtain s3 fs3 where f: "Flush g fs (s\<lparr>closed := True, tails := fmempty\<rparr>) = (s3, fs3)" by fastforce
  have inv3: "sinv i d s3 fs3 h" using sinv_Flush [OF sinv_no_tails [OF inv] f] .
  then obtain a where a: "aof s3 = Some a" by (auto simp: sinv_def opened_def)
  obtain a4 fs4 where sy: "Sync a fs3 = (a4, fs4)" by fastforce
  have b4: "abuf a4 = []"
    using sy by (auto simp: Sync_def aofFlushLocked_def split: if_splits prod.splits)
  have "fs1 = releaseLock s3 fs4"
    using cl assms(2) f a sy b4
    by (auto simp: Close_def aofClose_def aofFlushLocked_def releaseLock_def)
  then have "same_data fs4 fs1"
    using inv3 by (auto simp: same_data_def releaseLock_def sinv_def opened_def split: option.split)
  then show ?thesis
    using sinv_Sync(1) [OF inv3 a sy] b4 by (intro exI [of _ "s3\<lparr>aof := Some a4\<rparr>"] exI [of _ fs4])
      (simp add: pending_def)
qed

lemma sinv_restart:
  assumes "sinv i d s fs h" and "\<not> closed s" and "Close g fs s = (s1, fs1)"
    and "New g' locks (Some goodIO) alive pid dir inst fs1 = Some (Inr s', fs')"
    and "dir \<noteq> '':memory:''" and "sinstance s' = i"
  shows "sinv i (length h) s' fs' h"
  using Close_effect [OF assms(1-3)] sinv_New [OF _ _ _ assms(4-6)] by blast

section \<open>Runs\<close>

text \<open>
  The state of a run: how many changes are durable, the store, the directory, the history of table
  changes. \<open>srun i\<close> steps through the operations of instance \<open>i\<close>; the runtime's choices differ
  from step to step.
\<close>

type_synonym run_state = "nat \<times> Store \<times> fsys \<times> logrec list"

inductive sstep :: "int \<Rightarrow> run_state \<Rightarrow> run_state \<Rightarrow> bool" for i where
  Shorten: "Shorten draws now url al hasAlias ttl fs s = Some (code, s', fs')
    \<Longrightarrow> (hasAlias \<Longrightarrow> code_ok al) \<Longrightarrow> in_i64 now
    \<Longrightarrow> sstep i (d, s, fs, h)
          (d, s', fs', h @ (if code = [] then [] else [Row code url now (expiry now ttl) i 0]))"
| ShortenMany: "ShortenMany rnd draws now urls ttl fs s = Some (codes, s', fs') \<Longrightarrow> in_i64 now
    \<Longrightarrow> sstep i (d, s, fs, h)
          (d, s', fs', h @ map2 (\<lambda>c u. Row c u now (expiry now ttl) i 0) codes urls)"
| Update: "Update now code url ttl hasTTL s = (r, s')
    \<Longrightarrow> sstep i (d, s, fs, h) (d, s', fs, h @ updateRecs i now code url ttl hasTTL (tableOf h))"
| Remove: "Remove code s = (r, s')
    \<Longrightarrow> sstep i (d, s, fs, h) (d, s', fs, h @ removeRecs code (tableOf h))"
| Resolve: "Resolve g track clk code fs s = Some (r, s') \<Longrightarrow> sstep i (d, s, fs, h) (d, s', fs, h)"
| PollTails: "PollTails g now fs s = Some s' \<Longrightarrow> sstep i (d, s, fs, h) (d, s', fs, h)"
| Flush: "Flush g fs s = (s', fs') \<Longrightarrow> sstep i (d, s, fs, h) (d, s', fs', h)"
| Sync: "syncTick fs s = (s', fs') \<Longrightarrow> sstep i (d, s, fs, h) (length h, s', fs', h)"
| Compact: "rt_ok g \<Longrightarrow> Compact g createOK [] True True fs s = (s', fs')
    \<Longrightarrow> sstep i (d, s, fs, h) (if createOK then length h else d, s', fs', h)"
| Restart: "\<not> closed s \<Longrightarrow> Close g fs s = (s1, fs1)
    \<Longrightarrow> New g' locks (Some goodIO) alive pid dir inst fs1 = Some (Inr s', fs') \<Longrightarrow> dir \<noteq> '':memory:''
    \<Longrightarrow> sinstance s' = i \<Longrightarrow> sstep i (d, s, fs, h) (length h, s', fs', h)"

inductive_cases sstepE: "sstep i (d, s, fs, h) st"

lemmas sstep_cases = sstepE [consumes 1, case_names Shorten ShortenMany Update Remove Resolve
  PollTails Flush Sync Compact Restart]

text \<open>A run starts on a directory without files of the instance or of siblings.\<close>

inductive sinit :: "int \<Rightarrow> run_state \<Rightarrow> bool" for i where
  "alone i fs \<Longrightarrow> fmlookup fs (snapName i) = None \<Longrightarrow> fmlookup fs (logName i) = None
   \<Longrightarrow> New g locks (Some goodIO) alive pid dir inst fs = Some (Inr s', fs') \<Longrightarrow> dir \<noteq> '':memory:''
   \<Longrightarrow> sinstance s' = i \<Longrightarrow> sinit i (0, s', fs', [])"

fun run_inv :: "int \<Rightarrow> run_state \<Rightarrow> bool" where
  "run_inv i (d, s, fs, h) \<longleftrightarrow> sinv i d s fs h"

lemma sinit_inv: "sinit i st \<Longrightarrow> run_inv i st"
proof (induction rule: sinit.induct)
  case (1 fs g locks alive pid dir inst s' fs')
  have z: "fileBytes fs (snapName i) = logBytes lineOf []" "recs_ok i []"
    "fileBytes fs (logName i) = logBytes lineOf [] @ []" "NL \<notin> set []"
    using 1(2,3) by (simp_all add: fileBytes_def)
  note r = New_replay [OF 1(4-6,1) z(1,2,3,2,4)]
  have "logged 0 s' fs' []"
    by (rule logged_intro [of "[]" "[]" "[]" _ _ "[]" "[]" 0])
       (use r(1,4,5) z 1(6) in \<open>simp_all add: opened_def changes_def\<close>)
  with r show ?case by (simp add: sinv_def)
qed

lemma sstep_inv:
  assumes "run_inv i st" and "sstep i st st'"
  shows "run_inv i st'"
proof -
  obtain d s fs h where st: "st = (d, s, fs, h)" by (cases st)
  have inv: "sinv i d s fs h" using assms(1) st by simp
  from assms(2) [unfolded st] show ?thesis
  proof (cases rule: sstep_cases)
    case Shorten
    then show ?thesis using sinv_Shorten [OF inv Shorten(2)] by simp
  next
    case ShortenMany
    then show ?thesis using sinv_ShortenMany [OF inv] by simp
  next
    case Update
    then show ?thesis using sinv_Update(1) [OF inv] by simp
  next
    case Remove
    then show ?thesis using sinv_Remove(1) [OF inv] by simp
  next
    case (Resolve g track clk code r s')
    then show ?thesis using sinv_Resolve [OF inv, of g track clk code] by auto
  next
    case PollTails
    then show ?thesis using PollTails_alone [OF inv] sinv_lastPoll [OF inv] by auto
  next
    case Flush
    then show ?thesis using sinv_Flush [OF inv] by simp
  next
    case Sync
    then show ?thesis using sinv_syncTick [OF inv] by simp
  next
    case Compact
    then show ?thesis using sinv_Compact [OF inv] by simp
  next
    case Restart
    then show ?thesis using sinv_restart [OF inv Restart(2,3,4,5,6)] by simp
  qed
qed

interpretation aof_run: invariant_system "sinit i" "sstep i" "run_inv i" for i
  by unfold_locales (auto intro: sinit_inv sstep_inv)

section \<open>What a run guarantees\<close>

lemma reachable_inv:
  "sinit i st \<Longrightarrow> (sstep i)\<^sup>*\<^sup>* st (d, s, fs, h) \<Longrightarrow> sinv i d s fs h"
  using aof_run.inv_reachable [of i st "(d, s, fs, h)"] by simp

lemma Compact_empties:
  assumes "sinv i d s fs h" and "Compact g True [] True True fs s = (s1, fs1)"
  shows "fileBytes fs1 (ownName s1) = []" and "pending s1 = []" and "syncedBytes fs1 (ownName s1) = 0"
proof -
  obtain s2 fs2 where fl: "flushLocked g fs s = (s2, fs2)" by fastforce
  obtain a where a: "aof s2 = Some a" "aPath a = ownName s2" "abuf a = []"
    using sinv_flushLocked [OF assms(1) fl] flushLocked_effect(1) [OF assms(1) fl]
    by (auto simp: sinv_def opened_def pending_def)
  have "aof s \<noteq> None" using assms(1) by (auto simp: sinv_def opened_def)
  then show "fileBytes fs1 (ownName s1) = []" and "pending s1 = []" and "syncedBytes fs1 (ownName s1) = 0"
    using assms(2) fl a
    by (auto simp: Compact_def Truncate_def aofFlushLocked_def fileBytes_def pending_def
        syncedBytes_def emptyFile_def Let_def)
qed

lemma New_total:
  assumes "0 \<le> i" and "i < 62" and "dir \<noteq> '':memory:''" and "alone i fs"
    and "fileBytes fs (snapName i) = logBytes lineOf rs0" and "recs_ok i rs0"
    and "fileBytes fs (logName i) = logBytes lineOf rs1 @ t" and "recs_ok i rs1" and "NL \<notin> set t"
  shows "\<exists>s' fs'. New g locks (Some goodIO) alive pid dir i fs = Some (Inr s', fs') \<and> sinstance s' = i"
proof -
  have "emptyStore\<lparr>release := None\<rparr> = emptyStore" by (simp add: emptyStore_def)
  then show ?thesis
    using openInstance_replay [OF assms(2,4-9), of g None] assms(1,3) by (simp add: New_def)
qed

lemma New_reopens:
  assumes inv: "sinv i d s fs h" and "dir \<noteq> '':memory:''"
  shows "\<exists>s' fs'. New g locks (Some goodIO) alive pid dir i (crashAt k s fs) = Some (Inr s', fs') \<and> sinstance s' = i"
proof -
  have o: "opened i s fs" and "logged d s fs h" using inv by (simp_all add: sinv_def)
  then obtain rs0 rs where l: "fileBytes fs (snapName i) = logBytes lineOf rs0"
    "fileBytes fs (logName i) @ pending s = logBytes lineOf rs" "recs_ok i rs0" "recs_ok i rs"
    and i: "ownName s = logName i" "0 \<le> i" "i < 62"
    by (auto simp: opened_def elim!: logged_elim)
  obtain n t where nt: "take k (logBytes lineOf rs) = logBytes lineOf (take n rs) @ t" "NL \<notin> set t"
    using store_log.torn_split [of rs k] recs_ok_rec [OF l(4)] by metis
  have "alone i (crashAt k s fs)" using o i(1) by (auto simp: crashAt_def opened_def alone_def)
  then show ?thesis
    by (rule New_total [OF i(2,3) assms(2) _ _ l(3) _ recs_ok_take [OF l(4)] nt(2)])
       (use l(1,2) nt(1) i(1) in \<open>simp_all add: crashAt_def fileBytes_fmupd\<close>)
qed

lemma New_after_Close:
  assumes inv: "sinv i d s fs h" and "\<not> closed s" and "Close g fs s = (s1, fs1)" and "dir \<noteq> '':memory:''"
  shows "\<exists>s' fs'. New g' locks (Some goodIO) alive pid dir i fs1 = Some (Inr s', fs') \<and> sinstance s' = i \<and> rows s' = rows s"
proof -
  obtain s2 fs2 where c: "sinv i (length h) s2 fs2 h" "pending s2 = []" "same_data fs2 fs1"
    using Close_effect [OF assms(1-3)] by blast
  have o: "opened i s2 fs2" and "logged (length h) s2 fs2 h" using c(1) by (simp_all add: sinv_def)
  then obtain rs0 rs where l: "fileBytes fs2 (snapName i) = logBytes lineOf rs0"
    "fileBytes fs2 (logName i) = logBytes lineOf rs @ []" "recs_ok i rs0" "recs_ok i rs"
    and i: "0 \<le> i" "i < 62"
    using c(2) by (auto simp: opened_def elim!: logged_elim)
  have al: "alone i fs1" using o c(3) unfolding opened_def alone_def same_data_def by metis
  have "\<exists>s' fs'. New g' locks (Some goodIO) alive pid dir i fs1 = Some (Inr s', fs') \<and> sinstance s' = i"
    by (rule New_total [OF i assms(4) al _ l(3) _ l(4), of "[]"])
       (use l(1,2) c(3) in \<open>simp_all add: same_data_def fileBytes_def\<close>)
  then obtain s' fs' where n: "New g' locks (Some goodIO) alive pid dir i fs1 = Some (Inr s', fs')" "sinstance s' = i"
    by blast
  have "rows s' = rows s"
    using sinv_restart [OF assms(1-3) n(1) assms(4) n(2)] inv by (simp add: sinv_def)
  with n show ?thesis by blast
qed

text \<open>A run of two states: an empty directory is opened as instance 0, then a link is created under
  an alias; its row is still in the write buffer.\<close>

abbreviation "demoFs \<equiv> withLog 0 fmempty"
abbreviation "demoStart \<equiv> bareStore 0 None"
abbreviation "demoStore \<equiv> insertRow ''al'' ''http://x'' 5 0 (bareStore 0 None)"
abbreviation "demoHistory \<equiv> [Row ''al'' ''http://x'' 5 0 0 0]"

lemma New_empty:
  assumes "0 \<le> i" and "i < 62" and "dir \<noteq> '':memory:''"
  shows "New g locks (Some goodIO) alive pid dir i fmempty = Some (Inr (bareStore i None), withLog i fmempty)"
proof -
  have "emptyStore\<lparr>release := None\<rparr> = emptyStore" by (simp add: emptyStore_def)
  then show ?thesis
    using openInstance_replay [of i fmempty "[]" "[]" "[]" g None] assms
    by (simp add: New_def alone_def fileBytes_def)
qed

lemma demo_init: "sinit 0 (0, demoStart, demoFs, [])"
  by (rule sinit.intros [OF _ _ _ New_empty [of _ "''data''" det_rt "Some goodLocks" "\<lambda>_. True" 7]])
     (simp_all add: alone_def)

lemma demo_small: "\<not> flushBytes < length (rowLine ''al'' ''http://x'' 5 0 0 0 @ [NL])"
  by (simp add: rowLine_fields quoted_def expText_def escByte_def flushBytes_def FormatInt_def
      fmt_nat.simps)

lemma demo_run: "(sstep 0)\<^sup>*\<^sup>* (0, demoStart, demoFs, []) (0, demoStore, demoFs, demoHistory)"
proof -
  have "Shorten [] 5 ''http://x'' ''al'' True 0 demoFs demoStart = Some (''al'', demoStore, demoFs)"
    using demo_small
    by (simp add: Shorten_def expiry_eval flushIfLarge_def PendingBytes_def Push_def)
  then have "sstep 0 (0, demoStart, demoFs, [])
      (0, demoStore, demoFs, [] @ (if ''al'' = [] then [] else [Row ''al'' ''http://x'' 5 (expiry 5 0) 0 0]))"
    by (rule sstep.Shorten) (simp_all add: code_ok_def plain_def in_i64_def)
  then show ?thesis by (simp add: expiry_eval)
qed

lemma demo_simps [simp]:
  "ownName demoStore = logName 0" "closed demoStore = False" "syncedBytes fmempty n = 0" "fileBytes fmempty n = []"
  by (simp_all add: insertRow_def putEntry_def Let_def bareStore_def emptyStore_def pushLine_def
      syncedBytes_def fileBytes_def)

text \<open>C1. Crash recovery. After any run of an instance alone in its directory, which was fresh when it first started there and has
  seen no earlier crash, and whose system calls on the log succeed, a crash leaves the
  log with some prefix of the bytes written or being written, at least those an fsync made durable;
  the next start succeeds and its table is the result of a prefix of the changes made, which
  contains every change made before the last fsync, compaction or clean restart, and all changes if
  no byte was lost. (A crash cuts the log only: the snapshot that \<open>Compact\<close> renames into place without
  an fsync is taken to survive.)\<close>

theorem crash_recovery:
  assumes "sinit i st" and "(sstep i)\<^sup>*\<^sup>* st (d, s, fs, h)" and "syncedBytes fs (ownName s) \<le> k"
    and "dir \<noteq> '':memory:''"
  shows "\<exists>s' fs' n. New g locks (Some goodIO) alive pid dir i (crashAt k s fs) = Some (Inr s', fs')
           \<and> d \<le> n \<and> n \<le> length h \<and> rows s' = tableOf (take n h)
           \<and> (length (fileBytes fs (ownName s) @ pending s) \<le> k \<longrightarrow> n = length h)"
proof -
  note inv = reachable_inv [OF assms(1,2)]
  obtain s' fs' where new: "New g locks (Some goodIO) alive pid dir i (crashAt k s fs) = Some (Inr s', fs')"
    "sinstance s' = i" using New_reopens [OF inv assms(4)] by blast
  then show ?thesis using crash_recovers [OF inv assms(3) new(1) assms(4) new(2)] by blast
qed

theorem crash_recovery_witness:
  "\<exists>s' fs' n. New det_rt (Some goodLocks) (Some goodIO) (\<lambda>_. True) 7 ''data'' 0 (crashAt 10 demoStore demoFs) = Some (Inr s', fs')
     \<and> n \<le> 1 \<and> rows s' = tableOf (take n demoHistory)"
  using crash_recovery [OF demo_init demo_run, of 10 "''data''" det_rt "Some goodLocks" "\<lambda>_. True" 7] by auto

text \<open>C2. Refinement to the table of links. In every state a run reaches, the index holds exactly
  the table the history of changes denotes; \<open>Resolve\<close> answers from that table, \<open>Update\<close> and \<open>Remove\<close>
  report whether the code is in it.\<close>

theorem run_refines_table:
  assumes "sinit i st" and "(sstep i)\<^sup>*\<^sup>* st (d, s, fs, h)"
  shows "rows s = tableOf h
         \<and> (\<exists>s'. Resolve g track clk code fs s = Some (tableResolve (clk 2) code (tableOf h), s'))
         \<and> fst (Update now code url ttl hasTTL s) = (if tableOf h code = None then MutMissing else MutOK)
         \<and> fst (Remove code s) = (if tableOf h code = None then MutMissing else MutOK)"
proof -
  note inv = reachable_inv [OF assms]
  obtain r1 s1 r2 s2 where m: "Update now code url ttl hasTTL s = (r1, s1)" "Remove code s = (r2, s2)"
    by (meson surj_pair)
  have "\<exists>s'. Resolve g track clk code fs s = Some (tableResolve (clk 2) code (tableOf h), s')"
    using sinv_Resolve [OF inv] by blast
  then show ?thesis
    using m sinv_Update(2) [OF inv m(1)] sinv_Remove(2) [OF inv m(2)] inv by (simp add: sinv_def)
qed

theorem run_refines_table_witness:
  "rows demoStore = tableOf demoHistory
   \<and> (\<exists>s'. Resolve det_rt True (\<lambda>_. 9) ''al'' demoFs demoStore = Some (Some ''http://x'', s'))
   \<and> fst (Remove ''zz'' demoStore) = MutMissing"
  using run_refines_table [OF demo_init demo_run, of det_rt True "\<lambda>_. 9" "''al''" 0 "[]" 0 False]
    run_refines_table [OF demo_init demo_run, of det_rt True "\<lambda>_. 9" "''zz''" 0 "[]" 0 False]
  by (simp add: tableOf_def tableResolve_def)

text \<open>C3. A clean restart and a compaction keep every link of an instance that runs alone in its directory
  and has not crashed before: when its system calls succeed (every write to the snapshot is
  complete, the rename and the reopening of the log work), \<open>Compact\<close> leaves the table unchanged, the
  log empty and a directory that opens with the same table; and after \<open>Close\<close> the directory opens again
  with the same table. (\<open>Compact\<close> does not check those calls; what happens when the rename fails is shown
  further down.)\<close>

theorem restart_compact_keep_links:
  assumes "sinit i st" and "(sstep i)\<^sup>*\<^sup>* st (d, s, fs, h)" and "rt_ok g" and "\<not> closed s"
    and "dir \<noteq> '':memory:''"
  shows "(let (s1, fs1) = Compact g True [] True True fs s in
            rows s1 = rows s \<and> fileBytes fs1 (ownName s1) = [] \<and> pending s1 = []
            \<and> (\<exists>s' fs'. New g' locks (Some goodIO) alive pid dir i (crashAt 0 s1 fs1) = Some (Inr s', fs') \<and> rows s' = rows s))
         \<and> (let (s1, fs1) = Close g fs s in
            \<exists>s' fs'. New g' locks (Some goodIO) alive pid dir i fs1 = Some (Inr s', fs') \<and> rows s' = rows s)"
proof -
  note inv = reachable_inv [OF assms(1,2)]
  obtain s1 fs1 where c: "Compact g True [] True True fs s = (s1, fs1)" by fastforce
  note inv1 = sinv_Compact [OF inv assms(3) c, simplified]
  have e: "fileBytes fs1 (ownName s1) = []" "pending s1 = []" "syncedBytes fs1 (ownName s1) = 0"
    using Compact_empties [OF inv c] by simp_all
  obtain s' fs' where new: "New g' locks (Some goodIO) alive pid dir i (crashAt 0 s1 fs1) = Some (Inr s', fs')"
    "sinstance s' = i" using New_reopens [OF inv1 assms(5)] by blast
  have "rows s' = tableOf h"
    using crash_recovers [OF inv1 _ new(1) assms(5) new(2)] e by auto
  then have "rows s1 = rows s" "rows s' = rows s" using inv inv1 by (simp_all add: sinv_def)
  with c e new(1) have "let (s1, fs1) = Compact g True [] True True fs s in
            rows s1 = rows s \<and> fileBytes fs1 (ownName s1) = [] \<and> pending s1 = []
            \<and> (\<exists>s' fs'. New g' locks (Some goodIO) alive pid dir i (crashAt 0 s1 fs1) = Some (Inr s', fs') \<and> rows s' = rows s)"
    by simp
  moreover have "let (s1, fs1) = Close g fs s in
      \<exists>s' fs'. New g' locks (Some goodIO) alive pid dir i fs1 = Some (Inr s', fs') \<and> rows s' = rows s"
    using New_after_Close [OF inv assms(4) _ assms(5)] by (cases "Close g fs s") fastforce
  ultimately show ?thesis by blast
qed

theorem restart_compact_keep_links_witness:
  "let (s1, fs1) = Close det_rt demoFs demoStore in
     \<exists>s' fs'. New det_rt (Some goodLocks) (Some goodIO) (\<lambda>_. True) 7 ''data'' 0 fs1 = Some (Inr s', fs') \<and> rows s' = rows demoStore"
  using restart_compact_keep_links [OF demo_init demo_run rt_ok_det_rt, of "''data''" det_rt "Some goodLocks" "\<lambda>_. True" 7]
  by simp

text \<open>C40. \<open>Compact\<close> ignores the result of the rename and truncates the log all the same: when the first
  snapshot cannot be renamed into place, whatever the writes to it gave, the links stay in memory and the directory
  holds none of them, so the next start knows no link.\<close>

theorem compact_failure_loses_links:
  assumes "sinit i st" and "(sstep i)\<^sup>*\<^sup>* st (d, s, fs, h)" and "dir \<noteq> '':memory:''" and "fmlookup fs (snapName i) = None"
  shows "let (s1, fs1) = Compact g True writes False True fs s in
           rows s1 = rows s
           \<and> (\<exists>s' fs'. New g' locks (Some goodIO) alive pid dir i fs1 = Some (Inr s', fs') \<and> rows s' = Map.empty)"
proof -
  note inv = reachable_inv [OF assms(1,2)]
  obtain s2 fs2 where fl: "flushLocked g fs s = (s2, fs2)" by fastforce
  note inv2 = sinv_flushLocked [OF inv fl]
  obtain a where a: "aof s2 = Some a" "aPath a = logName i" "abuf a = []"
    and i: "sinstance s2 = i" "0 \<le> i" "i < 62" "alone i fs2" and aofs: "aof s \<noteq> None"
    using inv inv2 flushLocked_effect(1) [OF inv fl] by (auto simp: sinv_def opened_def pending_def)
  obtain s1 fs1 where c: "Compact g True writes False True fs s = (s1, fs1)" by fastforce
  let ?tmp = "snapName i @ ''.tmp''"
  have r: "s1 = s2\<lparr>aof := Some (a\<lparr>aopen := True\<rparr>)\<rparr>" and f: "\<exists>f. fs1 = fmupd (logName i) emptyFile (fmupd ?tmp f fs2)"
    using c fl a i aofs by (auto simp: Compact_def Truncate_def aofFlushLocked_def Let_def)
  have "fmlookup fs2 (snapName i) = None" using flushLocked_effect(2) [OF inv fl] assms(4) by blast
  then have b: "fileBytes fs1 (snapName i) = logBytes lineOf []" "fileBytes fs1 (logName i) = logBytes lineOf [] @ []"
    using f snapName_not_log [of i] by (auto simp: fileBytes_def emptyFile_def)
  have al: "alone i fs1" using f i(4) tmpName_not_log by (force simp: alone_def split: if_splits)
  have ok: "recs_ok i []" "NL \<notin> set []" by simp_all
  obtain s' fs' where n: "New g' locks (Some goodIO) alive pid dir i fs1 = Some (Inr s', fs')" "sinstance s' = i"
    using New_total [OF i(2,3) assms(3) al b(1) ok(1) b(2) ok] by blast
  have "rows s' = Map.empty" using New_replay(3) [OF n(1) assms(3) n(2) al b(1) ok(1) b(2) ok] by (simp add: tableOf_def)
  moreover have "rows s1 = rows s" using inv inv2 r by (simp add: sinv_def rows_def getEntry_def)
  ultimately show ?thesis using c n(1) by auto
qed

theorem compact_failure_loses_links_witness:
  "let (s1, fs1) = Compact det_rt True [] False True demoFs demoStore in
     rows s1 = rows demoStore
     \<and> (\<exists>s' fs'. New det_rt (Some goodLocks) (Some goodIO) (\<lambda>_. True) 7 ''data'' 0 fs1 = Some (Inr s', fs') \<and> rows s' ''al'' = None)"
proof -
  have "fmlookup demoFs (snapName 0) = None" using snapName_not_log [of 0] by (auto simp: withLog_def)
  from compact_failure_loses_links [OF demo_init demo_run _ this, of "''data''" det_rt "[]" det_rt "Some goodLocks" "\<lambda>_. True" 7]
  show ?thesis by auto
qed

text \<open>A write that fails loses its lines: the buffer is emptied whether or not they reached the file, so links
  that were acknowledged are missing after the next start although \<open>Close\<close> was called.\<close>

lemma failed_write_loses_lines:
  assumes "aopen a" and "io_writes (aio a) = 0 # ns" and "aofFlush a fs = (a', fs')"
  shows "abuf a' = []" and "fileBytes fs' n = fileBytes fs n"
  using assms
  by (auto simp: aofFlush_def aofFlushLocked_def writeLog_def ioWrite_def fileBytes_def appendFile_def
      split: if_splits option.splits)

section \<open>A torn line and its successor\<close>

text \<open>
  \<open>New\<close> opens the log for appending without cutting a torn last line, so the first line queued after
  a crash is glued to it. The lemma gives a log of that shape: a row for \<open>ab\<close> torn inside its url,
  followed by the row for \<open>b\<close> written after the restart. At the next replay \<open>b\<close> is gone and \<open>ab\<close>
  redirects to the mangled url.
\<close>

lemma Itoa_eval:
  "FormatInt 5 = ''5''" "FormatInt 0 = ''0''" "FormatInt 4 = ''4''"
  by (simp_all add: FormatInt_def fmt_nat.simps digit_char_def char_of_eq_iff)

lemma num_eval:
  "ParseInt ''5'' = (5, None)" "ParseInt ''0'' = (0, None)" "TrimSpace ''5'' = ''5''" "TrimSpace ''0'' = ''0''"
  using ParseInt_FormatInt [of 5] ParseInt_FormatInt [of 0] TrimSpace_FormatInt [of 5] TrimSpace_FormatInt [of 0]
  by (simp_all add: Itoa_eval in_i64_def)

lemma row_eval:
  "rowLine ''b'' ''http://x'' 5 0 0 0
     = ''{\"c\":\"b\",\"u\":\"http://x\",\"a\":5,\"e\":null,\"i\":0,\"n\":0}''"
  "take 19 (rowLine ''ab'' ''http://y'' 4 0 0 0) = ''{\"c\":\"ab\",\"u\":\"http''"
  by (simp_all add: rowLine_fields quoted_def expText_def escByte_def Itoa_eval)

lemma parse_glued:
  "parseOp (''{\"c\":\"ab\",\"u\":\"http'' @ rowLine ''b'' ''http://x'' 5 0 0 0) [NL]
   = Parsed (op_zero\<lparr>op_c := ''ab'', op_u := ''http{'', op_a := 5\<rparr>)"
  unfolding parseOp_def row_eval
  by (simp add: parseLoop.simps [of _ _ "x # xs" for x xs] setStr_def setNum_def num_eval TrimSpace_null
      finishOp_def op_zero_def)

lemma torn_line_corrupts:
  assumes "fbytes f = take 19 (rowLine ''ab'' ''http://y'' 4 0 0 0) @ rowLine ''b'' ''http://x'' 5 0 0 0 @ [NL]"
  shows "\<exists>s'. ReplayFile (logName 0) (applyLine g) (fmupd (logName 0) f fs) s = Some s'
           \<and> getEntry ''b'' s' = getEntry ''b'' s \<and> map_option e_u (getEntry ''ab'' s') = Some ''http{''"
proof -
  let ?l = "''{\"c\":\"ab\",\"u\":\"http'' @ rowLine ''b'' ''http://x'' 5 0 0 0"
  have "NL \<notin> set ?l" by (simp add: row_eval)
  then have "replayLines (?l @ NL # []) = [?l]" using replayLines_line [of ?l "[]"] by (simp add: replayLines_no_NL)
  then have "ReplayFile (logName 0) (applyLine g) (fmupd (logName 0) f fs) s
      = Some (apply_op g (op_zero\<lparr>op_c := ''ab'', op_u := ''http{'', op_a := 5\<rparr>) s)"
    using assms parse_glued by (simp add: ReplayFile_def applyLine_def row_eval)
  then show ?thesis by (simp add: apply_op_def applyRow_def op_zero_def split: option.split)
qed

end
