(* ===== verification/Service.thy ===== *)
theory Service
  imports App Durability
begin

text \<open>
  The composition of the HTTP handler with a storage engine. Every request makes at most one call of
  the engine, with validated arguments; over the AOF engine a request is a step of the run whose
  durability \<open>Durability\<close> proves, so that a link acknowledged with 201 and reached by an fsync survives
  a crash and redirects after the restart.
\<close>

section \<open>A request is at most one engine call\<close>

inductive api_call :: "app_env \<Rightarrow> 's API \<Rightarrow> bytes \<Rightarrow> 's \<Rightarrow> 's \<Rightarrow> bool" for env api token where
  Nothing: "api_call env api token s s"
| Shorten: "apiShorten api url al hasAlias ttl s = Some (code, s') \<Longrightarrow> isValidURL env url
    \<Longrightarrow> (hasAlias \<Longrightarrow> codeOK al) \<Longrightarrow> ttl \<le> LinkTTLMS env \<Longrightarrow> api_call env api token s s'"
| ShortenMany: "apiShortenMany api urls ttl s = Some (codes, s') \<Longrightarrow> list_all okBulkURL urls
    \<Longrightarrow> length urls \<le> MaxBulkURLs \<Longrightarrow> ttl = LinkTTLMS env \<Longrightarrow> api_call env api token s s'"
| Resolve: "apiResolve api code s = Some (r, s') \<Longrightarrow> codeOK code \<Longrightarrow> api_call env api token s s'"
| Update: "apiUpdate api code url ttl hasTTL s = Some (m, s') \<Longrightarrow> codeOK code \<Longrightarrow> isValidURL env url
    \<Longrightarrow> (hasTTL \<Longrightarrow> ttl \<le> LinkTTLMS env) \<Longrightarrow> adminOk env token \<Longrightarrow> api_call env api token s s'"
| Remove: "apiRemove api code s = Some (m, s') \<Longrightarrow> codeOK code \<Longrightarrow> adminOk env token
    \<Longrightarrow> api_call env api token s s'"

lemma capTTL_le: "capTTL env t \<le> LinkTTLMS env"
  by (simp add: capTTL_def Let_def)

lemma redirect_call: "redirect api code a = Some (r, a') \<Longrightarrow> api_call env api token (appStore a) (appStore a')"
  by (auto simp: redirect_def Let_def split: if_splits intro: api_call.intros)

lemma routeGet_call:
  assumes "routeGet env api pathname query a = Some (r, a')"
  shows "api_call env api token (appStore a) (appStore a')"
proof -
  consider "appStore a' = appStore a" | "redirect api (tl pathname) a = Some (r, a')"
    using assms by (auto simp: routeGet_def routeList_def Let_def split: if_splits)
  then show ?thesis using redirect_call by cases (auto intro: api_call.Nothing)
qed

lemma shortenOne_call:
  assumes "shortenOne env api p a = Some (r, a')"
  shows "api_call env api token (appStore a) (appStore a')"
proof (cases "appStore a' = appStore a")
  case False
  obtain url where u: "rqURL p = Some url" "isValidURL env url"
    using assms False by (auto simp: shortenOne_def split: option.splits if_splits)
  have al: "codeOK x" if "rqAlias p = Some x" for x
    using assms False u that by (auto simp: shortenOne_def split: option.splits if_splits)
  obtain al hasAlias where ah: "(case rqAlias p of None \<Rightarrow> ([], False) | Some al \<Rightarrow> (al, True)) = (al, hasAlias)"
    by fastforce
  have ttl: "(case rqTTLMS p of None \<Rightarrow> LinkTTLMS env | Some t \<Rightarrow> capTTL env t) \<le> LinkTTLMS env"
    using capTTL_le by (auto split: option.split)
  obtain code where
    "apiShorten api url al hasAlias (case rqTTLMS p of None \<Rightarrow> LinkTTLMS env | Some t \<Rightarrow> capTTL env t) (appStore a)
     = Some (code, appStore a')"
    using assms False u ah by (auto simp: shortenOne_def Let_def split: if_splits)
  then show ?thesis
    by (rule api_call.Shorten) (use u(2) ah al ttl in \<open>auto split: option.splits\<close>)
qed (simp add: api_call.Nothing)

lemma shortenBulk_call:
  "shortenBulk env api urls a = Some (r, a') \<Longrightarrow> api_call env api token (appStore a) (appStore a')"
  by (auto simp: shortenBulk_def Let_def split: if_splits intro: api_call.intros)

lemma limited_call:
  assumes "limited env client cost k a = Some (r, a')"
    and "\<And>b. k b = Some (r, a') \<Longrightarrow> api_call env api token (appStore b) (appStore a')"
  shows "api_call env api token (appStore a) (appStore a')"
  using assms(1) assms(2) [of "a\<lparr>appLimiter := snd (Allow (roundF env) (nowMs env) client cost (appLimiter a))\<rparr>"]
  by (auto simp: limited_def Let_def split: prod.splits if_splits intro: api_call.Nothing)

lemma routePost_call:
  assumes "routePost env api pathname body client a = Some (r, a')"
  shows "api_call env api token (appStore a) (appStore a')"
proof -
  have one: "api_call env api token (appStore b) (appStore a')"
    if "shortenOne env api p (met (Op 1) b) = Some (r, a')" for p b
    using shortenOne_call [OF that] by simp
  have many: "api_call env api token (appStore b) (appStore a')"
    if "shortenBulk env api urls (met (Op 2) b) = Some (r, a')" for urls b
    using shortenBulk_call [OF that] by simp
  show ?thesis
    using assms limited_call [of env client _ _ a r a'] one many
    by (fastforce simp: routePost_def split: if_splits option.splits intro: api_call.Nothing)
qed

lemma routeDelete_call:
  assumes "routeDelete api code a = Some (r, a')" and "codeOK code" and "adminOk env token"
  shows "api_call env api token (appStore a) (appStore a')"
proof -
  obtain m where "apiRemove api code (appStore a) = Some (m, appStore a')"
    using assms(1) by (auto simp: routeDelete_def Let_def dest: MutResult_rest split: MutResult.split_asm)
  then show ?thesis using assms(2,3) by (rule api_call.Remove)
qed

lemma routePatch_call:
  assumes "routePatch env api code body a = Some (r, a')" and "codeOK code" and "adminOk env token"
  shows "api_call env api token (appStore a) (appStore a')"
proof (cases "appStore a' = appStore a")
  case False
  then obtain p url where p: "unmarshalPatch env body = Some p" "pqURL p = Some url" "isValidURL env url"
    using assms(1) by (auto simp: routePatch_def split: option.split_asm if_splits)
  obtain ttl hasTTL where t: "(case pqTTLMS p of None \<Rightarrow> (0, False) | Some t \<Rightarrow> (capTTL env t, True)) = (ttl, hasTTL)"
    by fastforce
  obtain m where m: "apiUpdate api code url ttl hasTTL (appStore a) = Some (m, appStore a')"
    using assms(1) p t
    by (auto simp: routePatch_def Let_def dest: MutResult_rest split: MutResult.split_asm)
  have "hasTTL \<Longrightarrow> ttl \<le> LinkTTLMS env" using t capTTL_le by (auto split: option.splits)
  with m assms(2) p(3) show ?thesis using assms(3) by (rule api_call.Update)
qed (simp add: api_call.Nothing)

lemma Handle_call:
  assumes "Handle env api method path body token client a = Some (r, a')"
  shows "api_call env api token (appStore a) (appStore a')"
proof -
  obtain a1 where r: "route env api method path body token client a = Some (r, a1)" "appStore a' = appStore a1"
    using assms by (auto simp: Handle_def)
  let ?a = "met (Tick (nowMs env)) a"
  obtain pathname query where p: "splitPath path = (pathname, query)" by fastforce
  let ?code = "drop (length ''/api/links/'') pathname"
  have mut: "api_call env api token (appStore ?a) (appStore a1)"
    if "(if \<not> HasPrefix pathname ''/api/links/'' \<or> \<not> adminOk env token then Some (notFound, ?a)
         else if \<not> codeOK ?code then Some (bad ''invalid code'', ?a)
         else if method = ''DELETE'' then routeDelete api ?code ?a
         else routePatch env api ?code body ?a) = Some (r, a1)"
    using that routeDelete_call [of api ?code ?a r a1] routePatch_call [of env api ?code body ?a r a1]
    by (auto split: if_splits intro: api_call.Nothing)
  have "api_call env api token (appStore ?a) (appStore a1)"
  proof (cases "method = ''PATCH'' \<or> method = ''DELETE''")
    case True
    then show ?thesis using r(1) by (intro mut) (auto simp: route_def p Let_def)
  next
    case False
    then show ?thesis
      using r(1) routeGet_call [of env api pathname query ?a r a1] routePost_call [of env api pathname body client ?a r a1]
      by (simp add: route_def p Let_def split: if_splits) (auto intro: api_call.Nothing)
  qed
  then show ?thesis using r(2) by simp
qed

text \<open>Whatever the request, the handler changes the store by at most one call of the engine, and the
  arguments of that call are validated: aliases and codes match the code grammar, urls are valid,
  lifetimes are at most the configured maximum, and updates and removals carry the admin token.\<close>

theorem Handle_one_call:
  assumes "Handle env api method path body token client a = Some (r, a')"
  shows "api_call env api token (appStore a) (appStore a')"
  by (rule Handle_call [OF assms])

theorem Handle_one_call_witness:
  "\<exists>a'. Handle demoEnv (aofAPI demoAof) ''POST'' ''/api/shorten'' ''http://x'' [] ''10.0.0.1'' demoApp
          = Some (json 201 (createdBody ''al''), a')
        \<and> api_call demoEnv (aofAPI demoAof) [] (emptyStore, fmempty) (appStore a')"
proof -
  obtain a' where h: "Handle demoEnv (aofAPI demoAof) ''POST'' ''/api/shorten'' ''http://x'' [] ''10.0.0.1'' demoApp
      = Some (json 201 (createdBody ''al''), a')"
    using Handle_demo [of "(emptyStore, fmempty)"] by (auto simp: demoApp_store)
  then show ?thesis using Handle_one_call [OF h] by (auto simp: demoApp_def)
qed

section \<open>Requests over the AOF engine are steps of its run\<close>

lemma api_call_step:
  assumes "api_call env (aofAPI e) token (s, fs) (s', fs')" and "in_i64 (eClk e 0)"
  shows "\<exists>h'. (sstep i)\<^sup>=\<^sup>= (d, s, fs, h) (d, s', fs', h')"
  using assms(1)
proof (cases rule: api_call.cases)
  case Nothing
  then show ?thesis by auto
next
  case (Shorten url al hasAlias ttl code)
  then have "Shorten (eDraws e) (eClk e 0) url al hasAlias ttl fs s = Some (code, s', fs')"
    by (simp add: aofAPI_def)
  from sstep.Shorten [OF this _ assms(2)] show ?thesis using Shorten(3) codeOK_code_ok by blast
next
  case (ShortenMany urls ttl codes)
  then have "ShortenMany (eRnd e) (eManyDraws e) (eClk e 0) urls ttl fs s = Some (codes, s', fs')"
    by (simp add: aofAPI_def)
  from sstep.ShortenMany [OF this assms(2)] show ?thesis by blast
next
  case (Resolve code r)
  then have "Resolve (eRt e) (eTrack e) (eClk e) code fs s = Some (r, s')" "fs' = fs" by (auto simp: aofAPI_def)
  with sstep.Resolve [OF this(1)] show ?thesis by blast
next
  case (Update code url ttl hasTTL m)
  then have "Update (eClk e 0) code url ttl hasTTL s = (m, s')" "fs' = fs"
    by (auto simp: aofAPI_def split: prod.splits)
  with sstep.Update [OF this(1)] show ?thesis by blast
next
  case (Remove code m)
  then have "Remove code s = (m, s')" "fs' = fs" by (auto simp: aofAPI_def split: prod.splits)
  with sstep.Remove [OF this(1)] show ?thesis by blast
qed

lemma demoStart_free: "aofView (demoStart, demoFs) c = None"
  by (simp add: aofView_def bareStore_def getEntry_def emptyStore_def)

lemma New_prefix:
  assumes "New g locks handle alive pid dir i fs = Some (Inr s', fs')" and "dir \<noteq> '':memory:''" and "0 \<le> i"
  shows "sprefix s' \<in> set ALPHABET"
proof -
  have o: "openInstance g handle i emptyStore fs = Some (Inr s', fs')"
    using assms by (simp add: New_def)
  have "nat i < length ALPHABET" using openInstance_id [OF o] assms(3) by (simp add: ALPHABET_def)
  then show ?thesis using openInstance_instance(2) [OF o] by simp
qed

text \<open>C5. Any sequence of HTTP requests, whatever their contents, keeps the engine's invariant: the state
  after a request is again a state of a run of the engine, so crash recovery and the refinement to the
  table of links hold of the service. Requests leave the count of durable changes alone.\<close>

theorem Handle_stays_in_run:
  assumes "sinit i st" and "(sstep i)\<^sup>*\<^sup>* st (d, s, fs, h)" and "appStore a = (s, fs)"
    and "Handle env (aofAPI e) method path body token client a = Some (r, a')" and "in_i64 (eClk e 0)"
  shows "\<exists>s' fs' h'. appStore a' = (s', fs') \<and> (sstep i)\<^sup>*\<^sup>* st (d, s', fs', h') \<and> sinv i d s' fs' h'"
proof -
  obtain s' fs' where a': "appStore a' = (s', fs')" by (cases "appStore a'")
  then have "api_call env (aofAPI e) token (s, fs) (s', fs')" using Handle_call [OF assms(4)] assms(3) by simp
  from api_call_step [OF this assms(5)] obtain h' where "(sstep i)\<^sup>=\<^sup>= (d, s, fs, h) (d, s', fs', h')" by blast
  then have run: "(sstep i)\<^sup>*\<^sup>* st (d, s', fs', h')"
    using assms(2) by (auto intro: rtranclp.rtrancl_into_rtrancl)
  then show ?thesis using a' reachable_inv [OF assms(1) run] by blast
qed

theorem Handle_stays_in_run_witness:
  "\<exists>a' s' fs' h'. Handle demoEnv (aofAPI demoAof) ''POST'' ''/api/shorten'' ''http://x'' [] ''10.0.0.1''
        (demoApp\<lparr>appStore := (demoStart, demoFs)\<rparr>) = Some (json 201 (createdBody ''al''), a')
     \<and> appStore a' = (s', fs') \<and> (sstep 0)\<^sup>*\<^sup>* (0, demoStart, demoFs, []) (0, s', fs', h') \<and> sinv 0 0 s' fs' h'"
proof -
  obtain a' where h: "Handle demoEnv (aofAPI demoAof) ''POST'' ''/api/shorten'' ''http://x'' [] ''10.0.0.1''
      (demoApp\<lparr>appStore := (demoStart, demoFs)\<rparr>) = Some (json 201 (createdBody ''al''), a')"
    using Handle_demo [OF demoStart_free] by blast
  then show ?thesis
    using Handle_stays_in_run [OF demo_init rtranclp.rtrancl_refl _ h] by (auto simp: demoAof_def in_i64_def)
qed

section \<open>The service answers\<close>

lemma aof_answers:
  assumes "sinv i d s fs h" and "rt_ok (eRt e)"
    and "unmarshalShorten env body \<noteq> None \<Longrightarrow> freshCode s (eDraws e) \<noteq> None"
    and "\<And>urls. unmarshalBulk env body = Some urls \<Longrightarrow> length urls \<le> MaxBulkURLs
          \<Longrightarrow> ShortenMany (eRnd e) (eManyDraws e) (eClk e 0) urls (LinkTTLMS env) fs s \<noteq> None"
    and "\<And>q. in_i64 (int (card (matching q s)) + MaxListLimit)"
  shows "answers env (aofAPI e) body (s, fs)"
proof -
  have "Shorten (eDraws e) now url al hasAlias ttl fs s \<noteq> None" if "unmarshalShorten env body \<noteq> None" for now url al hasAlias ttl
    using assms(3) [OF that] by (auto simp: Shorten_def Let_def)
  moreover have "Resolve (eRt e) (eTrack e) (eClk e) code fs s \<noteq> None" for code
    using sinv_Resolve [OF assms(1)] by (metis option.distinct(1))
  moreover have "ListLinks (eRt e) limit offset sortBy q s \<noteq> None" if "1 \<le> limit" "limit \<le> MaxListLimit" "0 \<le> offset" for limit offset sortBy q
  proof -
    have "shard_ok s" using assms(1) by (auto simp: sinv_def wf_index_def shard_ok_def)
    then obtain items where "ListLinks (eRt e) limit offset sortBy q s = pageOf limit offset items" "length items = card (matching q s)"
      by (rule ListLinks_items [OF assms(2)]) (rule that)
    moreover have "in_i64 (int (card (matching q s)) + limit)" using assms(5) [of q] that by (simp add: in_i64_def)
    ultimately show ?thesis using pageOf_spec [of limit offset items] that by simp
  qed
  ultimately show ?thesis using assms(4) by (auto simp: answers_def aofAPI_def split: prod.splits simp del: not_None_eq)
qed

text \<open>C32. Over the log engine the handler returns for every request, whatever its bytes, with one exception: a \<open>GET\<close>
  whose target has an empty path makes it panic on \<open>pathname[1:]\<close>. It is assumed that the instance is alone in its directory
  and has not crashed, that the random bytes let the retry loops of this request find a free code, and that
  there are at most \<open>2^63 - 1001\<close> links.\<close>

theorem Handle_returns:
  assumes "sinit i st" and "(sstep i)\<^sup>*\<^sup>* st (d, s, fs, h)" and "appStore a = (s, fs)" and "rt_ok (eRt e)"
    and "unmarshalShorten env body \<noteq> None \<longrightarrow> freshCode s (eDraws e) \<noteq> None"
    and "\<forall>urls. unmarshalBulk env body = Some urls \<longrightarrow> length urls \<le> MaxBulkURLs
          \<longrightarrow> ShortenMany (eRnd e) (eManyDraws e) (eClk e 0) urls (LinkTTLMS env) fs s \<noteq> None"
    and "\<forall>q. in_i64 (int (card (matching q s)) + MaxListLimit)"
  shows "Handle env (aofAPI e) method path body token client a = None \<longleftrightarrow> method = ''GET'' \<and> fst (splitPath path) = []"
proof -
  have "answers env (aofAPI e) body (appStore a)"
    using aof_answers [OF reachable_inv [OF assms(1,2)] assms(4)] assms(3,5-7) by metis
  then show ?thesis by (rule Handle_None_iff)
qed

theorem Handle_returns_witness:
  "Handle demoEnv (aofAPI demoAof) ''POST'' ''/api/shorten/bulk'' ''http://x'' [] ''10.0.0.1'' (demoApp\<lparr>appStore := (demoStart, demoFs)\<rparr>) \<noteq> None
   \<and> Handle demoEnv (aofAPI demoAof) ''GET'' ''?q'' ''http://x'' [] [] (demoApp\<lparr>appStore := (demoStart, demoFs)\<rparr>) = None"
proof -
  let ?a = "demoApp\<lparr>appStore := (demoStart, demoFs)\<rparr>"
  have f: "freshCode demoStart (eDraws demoAof) \<noteq> None" by (simp add: demoAof_def Let_def)
  have m: "ShortenMany (eRnd demoAof) (eManyDraws demoAof) (eClk demoAof 0) urls (LinkTTLMS demoEnv) demoFs demoStart \<noteq> None"
    if "unmarshalBulk demoEnv ''http://x'' = Some urls" for urls
    using that by (auto simp: demoAof_def demoEnv_def ShortenMany_def Let_def)
  have "matching q demoStart = {}" for q by (simp add: matching_def)
  then have c: "in_i64 (int (card (matching q demoStart)) + MaxListLimit)" for q by (simp add: in_i64_def MaxListLimit_def)
  have rt: "rt_ok (eRt demoAof)" by (simp add: demoAof_def rt_ok_det_rt)
  have st: "appStore ?a = (demoStart, demoFs)" by simp
  have "Handle demoEnv (aofAPI demoAof) mth path ''http://x'' [] client ?a = None \<longleftrightarrow> mth = ''GET'' \<and> fst (splitPath path) = []"
    for mth path client
    by (rule Handle_returns [OF demo_init rtranclp.rtrancl_refl st rt]) (intro allI impI f m c, assumption?)+
  then show ?thesis by (simp add: splitPath_def)
qed

text \<open>C4. A link the service acknowledged survives a crash: after a 201 from \<open>POST /api/shorten\<close> and one tick
  of the fsync timer, whatever byte the crash cuts the log at, the instance restarts and \<open>GET /code\<close>
  redirects to the submitted url until the link expires (the code \<open>metrics\<close> excepted). The instance runs alone in a directory that
  was fresh when it first started there and has seen no earlier crash, and its system calls on the log succeed.\<close>

theorem acknowledged_link_survives:
  assumes "sinit i st" and "(sstep i)\<^sup>*\<^sup>* st (d, s, fs, h)" and "appStore a = (s, fs)"
    and "Handle env (aofAPI e) ''POST'' ''/api/shorten'' body token client a = Some (r, a')" and "Status1 r = 201"
    and "in_i64 (eClk e 0)" and "syncTick (snd (appStore a')) (fst (appStore a')) = (s1, fs1)"
    and "syncedBytes fs1 (ownName s1) \<le> k" and "dir \<noteq> '':memory:''"
  shows "\<exists>code url ttl s' fs'. acknowledges env body r code url ttl
           \<and> New g locks (Some goodIO) alive pid dir i (crashAt k s1 fs1) = Some (Inr s', fs')
           \<and> (\<forall>e2. code \<noteq> ''metrics'' \<longrightarrow> expiry (eClk e 0) ttl = 0 \<or> eClk e2 2 < expiry (eClk e 0) ttl
                \<longrightarrow> redirects (aofAPI e2) code url (s', fs'))"
proof -
  note inv0 = reachable_inv [OF assms(1,2)]
  have ok: "aofOk (appStore a)" using inv0 assms(3) by (auto simp: aofOk_def sinv_def opened_def)
  obtain code url ttl al hasAlias where c: "acknowledges env body r code url ttl" "code \<noteq> []" "hasAlias \<longrightarrow> codeOK al"
    "apiShorten (aofAPI e) url al hasAlias ttl (appStore a) = Some (code, appStore a')"
    by (rule aof_api.created_link [OF assms(4,5) ok TrueI], rule that)
  obtain s0 fs0 where a': "appStore a' = (s0, fs0)" by (cases "appStore a'")
  let ?row = "Row code url (eClk e 0) (expiry (eClk e 0) ttl) i 0"
  have sh: "Shorten (eDraws e) (eClk e 0) url al hasAlias ttl fs s = Some (code, s0, fs0)"
    using c(4) assms(3) a' by (simp add: aofAPI_def)
  have "sstep i (d, s, fs, h) (d, s0, fs0, h @ [?row])"
    using sstep.Shorten [OF sh codeOK_code_ok [OF c(3) [THEN mp]] assms(6)] c(2) by simp
  moreover have "sstep i (d, s0, fs0, h @ [?row]) (length (h @ [?row]), s1, fs1, h @ [?row])"
    using assms(7) a' by (intro sstep.Sync) simp
  ultimately have run: "(sstep i)\<^sup>*\<^sup>* st (length (h @ [?row]), s1, fs1, h @ [?row])"
    using assms(2) by (meson rtranclp.rtrancl_into_rtrancl)
  note inv = reachable_inv [OF assms(1) run]
  obtain s' fs' where new: "New g locks (Some goodIO) alive pid dir i (crashAt k s1 fs1) = Some (Inr s', fs')" "sinstance s' = i"
    using New_reopens [OF inv assms(9)] by blast
  then obtain n where n: "length (h @ [?row]) \<le> n" "rows s' = tableOf (take n (h @ [?row]))"
    using crash_recovers [OF inv assms(8) new(1) assms(9) new(2)] by blast
  then have "rows s' code = Some (url, eClk e 0, expiry (eClk e 0) ttl, i)"
    by (simp add: tableOf_snoc)
  then have view: "aofView (s', fs') code = Some (url, expiry (eClk e 0) ttl)"
    by (auto simp: rows_def rowOf_def aofView_def)
  have ok': "aofOk (s', fs')" using New_prefix [OF new(1) assms(9)] inv0 by (simp add: aofOk_def sinv_def opened_def)
  have "codeOK code" using c(1) by (simp add: acknowledges_def)
  then have "redirects (aofAPI e2) code url (s', fs')"
    if "code \<noteq> ''metrics''" and "expiry (eClk e 0) ttl = 0 \<or> eClk e2 2 < expiry (eClk e 0) ttl" for e2
    using aof_api.redirect_live [OF ok' view that(2) _ that(1)] by simp
  then show ?thesis using c(1) new(1) by blast
qed

theorem acknowledged_link_survives_witness:
  "\<exists>a' s1 fs1 s' fs'. Handle demoEnv (aofAPI demoAof) ''POST'' ''/api/shorten'' ''http://x'' [] ''10.0.0.1''
        (demoApp\<lparr>appStore := (demoStart, demoFs)\<rparr>) = Some (json 201 (createdBody ''al''), a')
     \<and> syncTick (snd (appStore a')) (fst (appStore a')) = (s1, fs1)
     \<and> New det_rt (Some goodLocks) (Some goodIO) (\<lambda>_. True) 7 ''data'' 0 (crashAt (syncedBytes fs1 (ownName s1)) s1 fs1) = Some (Inr s', fs')
     \<and> (\<exists>r2 b'. Handle demoEnv (aofAPI demoAof) ''GET'' ''/al'' [] [] [] (demoApp\<lparr>appStore := (s', fs')\<rparr>) = Some (r2, b')
                 \<and> Location r2 = ''http://x'')"
proof -
  obtain a' where h: "Handle demoEnv (aofAPI demoAof) ''POST'' ''/api/shorten'' ''http://x'' [] ''10.0.0.1''
      (demoApp\<lparr>appStore := (demoStart, demoFs)\<rparr>) = Some (json 201 (createdBody ''al''), a')"
    using Handle_demo [OF demoStart_free] by blast
  obtain s1 fs1 where sy: "syncTick (snd (appStore a')) (fst (appStore a')) = (s1, fs1)" by fastforce
  have st: "appStore (demoApp\<lparr>appStore := (demoStart, demoFs)\<rparr>) = (demoStart, demoFs)" by simp
  have clk: "in_i64 (eClk demoAof 0)" by (simp add: demoAof_def in_i64_def)
  from acknowledged_link_survives [OF demo_init rtranclp.rtrancl_refl st h reply_status(1) clk sy order_refl,
      of "''data''" det_rt "Some goodLocks" "\<lambda>_. True" 7]
  obtain s' fs' where p: "New det_rt (Some goodLocks) (Some goodIO) (\<lambda>_. True) 7 ''data'' 0 (crashAt (syncedBytes fs1 (ownName s1)) s1 fs1) = Some (Inr s', fs')"
      "redirects (aofAPI demoAof) ''al'' ''http://x'' (s', fs')"
    by (auto simp: demo_acknowledges demoAof_def expiry_def i64_id in_i64_def)
  then show ?thesis using h sy redirects_demo [of "aofAPI demoAof" "''http://x''" "demoApp\<lparr>appStore := (s', fs')\<rparr>"] by auto
qed

end
