(* ===== verification/HotCache.thy ===== *)
theory HotCache
  imports Index "HOL-Library.Signed_Division"
begin

text \<open>
  What the two external engines of \<open>internal/store\<close> share: the bounded FIFO cache \<open>kvCache\<close> in front of
  the database and the value codec \<open>encVal\<close>/\<open>decVal\<close>, both of \<open>kvstore.go\<close>. The cache holds at most its
  capacity, answers only what was put and is still fresh, and never answers an expired link.
\<close>

section \<open>The cache\<close>

record cacheEnt =
  ce_u :: bytes
  ce_e :: int
  ce_at :: int

record cacheShard =
  cs_m :: "(bytes, cacheEnt) gomap"
  cs_order :: "bytes list"
  cs_head :: nat

record kvCache =
  cc_shards :: "nat \<Rightarrow> cacheShard"
  cc_cap :: int
  cc_ttlMs :: int

definition newKvCache :: "int \<Rightarrow> int \<Rightarrow> kvCache" where
  "newKvCache capTotal ttlMs =
     (let cap = capTotal sdiv int numShards
      in \<lparr>cc_shards = (\<lambda>_. \<lparr>cs_m = fmempty, cs_order = [], cs_head = 0\<rparr>),
          cc_cap = (if cap < 16 then 16 else cap), cc_ttlMs = ttlMs\<rparr>)"

definition setShard :: "bytes \<Rightarrow> cacheShard \<Rightarrow> kvCache \<Rightarrow> kvCache" where
  "setShard code sh c = c\<lparr>cc_shards := (cc_shards c)(shardOf code := sh)\<rparr>"

definition cacheGet :: "int \<Rightarrow> bytes \<Rightarrow> kvCache \<Rightarrow> (bytes \<times> int) option \<times> kvCache" where
  "cacheGet now code c =
     (let sh = cc_shards c (shardOf code)
      in case fmlookup (cs_m sh) code of
           None \<Rightarrow> (None, c)
         | Some e \<Rightarrow>
             if 0 < cc_ttlMs c \<and> cc_ttlMs c < i64 (now - ce_at e)
             then (None, setShard code (sh\<lparr>cs_m := fmdrop code (cs_m sh)\<rparr>) c)
             else if ce_e e \<noteq> 0 \<and> ce_e e \<le> now then (None, c)
             else (Some (ce_u e, ce_e e), c))"

text \<open>The eviction loop of \<open>put\<close>.\<close>

function evictLoop :: "int \<Rightarrow> cacheShard \<Rightarrow> cacheShard" where
  "evictLoop cap sh =
     (if cap \<le> int (maplen (cs_m sh)) \<and> cs_head sh < length (cs_order sh)
      then evictLoop cap (sh\<lparr>cs_m := fmdrop (cs_order sh ! cs_head sh) (cs_m sh), cs_head := cs_head sh + 1\<rparr>)
      else sh)"
  by pat_completeness auto
termination by (relation "measure (\<lambda>(cap, sh). length (cs_order sh) - cs_head sh)") auto

declare evictLoop.simps [simp del]

definition compactOrder :: "cacheShard \<Rightarrow> cacheShard" where
  "compactOrder sh =
     (if 1024 < cs_head sh \<and> length (cs_order sh) \<le> cs_head sh * 2
      then sh\<lparr>cs_order := drop (cs_head sh) (cs_order sh), cs_head := 0\<rparr>
      else sh)"

definition cachePut :: "int \<Rightarrow> bytes \<Rightarrow> bytes \<Rightarrow> int \<Rightarrow> kvCache \<Rightarrow> kvCache" where
  "cachePut now code u e c =
     (let sh = cc_shards c (shardOf code); ent = \<lparr>ce_u = u, ce_e = e, ce_at = now\<rparr>
      in if fmlookup (cs_m sh) code \<noteq> None
         then setShard code (sh\<lparr>cs_m := fmupd code ent (cs_m sh)\<rparr>) c
         else
           let sh = compactOrder (evictLoop (cc_cap c) sh)
           in setShard code (sh\<lparr>cs_order := cs_order sh @ [code], cs_m := fmupd code ent (cs_m sh)\<rparr>) c)"

definition cacheRemove :: "bytes \<Rightarrow> kvCache \<Rightarrow> kvCache" where
  "cacheRemove code c =
     (let sh = cc_shards c (shardOf code) in setShard code (sh\<lparr>cs_m := fmdrop code (cs_m sh)\<rparr>) c)"

section \<open>Pending hits\<close>

text \<open>The array \<open>dirty\<close> of both engines: per shard, the hits since the last flush.\<close>

type_synonym hitTable = "nat \<Rightarrow> (bytes, int) gomap"

definition pendingHits :: "bytes \<Rightarrow> hitTable \<Rightarrow> int" where
  "pendingHits code d = (case fmlookup (d (shardOf code)) code of None \<Rightarrow> 0 | Some n \<Rightarrow> n)"

definition bumpHit :: "bytes \<Rightarrow> hitTable \<Rightarrow> hitTable" where
  "bumpHit code d = d(shardOf code := fmupd code (i64 (pendingHits code d + 1)) (d (shardOf code)))"

lemma pendingHits_bumpHit [simp]:
  "pendingHits c (bumpHit code d) = (if c = code then i64 (pendingHits code d + 1) else pendingHits c d)"
  by (simp add: pendingHits_def bumpHit_def)

lemma pendingHits_empty [simp]: "pendingHits c (\<lambda>_. fmempty) = 0"
  by (simp add: pendingHits_def)

text \<open>Pending hits are kept in the shard of their code.\<close>

definition dirty_ok :: "hitTable \<Rightarrow> bool" where
  "dirty_ok d \<longleftrightarrow> (\<forall>i code. fmlookup (d i) code \<noteq> None \<longrightarrow> i = shardOf code)"

lemma dirty_ok_bump: "dirty_ok d \<Longrightarrow> dirty_ok (bumpHit code d)"
  by (auto simp: dirty_ok_def bumpHit_def)

lemma dirty_ok_empty [simp]: "dirty_ok (\<lambda>_. fmempty)"
  by (simp add: dirty_ok_def)

section \<open>The value codec\<close>

abbreviation BAR :: char where
  "BAR \<equiv> CHR ''|''"

definition encVal :: "int \<Rightarrow> int \<Rightarrow> bytes \<Rightarrow> bytes" where
  "encVal e c u = ''v1|'' @ FormatInt e @ ''|'' @ FormatInt c @ ''|'' @ u"

definition decVal :: "bytes \<Rightarrow> (int \<times> int \<times> bytes) option" where
  "decVal v =
     (let s = TrimPrefix v ''v1|''
      in case IndexByte s BAR of
           None \<Rightarrow> None
         | Some p \<Rightarrow>
             (case ParseInt (take p s) of
                (e, None) \<Rightarrow>
                  (let rest = drop (p + 1) s
                   in case IndexByte rest BAR of
                        Some q \<Rightarrow>
                          (case ParseInt (take q rest) of
                             (c, None) \<Rightarrow> Some (e, c, drop (q + 1) rest)
                           | _ \<Rightarrow> None)
                      | None \<Rightarrow> Some (e, 0, rest))
              | _ \<Rightarrow> None))"

section \<open>The codec round-trips\<close>

lemma TrimPrefix_append [simp]: "TrimPrefix (p @ s) p = s"
  by (simp add: TrimPrefix_def HasPrefix_def)

lemma decVal_encVal:
  assumes "in_i64 e" and "in_i64 c"
  shows "decVal (encVal e c u) = Some (e, c, u)"
proof -
  have "IndexByte (FormatInt n @ BAR # ys) BAR = Some (length (FormatInt n))" for n ys
    by (rule IndexByte_split) simp
  moreover have "TrimPrefix (encVal e c u) ''v1|'' = FormatInt e @ BAR # FormatInt c @ BAR # u"
    using TrimPrefix_append [of "''v1|''" "FormatInt e @ BAR # FormatInt c @ BAR # u"] by (simp add: encVal_def)
  ultimately show ?thesis using assms by (simp add: decVal_def ParseInt_FormatInt)
qed

interpretation val_codec: codec "\<lambda>(e, c, u). encVal e c u" decVal "\<lambda>(e, c, u). in_i64 e \<and> in_i64 c"
  by unfold_locales (auto simp: decVal_encVal)

text \<open>Rows of the external engines round-trip: for any url, whatever bytes it holds, and any 64-bit
  expiry and creation time, \<open>decVal\<close> returns what \<open>encVal\<close> wrote, and different rows have different
  encodings. A row of the older format without a version tag reads the same.\<close>

theorem value_roundtrip:
  assumes "in_i64 e" and "in_i64 c"
  shows "decVal (encVal e c u) = Some (e, c, u)
         \<and> (in_i64 e' \<and> in_i64 c' \<longrightarrow> (encVal e c u = encVal e' c' u' \<longleftrightarrow> (e, c, u) = (e', c', u')))
         \<and> decVal (drop 3 (encVal e c u)) = Some (e, c, u)"
proof -
  have "\<not> HasPrefix (FormatInt e @ BAR # FormatInt c @ BAR # u) ''v1|''"
    using FormatInt_chars [of "CHR ''v''" e] by (cases "FormatInt e") (auto simp: HasPrefix_def is_dec_def)
  then have "TrimPrefix (FormatInt e @ BAR # FormatInt c @ BAR # u) ''v1|'' = TrimPrefix (encVal e c u) ''v1|''"
    using TrimPrefix_append [of "''v1|''" "FormatInt e @ BAR # FormatInt c @ BAR # u"]
    by (simp add: TrimPrefix_def encVal_def)
  then have "decVal (drop 3 (encVal e c u)) = decVal (encVal e c u)"
    by (simp add: decVal_def encVal_def)
  then show ?thesis
    using assms val_codec.enc_inj [of "(e, c, u)" "(e', c', u')"] decVal_encVal by auto
qed

theorem value_roundtrip_witness:
  "decVal (encVal 7 5 ''http://x/a|b'') = Some (7, 5, ''http://x/a|b'')
   \<and> encVal 7 5 ''http://x/a|b'' \<noteq> encVal 7 6 ''http://x/a|b''
   \<and> decVal (drop 3 (encVal 7 5 ''http://x/a|b'')) = Some (7, 5, ''http://x/a|b'')"
  using value_roundtrip [of 7 5 "''http://x/a|b''" 7 6 "''http://x/a|b''"] by (simp add: in_i64_def)

section \<open>What the cache holds\<close>

definition cacheEntry :: "bytes \<Rightarrow> kvCache \<Rightarrow> cacheEnt option" where
  "cacheEntry code c = fmlookup (cs_m (cc_shards c (shardOf code))) code"

text \<open>Every key waits in the part of the queue that is not yet consumed, and a shard holds at most its
  capacity.\<close>

definition shard_bounded :: "int \<Rightarrow> cacheShard \<Rightarrow> bool" where
  "shard_bounded cap sh \<longleftrightarrow>
     cs_head sh \<le> length (cs_order sh) \<and> int (maplen (cs_m sh)) \<le> cap
     \<and> fset (fmdom (cs_m sh)) \<subseteq> set (drop (cs_head sh) (cs_order sh))"

definition cache_ok :: "kvCache \<Rightarrow> bool" where
  "cache_ok c \<longleftrightarrow> 0 < cc_cap c \<and> (\<forall>i. shard_bounded (cc_cap c) (cc_shards c i))"

lemma maplen_fmupd_le: "maplen (fmupd k v m) \<le> Suc (maplen m)"
  by (simp add: maplen_def fcard_finsert_if)

lemma maplen_fmupd_present: "fmlookup m k \<noteq> None \<Longrightarrow> maplen (fmupd k v m) = maplen m"
  by (simp add: maplen_def finsert_absorb fmdom_notI fmlookup_dom_iff)

lemma maplen_fmdrop_le: "maplen (fmdrop k m) \<le> maplen m"
  unfolding maplen_def by (rule fcard_mono) auto

lemma maplen_fmdom_empty: "fset (fmdom m) \<subseteq> {} \<Longrightarrow> maplen m = 0"
  by (simp add: maplen_def fcard.rep_eq)

text \<open>The loop ends below the capacity, having dropped only the oldest keys.\<close>

lemma evictLoop_props:
  assumes "cs_head sh \<le> length (cs_order sh)" and "fset (fmdom (cs_m sh)) \<subseteq> set (drop (cs_head sh) (cs_order sh))"
    and "0 < cap"
  shows "cs_order (evictLoop cap sh) = cs_order sh \<and> cs_head (evictLoop cap sh) \<le> length (cs_order sh)
    \<and> int (maplen (cs_m (evictLoop cap sh))) < cap
    \<and> fset (fmdom (cs_m (evictLoop cap sh))) \<subseteq> set (drop (cs_head (evictLoop cap sh)) (cs_order sh))
    \<and> cs_m (evictLoop cap sh) \<subseteq>\<^sub>f cs_m sh"
  using assms
proof (induction cap sh rule: evictLoop.induct)
  case (1 cap sh)
  show ?case
  proof (cases "cap \<le> int (maplen (cs_m sh)) \<and> cs_head sh < length (cs_order sh)")
    case True
    let ?sh = "sh\<lparr>cs_m := fmdrop (cs_order sh ! cs_head sh) (cs_m sh), cs_head := cs_head sh + 1\<rparr>"
    have "drop (cs_head sh) (cs_order sh) = cs_order sh ! cs_head sh # drop (cs_head sh + 1) (cs_order sh)"
      using True by (simp add: Cons_nth_drop_Suc)
    then have "fset (fmdom (cs_m ?sh)) \<subseteq> set (drop (cs_head ?sh) (cs_order ?sh))"
      using 1(3) by auto
    note ih = 1(1) [OF True _ this \<open>0 < cap\<close>]
    have "cs_m ?sh \<subseteq>\<^sub>f cs_m sh" by (simp add: fmsubset.rep_eq map_le_def)
    moreover have "evictLoop cap sh = evictLoop cap ?sh" using True by (simp add: evictLoop.simps [of cap sh])
    ultimately show ?thesis using ih True by (auto simp: fmsubset.rep_eq intro: map_le_trans)
  next
    case False
    have "maplen (cs_m sh) = 0" if "cs_head sh = length (cs_order sh)"
      using 1(3) that by (intro maplen_fmdom_empty) simp
    then show ?thesis
      using False 1(2-4) by (auto simp: evictLoop.simps [of cap sh] fmsubset.rep_eq)
  qed
qed

lemma shard_bounded_put:
  assumes "shard_bounded cap sh" and "0 < cap" and "fmlookup (cs_m sh) code = None"
  defines "sh' \<equiv> compactOrder (evictLoop cap sh)"
  shows "shard_bounded cap (sh'\<lparr>cs_order := cs_order sh' @ [code], cs_m := fmupd code ent (cs_m sh')\<rparr>)"
    and "cs_m sh' \<subseteq>\<^sub>f cs_m sh"
proof -
  have b: "cs_head sh \<le> length (cs_order sh)" "fset (fmdom (cs_m sh)) \<subseteq> set (drop (cs_head sh) (cs_order sh))"
    using assms(1) by (simp_all add: shard_bounded_def)
  note ev = evictLoop_props [OF b assms(2)]
  have "cs_head sh' \<le> length (cs_order sh')" "cs_m sh' = cs_m (evictLoop cap sh)"
    "drop (cs_head sh') (cs_order sh') = drop (cs_head (evictLoop cap sh)) (cs_order sh)"
    using ev by (simp_all add: sh'_def compactOrder_def)
  then show "shard_bounded cap (sh'\<lparr>cs_order := cs_order sh' @ [code], cs_m := fmupd code ent (cs_m sh')\<rparr>)"
    "cs_m sh' \<subseteq>\<^sub>f cs_m sh"
    using ev maplen_fmupd_le [of code ent "cs_m sh'"] by (auto simp: shard_bounded_def)
qed

lemma cache_okI:
  assumes "cache_ok c" and "shard_bounded (cc_cap c) sh"
  shows "cache_ok (setShard code sh c)"
  using assms by (simp add: cache_ok_def setShard_def)

lemma setShard_simps [simp]:
  "cc_cap (setShard code sh c) = cc_cap c" "cc_ttlMs (setShard code sh c) = cc_ttlMs c"
  "cc_shards (setShard code sh c) i = (if i = shardOf code then sh else cc_shards c i)"
  by (simp_all add: setShard_def)

lemma shard_bounded_drop:
  "shard_bounded cap sh \<Longrightarrow> shard_bounded cap (sh\<lparr>cs_m := fmdrop k (cs_m sh)\<rparr>)"
  using maplen_fmdrop_le [of k "cs_m sh"] by (auto simp: shard_bounded_def)

lemma cache_ok_put: "cache_ok c \<Longrightarrow> cache_ok (cachePut now code u e c)"
proof -
  assume ok: "cache_ok c"
  let ?sh = "cc_shards c (shardOf code)" and ?ent = "\<lparr>ce_u = u, ce_e = e, ce_at = now\<rparr>"
  have b: "shard_bounded (cc_cap c) ?sh" "0 < cc_cap c" using ok by (simp_all add: cache_ok_def)
  show ?thesis
  proof (cases "fmlookup (cs_m ?sh) code")
    case None
    then show ?thesis using shard_bounded_put(1) [OF b None] cache_okI [OF ok] by (simp add: cachePut_def Let_def)
  next
    case (Some x)
    then have "code |\<in>| fmdom (cs_m ?sh)" by (simp add: fmdomI)
    then have "shard_bounded (cc_cap c) (?sh\<lparr>cs_m := fmupd code ?ent (cs_m ?sh)\<rparr>)"
      using b(1) Some maplen_fmupd_present [of "cs_m ?sh" code] by (auto simp: shard_bounded_def)
    then show ?thesis using Some cache_okI [OF ok] by (simp add: cachePut_def Let_def)
  qed
qed

lemma cache_ok_get: "cache_ok c \<Longrightarrow> cache_ok (snd (cacheGet now code c))"
  by (auto simp: cacheGet_def Let_def cache_ok_def intro!: cache_okI shard_bounded_drop split: option.split)

lemma cache_ok_remove: "cache_ok c \<Longrightarrow> cache_ok (cacheRemove code c)"
  by (auto simp: cacheRemove_def Let_def cache_ok_def intro!: cache_okI shard_bounded_drop)

lemma cache_ok_new: "cache_ok (newKvCache cap ttl)"
  by (auto simp: cache_ok_def newKvCache_def Let_def shard_bounded_def maplen_def fcard.rep_eq)

text \<open>Which entries an operation keeps.\<close>

lemma cacheEntry_put:
  assumes "cache_ok c"
  shows "cacheEntry code (cachePut now code u e c) = Some \<lparr>ce_u = u, ce_e = e, ce_at = now\<rparr>"
    and "code' \<noteq> code \<Longrightarrow> cacheEntry code' (cachePut now code u e c) \<in> {None, cacheEntry code' c}"
proof -
  let ?sh = "cc_shards c (shardOf code)"
  show "cacheEntry code (cachePut now code u e c) = Some \<lparr>ce_u = u, ce_e = e, ce_at = now\<rparr>"
    by (auto simp: cachePut_def cacheEntry_def Let_def)
  assume "code' \<noteq> code"
  show "cacheEntry code' (cachePut now code u e c) \<in> {None, cacheEntry code' c}"
  proof (cases "fmlookup (cs_m ?sh) code")
    case None
    have "shard_bounded (cc_cap c) ?sh" "0 < cc_cap c" using assms by (simp_all add: cache_ok_def)
    from shard_bounded_put(2) [OF this None]
    have "fmlookup (cs_m (compactOrder (evictLoop (cc_cap c) ?sh))) code' \<in> {None, fmlookup (cs_m ?sh) code'}"
      by (auto simp: fmsubset.rep_eq map_le_def dom_def)
    with None \<open>code' \<noteq> code\<close> show ?thesis by (auto simp: cachePut_def cacheEntry_def Let_def)
  next
    case Some
    with \<open>code' \<noteq> code\<close> show ?thesis by (auto simp: cachePut_def cacheEntry_def Let_def)
  qed
qed

lemma cacheEntry_get:
  "cacheEntry code' (snd (cacheGet now code c)) \<in> {None, cacheEntry code' c}"
  by (auto simp: cacheGet_def cacheEntry_def Let_def split: option.split)

lemma cacheEntry_remove:
  "cacheEntry code' (cacheRemove code c) = (if code' = code then None else cacheEntry code' c)"
  by (auto simp: cacheRemove_def cacheEntry_def Let_def)

lemma cacheEntry_new [simp]: "cacheEntry code (newKvCache cap ttl) = None"
  by (simp add: cacheEntry_def newKvCache_def Let_def)

lemma cacheGet_Some:
  "fst (cacheGet now code c) = Some (u, e) \<longleftrightarrow>
     (\<exists>ent. cacheEntry code c = Some ent \<and> ce_u ent = u \<and> ce_e ent = e
        \<and> \<not> (0 < cc_ttlMs c \<and> cc_ttlMs c < i64 (now - ce_at ent)) \<and> (e = 0 \<or> now < e))"
  by (auto simp: cacheGet_def cacheEntry_def Let_def split: option.split)

section \<open>The cache against an unbounded table\<close>

datatype cache_op = OpGet int bytes | OpPut int bytes bytes int | OpRemove bytes

fun cacheStep :: "cache_op \<Rightarrow> kvCache \<Rightarrow> kvCache" where
  "cacheStep (OpGet now code) c = snd (cacheGet now code c)"
| "cacheStep (OpPut now code u e) c = cachePut now code u e c"
| "cacheStep (OpRemove code) c = cacheRemove code c"

text \<open>The reference: a table that never evicts.\<close>

fun tableStep :: "cache_op \<Rightarrow> (bytes \<Rightarrow> cacheEnt option) \<Rightarrow> bytes \<Rightarrow> cacheEnt option" where
  "tableStep (OpGet now code) m = m"
| "tableStep (OpPut now code u e) m = m(code \<mapsto> \<lparr>ce_u = u, ce_e = e, ce_at = now\<rparr>)"
| "tableStep (OpRemove code) m = m(code := None)"

lemma cache_run:
  assumes "cache_ok c" and "\<And>code. cacheEntry code c \<in> {None, m code}"
  shows "cache_ok (fold cacheStep ops c)"
    and "cacheEntry code (fold cacheStep ops c) \<in> {None, fold tableStep ops m code}"
proof -
  have "cache_ok (fold cacheStep ops c) \<and> (\<forall>code. cacheEntry code (fold cacheStep ops c) \<in> {None, fold tableStep ops m code})"
    using assms
  proof (induction ops arbitrary: c m)
    case (Cons op ops)
    have "cache_ok (cacheStep op c)"
      using Cons(2) by (cases op) (simp_all add: cache_ok_get cache_ok_put cache_ok_remove)
    moreover have "cacheEntry code (cacheStep op c) \<in> {None, tableStep op m code}" for code
    proof (cases op)
      case (OpGet now k)
      then show ?thesis using Cons(3) [of code] cacheEntry_get [of code now k c] by auto
    next
      case (OpPut now k u e)
      then show ?thesis
        using Cons(3) [of code] cacheEntry_put(1) [OF Cons(2), of k now u e]
          cacheEntry_put(2) [OF Cons(2), of code k now u e] by (cases "code = k") auto
    next
      case (OpRemove k)
      then show ?thesis using Cons(3) [of code] by (simp add: cacheEntry_remove)
    qed
    ultimately show ?case using Cons(1) [of "cacheStep op c" "tableStep op m"] by simp
  qed simp
  then show "cache_ok (fold cacheStep ops c)"
    "cacheEntry code (fold cacheStep ops c) \<in> {None, fold tableStep ops m code}" by simp_all
qed

lemma cacheStep_frame [simp]:
  "cc_cap (cacheStep op c) = cc_cap c" "cc_ttlMs (cacheStep op c) = cc_ttlMs c"
  by (cases op; auto simp: cacheGet_def cachePut_def cacheRemove_def Let_def split: option.split)+

lemma cacheRun_frame [simp]:
  "cc_cap (fold cacheStep ops c) = cc_cap c" "cc_ttlMs (fold cacheStep ops c) = cc_ttlMs c"
  by (induction ops arbitrary: c) simp_all

text \<open>C37. The memory for cached links is bounded: after any sequence of lookups, fills and removals no shard
  holds more than the 256th part of the configured entries, or 16 if that is more.\<close>

theorem cache_bounded:
  "int (maplen (cs_m (cc_shards (fold cacheStep ops (newKvCache capTotal ttl)) i))) \<le> max 16 (capTotal sdiv 256)"
proof -
  have "cache_ok (fold cacheStep ops (newKvCache capTotal ttl))"
    by (rule cache_run(1) [OF cache_ok_new, where m = "\<lambda>_. None"]) simp
  moreover have "cc_cap (newKvCache capTotal ttl) = max 16 (capTotal sdiv 256)"
    by (simp add: newKvCache_def numShards_def Let_def)
  ultimately show ?thesis by (simp add: cache_ok_def shard_bounded_def)
qed

text \<open>The cache never invents or revives a link: whatever operations came before, an answer is the value
  last put under the code and not removed since, it was put at most the staleness bound ago, and it
  has not expired. Right after a \<open>put\<close> a lookup of that code within both bounds does answer.\<close>

theorem cache_answers:
  assumes "fst (cacheGet now code (fold cacheStep ops (newKvCache capTotal ttl))) = Some (u, e)"
  shows "(\<exists>at. fold tableStep ops (\<lambda>_. None) code = Some \<lparr>ce_u = u, ce_e = e, ce_at = at\<rparr>
           \<and> (0 < ttl \<longrightarrow> i64 (now - at) \<le> ttl)) \<and> (e = 0 \<or> now < e)
         \<and> fst (cacheGet now code (fold cacheStep (ops @ [OpPut now code u' e']) (newKvCache capTotal ttl)))
           = (if e' = 0 \<or> now < e' then Some (u', e') else None)"
proof -
  let ?c = "fold cacheStep ops (newKvCache capTotal ttl)"
  have ttl: "cc_ttlMs (newKvCache capTotal ttl) = ttl" by (simp add: newKvCache_def Let_def)
  have start: "cacheEntry c (newKvCache capTotal ttl) \<in> {None, (\<lambda>_. None) c}" for c by simp
  note run = cache_run [OF cache_ok_new start, where ops = ops]
  obtain ent where ent: "cacheEntry code ?c = Some ent" "ce_u ent = u" "ce_e ent = e"
    "\<not> (0 < ttl \<and> ttl < i64 (now - ce_at ent))" "e = 0 \<or> now < e"
    using assms by (auto simp: cacheGet_Some ttl)
  have "fold tableStep ops (\<lambda>_. None) code = Some ent" using run(2) [of code] ent(1) by auto
  moreover have "ent = \<lparr>ce_u = u, ce_e = e, ce_at = ce_at ent\<rparr>" using ent by simp
  moreover have "cacheEntry code (cachePut now code u' e' ?c) = Some \<lparr>ce_u = u', ce_e = e', ce_at = now\<rparr>"
    using run(1) by (intro cacheEntry_put(1)) simp
  then have "fst (cacheGet now code (cachePut now code u' e' ?c)) = (if e' = 0 \<or> now < e' then Some (u', e') else None)"
    using cacheRun_frame(2) [of "ops @ [OpPut now code u' e']" "newKvCache capTotal ttl"] ttl
    by (auto simp: cacheGet_def cacheEntry_def Let_def i64_id in_i64_def)
  ultimately show ?thesis using ent(4,5) by (auto simp: not_less)
qed

theorem cache_answers_witness:
  "fst (cacheGet 9 ''ab'' (fold cacheStep [OpPut 5 ''ab'' ''http://x'' 20] (newKvCache 100 50))) = Some (''http://x'', 20)
   \<and> (\<exists>at. fold tableStep [OpPut 5 ''ab'' ''http://x'' 20] (\<lambda>_. None) ''ab'' = Some \<lparr>ce_u = ''http://x'', ce_e = 20, ce_at = at\<rparr>
        \<and> i64 (9 - at) \<le> 50)"
proof -
  have "cacheEntry ''ab'' (cachePut 5 ''ab'' ''http://x'' 20 (newKvCache 100 50)) = Some \<lparr>ce_u = ''http://x'', ce_e = 20, ce_at = 5\<rparr>"
    by (rule cacheEntry_put(1) [OF cache_ok_new])
  moreover have "cc_ttlMs (cachePut 5 ''ab'' ''http://x'' 20 (newKvCache 100 50)) = 50"
    using cacheStep_frame(2) [of "OpPut 5 ''ab'' ''http://x'' 20" "newKvCache 100 50"]
    by (simp add: newKvCache_def Let_def)
  ultimately have "fst (cacheGet 9 ''ab'' (fold cacheStep [OpPut 5 ''ab'' ''http://x'' 20] (newKvCache 100 50))) = Some (''http://x'', 20)"
    by (simp add: cacheGet_Some i64_id in_i64_def)
  from this cache_answers [OF this] show ?thesis by auto
qed

lemma fold_replicate_snoc: "fold f (concat (replicate (Suc n) xs)) s = fold f xs (fold f (concat (replicate n xs)) s)"
proof -
  have "concat (replicate (Suc n) xs) = concat (replicate n xs) @ xs"
    by (induction n) simp_all
  then show ?thesis by simp
qed

lemma evictLoop_below: "int (maplen (cs_m sh)) < cap \<Longrightarrow> evictLoop cap sh = sh"
  by (simp add: evictLoop.simps)

text \<open>The queue behind the bounded table is not bounded: a code that is cached and removed (or found
  stale) again and again leaves one queue element per round, since elements are consumed only when the
  table is full.\<close>

theorem cache_queue_grows:
  "length (cs_order (cc_shards (fold cacheStep (concat (replicate n [OpPut now code u e, OpRemove code]))
     (newKvCache capTotal ttl)) (shardOf code))) = n"
proof -
  let ?c = "\<lambda>n. fold cacheStep (concat (replicate n [OpPut now code u e, OpRemove code])) (newKvCache capTotal ttl)"
  have cap: "0 < cc_cap (newKvCache capTotal ttl)" by (simp add: newKvCache_def Let_def)
  have "cc_shards (?c n) (shardOf code) = \<lparr>cs_m = fmempty, cs_order = replicate n code, cs_head = 0\<rparr>"
  proof (induction n)
    case 0
    show ?case by (simp add: newKvCache_def Let_def)
  next
    case (Suc n)
    have "evictLoop (cc_cap (?c n)) (cc_shards (?c n) (shardOf code)) = cc_shards (?c n) (shardOf code)"
      using cap Suc by (intro evictLoop_below) (simp add: maplen_def fcard_fempty)
    moreover have "fmdrop code (fmupd code x fmempty) = fmempty" for x :: cacheEnt
      by (rule fmap_ext) simp
    ultimately show ?case
      using Suc replicate_Suc [of n code] by (simp add: fold_replicate_snoc cachePut_def cacheRemove_def compactOrder_def Let_def
          replicate_append_same del: replicate.simps)
  qed
  then show ?thesis by simp
qed

section \<open>Agreement of the cache with the rows behind it\<close>

text \<open>Where a code has both a cached entry and a row, they are the same link.\<close>

definition agrees :: "kvCache \<Rightarrow> (bytes \<Rightarrow> (bytes \<times> int) option) \<Rightarrow> bool" where
  "agrees c v \<longleftrightarrow>
     (\<forall>code ent u e. cacheEntry code c = Some ent \<longrightarrow> v code = Some (u, e) \<longrightarrow> ce_u ent = u \<and> ce_e ent = e)"

lemma agreesD: "agrees c v \<Longrightarrow> cacheEntry code c = Some ent \<Longrightarrow> v code = Some (u, e) \<Longrightarrow> ce_u ent = u \<and> ce_e ent = e"
  by (auto simp: agrees_def)

lemma agrees_new [simp]: "agrees (newKvCache cap ttl) v"
  by (simp add: agrees_def)

lemma agrees_get: "agrees c v \<Longrightarrow> agrees (snd (cacheGet now code c)) v"
  using cacheEntry_get unfolding agrees_def by (metis insertE option.distinct(1) singletonD)

lemma agrees_put:
  assumes "cache_ok c" and "agrees c v"
  shows "agrees (cachePut t code u e c) (v(code \<mapsto> (u, e)))"
  unfolding agrees_def
proof (intro allI impI)
  fix k ent u' e'
  assume "cacheEntry k (cachePut t code u e c) = Some ent" and "(v(code \<mapsto> (u, e))) k = Some (u', e')"
  then show "ce_u ent = u' \<and> ce_e ent = e'"
    using cacheEntry_put(1) [OF assms(1), of code t u e] cacheEntry_put(2) [OF assms(1), of k code t u e]
      agreesD [OF assms(2), of k ent u' e']
    by (cases "k = code") auto
qed

lemma agrees_put_same:
  assumes "cache_ok c" and "agrees c v" and "v code = Some (u, e)"
  shows "agrees (cachePut t code u e c) v"
proof -
  have "v(code \<mapsto> (u, e)) = v" using assms(3) by auto
  then show ?thesis using agrees_put [OF assms(1,2), of t code u e] by simp
qed

lemma agrees_remove: "agrees c v \<Longrightarrow> agrees (cacheRemove code c) (v(code := x))"
  unfolding agrees_def by (simp add: cacheEntry_remove)

text \<open>A cached answer and the row behind it: the answer is the row's url, unless it is stale.\<close>

lemma agrees_answer:
  assumes "agrees c v" and "v code = Some (u, e)" and "fst (cacheGet now code c) = Some x"
  shows "x = (u, e)"
proof -
  obtain u' e' where "x = (u', e')" by (cases x)
  with assms agreesD [OF assms(1)] show ?thesis by (auto simp: cacheGet_Some)
qed

section \<open>Rows\<close>

text \<open>The url and the expiry a stored value stands for, and what of it is left at a point in time.\<close>

definition rowView :: "bytes option \<Rightarrow> (bytes \<times> int) option" where
  "rowView r = Option.bind r (\<lambda>v. map_option (\<lambda>(e, c, u). (u, e)) (decVal v))"

lemma rowView_enc [simp]: "in_i64 e \<Longrightarrow> in_i64 c \<Longrightarrow> rowView (Some (encVal e c u)) = Some (u, e)"
  by (simp add: rowView_def decVal_encVal)

lemma decVal_in_i64:
  assumes "decVal v = Some (e, c, u)"
  shows "in_i64 e" and "in_i64 c"
  using assms in_i64_ParseInt
  by (auto simp: decVal_def Let_def split: option.splits prod.splits; metis fst_conv in_i64_0)+

definition liveAt :: "int \<Rightarrow> (bytes \<times> int) option \<Rightarrow> (bytes \<times> int) option" where
  "liveAt now r = (case r of None \<Rightarrow> None | Some (u, e) \<Rightarrow> if e \<noteq> 0 \<and> e \<le> now then None else Some (u, e))"

text \<open>What a lookup of the row answers at time \<open>t\<close>.\<close>

definition rowAnswer :: "int \<Rightarrow> (bytes \<times> int) option \<Rightarrow> bytes option" where
  "rowAnswer t r = map_option fst (liveAt t r)"

end
