(* ===== verification/Pebble.thy ===== *)
theory Pebble
  imports HotCache Api
begin

text \<open>
  The embedded engine \<open>PebbleStore\<close> of \<open>internal/store/pebblestore.go\<close>. The Pebble database is third-party
  code: a record of operations over a database state, an argument of every definition; what the
  engine relies on is the predicate \<open>pebble_laws\<close>, which relates those operations to the contents of
  the database as a map. The merge operator, the hot cache, the hit deltas and every operation of the
  engine are translated. Clock readings, random bytes and the choices of the runtime are arguments.
\<close>

section \<open>The merge operator\<close>

fun leVal :: "bytes \<Rightarrow> nat" where
  "leVal [] = 0"
| "leVal (c # cs) = of_char c + 256 * leVal cs"

fun leBytes :: "nat \<Rightarrow> nat \<Rightarrow> bytes" where
  "leBytes 0 k = []"
| "leBytes (Suc n) k = char_of (k mod 256) # leBytes n (k div 256)"

text \<open>\<open>binary.LittleEndian.Uint64\<close> and \<open>PutUint64\<close>.\<close>

definition leUint64 :: "bytes \<Rightarrow> 64 word" where
  "leUint64 v = word_of_nat (leVal (take 8 v))"

definition putUint64 :: "64 word \<Rightarrow> bytes" where
  "putUint64 w = leBytes 8 (unat w)"

definition u64Merge :: "bytes \<Rightarrow> 64 word" where
  "u64Merge v = (if 8 \<le> length v then leUint64 v else 0)"

definition MergeNewer :: "bytes \<Rightarrow> 64 word \<Rightarrow> 64 word" where
  "MergeNewer v base = (if 8 \<le> length v then base + leUint64 v else base)"

definition MergeOlder :: "bytes \<Rightarrow> 64 word \<Rightarrow> 64 word" where
  "MergeOlder v base = MergeNewer v base"

definition Finish :: "64 word \<Rightarrow> bytes" where
  "Finish base = putUint64 base"

section \<open>The database as a parameter\<close>

datatype db_error = ErrNotFound | DbFailed

datatype batch_op = BSet bytes bytes | BMerge bytes bytes | BDelete bytes

record 'd pebble =
  dbGet :: "bytes \<Rightarrow> 'd \<Rightarrow> db_error + bytes"
  dbSet :: "bytes \<Rightarrow> bytes \<Rightarrow> 'd \<Rightarrow> 'd option"
  dbCommit :: "batch_op list \<Rightarrow> 'd \<Rightarrow> 'd option"
  dbIter :: "bytes \<Rightarrow> bytes \<Rightarrow> 'd \<Rightarrow> (bytes \<times> bytes) list option"
  dbCompact :: "'d \<Rightarrow> 'd"
  dbClose :: "'d \<Rightarrow> 'd"

section \<open>The engine\<close>

record 'd PebbleStore =
  pb_db :: 'd
  pb_cache :: kvCache
  pb_dirty :: hitTable
  pb_instance :: int
  pb_prefix :: char
  pb_stopped :: bool
  pb_counters :: Metrics

text \<open>What one call takes from its surroundings.\<close>

record pb_env =
  pRt :: gort
  pTrack :: bool
  pClk :: "nat \<Rightarrow> int"
  pUs :: int
  pDraws :: "bytes list"
  pManyDraws :: "nat \<Rightarrow> bytes"
  pRetryClk :: "nat \<Rightarrow> nat \<Rightarrow> int"
  pRetryDraws :: "nat \<Rightarrow> bytes list"

definition NewPebble :: "bool \<Rightarrow> 'd option \<Rightarrow> int \<Rightarrow> int \<Rightarrow> int \<Rightarrow> int \<Rightarrow> 'd PebbleStore option" where
  "NewPebble dirOK opened inst cacheEntries cacheTTLMs now =
     (if \<not> dirOK then None
      else case opened of
             None \<Rightarrow> None
           | Some d \<Rightarrow>
               (let inst = (if inst < 0 then 0 else inst);
                    inst = (if int maxInstances \<le> inst then int maxInstances - 1 else inst)
                in Some \<lparr>pb_db = d, pb_cache = newKvCache cacheEntries cacheTTLMs, pb_dirty = (\<lambda>_. fmempty),
                         pb_instance = inst, pb_prefix = ALPHABET ! nat inst, pb_stopped = False,
                         pb_counters = initMetrics now\<rparr>))"

definition pbLkey :: "bytes \<Rightarrow> bytes" where
  "pbLkey c = ''l:'' @ c"

definition pbHkey :: "bytes \<Rightarrow> bytes" where
  "pbHkey c = ''h:'' @ c"

definition pbRandCode :: "bytes \<Rightarrow> 'd PebbleStore \<Rightarrow> bytes" where
  "pbRandCode r s = pb_prefix s # randSuffix r"

definition pbCount :: "(Metrics \<Rightarrow> Metrics) \<Rightarrow> 'd PebbleStore \<Rightarrow> 'd PebbleStore" where
  "pbCount f s = s\<lparr>pb_counters := f (pb_counters s)\<rparr>"

definition pbBump :: "bool \<Rightarrow> bytes \<Rightarrow> 'd PebbleStore \<Rightarrow> 'd PebbleStore" where
  "pbBump track code s = (if track then s\<lparr>pb_dirty := bumpHit code (pb_dirty s)\<rparr> else s)"

text \<open>The batch of merge operands: shard by shard, each in the order its map is visited.\<close>

definition hitOperands :: "gort \<Rightarrow> (bytes, int) gomap \<Rightarrow> batch_op list" where
  "hitOperands g m =
     concat (map (\<lambda>code. case fmlookup m code of
                           None \<Rightarrow> []
                         | Some n \<Rightarrow> [BMerge (pbHkey code) (putUint64 (word_of_int n))])
               (ordDirty g m))"

definition pbFlushHits :: "'d pebble \<Rightarrow> gort \<Rightarrow> 'd PebbleStore \<Rightarrow> 'd PebbleStore" where
  "pbFlushHits db g s =
     (let b = concat (map (\<lambda>i. hitOperands g (pb_dirty s i)) [0..<numShards]);
          s = s\<lparr>pb_dirty := (\<lambda>_. fmempty)\<rparr>
      in if b = [] then s
         else case dbCommit db b (pb_db s) of None \<Rightarrow> s | Some d \<Rightarrow> s\<lparr>pb_db := d\<rparr>)"

definition pbLower :: bytes where
  "pbLower = ''l:''"

definition pbUpper :: bytes where
  "pbUpper = ''l;''"

definition pbSweepExpired :: "'d pebble \<Rightarrow> int \<Rightarrow> 'd PebbleStore \<Rightarrow> 'd PebbleStore" where
  "pbSweepExpired db now s =
     (case dbIter db pbLower pbUpper (pb_db s) of
        None \<Rightarrow> s
      | Some kvs \<Rightarrow>
          (let dead = map fst (filter (\<lambda>(k, v). case decVal v of
                                                 None \<Rightarrow> False
                                               | Some (e, _, _) \<Rightarrow> e \<noteq> 0 \<and> e \<le> now) kvs)
           in if dead = [] then s
              else case dbCommit db (map BDelete dead) (pb_db s) of
                     None \<Rightarrow> s
                   | Some d \<Rightarrow> s\<lparr>pb_db := d\<rparr>))"

definition pbGetLink :: "'d pebble \<Rightarrow> bytes \<Rightarrow> 'd PebbleStore \<Rightarrow> bytes option" where
  "pbGetLink db code s = (case dbGet db (pbLkey code) (pb_db s) of Inl _ \<Rightarrow> None | Inr v \<Rightarrow> Some v)"

definition pbLinkHits :: "'d pebble \<Rightarrow> bytes \<Rightarrow> 'd PebbleStore \<Rightarrow> int" where
  "pbLinkHits db code s =
     (case dbGet db (pbHkey code) (pb_db s) of
        Inl _ \<Rightarrow> 0
      | Inr v \<Rightarrow> i64 ((if 8 \<le> length v then sint (leUint64 v) else 0) + pendingHits code (pb_dirty s)))"

section \<open>Resolve and Shorten\<close>

definition pbResolve :: "'d pebble \<Rightarrow> pb_env \<Rightarrow> bytes \<Rightarrow> 'd PebbleStore \<Rightarrow> bytes option \<times> 'd PebbleStore" where
  "pbResolve db env code s =
     (case cacheGet (pClk env 0) code (pb_cache s) of
        (Some (u, _), c) \<Rightarrow> (Some u, pbBump (pTrack env) code (pbCount CacheHit (s\<lparr>pb_cache := c\<rparr>)))
      | (None, c) \<Rightarrow>
          (let s = pbCount (StoreRead (pUs env)) (pbCount CacheMiss (s\<lparr>pb_cache := c\<rparr>))
           in case pbGetLink db code s of
                None \<Rightarrow> (None, s)
              | Some v \<Rightarrow>
                  (case decVal v of
                     None \<Rightarrow> (None, s)
                   | Some (e, _, u) \<Rightarrow>
                       if e \<noteq> 0 \<and> e \<le> pClk env 1 then (None, s)
                       else (Some u, pbBump (pTrack env) code
                                       (s\<lparr>pb_cache := cachePut (pClk env 2) code u e (pb_cache s)\<rparr>)))))"

text \<open>The closure \<open>put\<close> of \<open>Shorten\<close>; \<open>t\<close> is the clock reading of the cache.\<close>

definition pbPut ::
  "'d pebble \<Rightarrow> int \<Rightarrow> int \<Rightarrow> bytes \<Rightarrow> int \<Rightarrow> bytes \<Rightarrow> 'd PebbleStore \<Rightarrow> bool \<times> 'd PebbleStore" where
  "pbPut db exp now url t code s =
     (case pbGetLink db code s of
        Some _ \<Rightarrow> (False, s)
      | None \<Rightarrow>
          (case dbSet db (pbLkey code) (encVal exp now url) (pb_db s) of
             None \<Rightarrow> (False, s)
           | Some d \<Rightarrow> (True, s\<lparr>pb_db := d, pb_cache := cachePut t code url exp (pb_cache s)\<rparr>)))"

fun pbFresh ::
  "'d pebble \<Rightarrow> int \<Rightarrow> int \<Rightarrow> bytes \<Rightarrow> int \<Rightarrow> bytes list \<Rightarrow> 'd PebbleStore \<Rightarrow> (bytes \<times> 'd PebbleStore) option" where
  "pbFresh db exp now url t [] s = None"
| "pbFresh db exp now url t (r # rs) s =
     (let c = pbRandCode r s
      in case pbPut db exp now url t c s of
           (True, s) \<Rightarrow> Some (c, s)
         | (False, s) \<Rightarrow> pbFresh db exp now url t rs s)"

definition pbShorten ::
  "'d pebble \<Rightarrow> (nat \<Rightarrow> int) \<Rightarrow> bytes list \<Rightarrow> bytes \<Rightarrow> bytes \<Rightarrow> bool \<Rightarrow> int \<Rightarrow> 'd PebbleStore
   \<Rightarrow> (bytes \<times> 'd PebbleStore) option" where
  "pbShorten db clk draws url al hasAlias ttlMs s =
     (let s = pbCount StoreWrite s; now = clk 0; exp = expiry now ttlMs
      in if hasAlias then
           (case pbPut db exp now url (clk 1) al s of
              (True, s) \<Rightarrow> Some (al, s)
            | (False, s) \<Rightarrow> Some ([], s))
         else pbFresh db exp now url (clk 1) draws s)"

text \<open>The code drawn for each url, or nothing when it is in use.\<close>

definition pbDrawn :: "'d pebble \<Rightarrow> (nat \<Rightarrow> bytes) \<Rightarrow> 'd PebbleStore \<Rightarrow> nat \<Rightarrow> bytes" where
  "pbDrawn db draws s i =
     (let c = pbRandCode (draws i) s in case pbGetLink db c s of Some _ \<Rightarrow> [] | None \<Rightarrow> c)"

definition pbShortenMany ::
  "'d pebble \<Rightarrow> pb_env \<Rightarrow> bytes list \<Rightarrow> int \<Rightarrow> 'd PebbleStore \<Rightarrow> (bytes list \<times> 'd PebbleStore) option" where
  "pbShortenMany db env urls ttlMs s =
     (let now = pClk env 0; exp = expiry now ttlMs; n = length urls;
          codes = map (pbDrawn db (pManyDraws env) s) [0..<n];
          set = filter (\<lambda>i. codes ! i \<noteq> []) [0..<n];
          batch = map (\<lambda>i. BSet (pbLkey (codes ! i)) (encVal exp now (urls ! i))) set;
          (retry, s) =
            (case dbCommit db batch (pb_db s) of
               None \<Rightarrow> ([0..<n], s)
             | Some d \<Rightarrow>
                 (filter (\<lambda>i. codes ! i = []) [0..<n],
                  s\<lparr>pb_db := d,
                    pb_cache := fold (\<lambda>i c. cachePut (pClk env (Suc i)) (codes ! i) (urls ! i) exp c) set (pb_cache s)\<rparr>))
      in foldOpt (\<lambda>i (codes, s).
           map_option (\<lambda>(c, s). (codes[i := c], s))
             (pbShorten db (pRetryClk env i) (pRetryDraws env i) (urls ! i) [] False ttlMs s)) retry (codes, s))"

section \<open>Update, Remove, List, Stats\<close>

definition pbUpdate ::
  "'d pebble \<Rightarrow> int \<Rightarrow> bytes \<Rightarrow> bytes \<Rightarrow> int \<Rightarrow> bool \<Rightarrow> 'd PebbleStore \<Rightarrow> MutResult \<times> 'd PebbleStore" where
  "pbUpdate db now code url ttlMs hasTTL s =
     (case pbGetLink db code s of
        None \<Rightarrow> (MutMissing, s)
      | Some v \<Rightarrow>
          (case decVal v of
             None \<Rightarrow> (MutMissing, s)
           | Some (e, c, _) \<Rightarrow>
               (let exp = (if hasTTL then (if 0 < ttlMs then i64 (now + ttlMs) else 0) else e)
                in case dbSet db (pbLkey code) (encVal exp c url) (pb_db s) of
                     None \<Rightarrow> (MutMissing, s)
                   | Some d \<Rightarrow> (MutOK, s\<lparr>pb_db := d, pb_cache := cacheRemove code (pb_cache s)\<rparr>))))"

definition pbRemove :: "'d pebble \<Rightarrow> bytes \<Rightarrow> 'd PebbleStore \<Rightarrow> MutResult \<times> 'd PebbleStore" where
  "pbRemove db code s =
     (case pbGetLink db code s of
        None \<Rightarrow> (MutMissing, s)
      | Some _ \<Rightarrow>
          (let s = (case dbCommit db [BDelete (pbLkey code), BDelete (pbHkey code)] (pb_db s) of
                      None \<Rightarrow> s
                    | Some d \<Rightarrow> s\<lparr>pb_db := d\<rparr>)
           in (MutOK, s\<lparr>pb_cache := cacheRemove code (pb_cache s)\<rparr>)))"

definition linkView :: "bytes \<Rightarrow> bytes \<Rightarrow> int \<Rightarrow> int \<Rightarrow> int \<Rightarrow> Link" where
  "linkView code u hits c e =
     \<lparr>l_Code = code, l_URL = u, l_Hits = hits, l_CreatedAt = c, l_ExpiresAt = (if e \<noteq> 0 then Some e else None)\<rparr>"

definition pbListItem :: "'d pebble \<Rightarrow> int \<Rightarrow> bytes \<Rightarrow> 'd PebbleStore \<Rightarrow> bytes \<times> bytes \<Rightarrow> Link list" where
  "pbListItem db now q s kv =
     (let code = drop 2 (fst kv)
      in case decVal (snd kv) of
           None \<Rightarrow> []
         | Some (e, c, u) \<Rightarrow>
             if e \<noteq> 0 \<and> e \<le> now then []
             else if q \<noteq> [] \<and> \<not> Contains code q \<and> \<not> Contains u q then []
             else [linkView code u (pbLinkHits db code s) c e])"

definition pbList ::
  "'d pebble \<Rightarrow> gort \<Rightarrow> int \<Rightarrow> int \<Rightarrow> int \<Rightarrow> bytes \<Rightarrow> bytes \<Rightarrow> 'd PebbleStore \<Rightarrow> (Link list \<times> int) option" where
  "pbList db g now limit offset sortBy q s =
     (case dbIter db pbLower pbUpper (pb_db s) of
        None \<Rightarrow> Some ([], 0)
      | Some kvs \<Rightarrow>
          (let items = concat (map (pbListItem db now q s) kvs);
               items = (if sortBy = ''hits''
                        then sortSlice g (\<lambda>x y. l_Hits y < l_Hits x) items
                        else sortSlice g (\<lambda>x y. l_CreatedAt y < l_CreatedAt x) items);
               total = int (length items)
           in if total \<le> offset then Some ([], total)
              else
                let end1 = i64 (offset + limit); end1 = (if total < end1 then total else end1)
                in map_option (\<lambda>xs. (xs, total)) (goslice items offset end1)))"

definition pbStats :: "'d pebble \<Rightarrow> int \<Rightarrow> bytes \<Rightarrow> 'd PebbleStore \<Rightarrow> Link option" where
  "pbStats db now code s =
     (case pbGetLink db code s of
        None \<Rightarrow> None
      | Some v \<Rightarrow>
          (case decVal v of
             None \<Rightarrow> None
           | Some (e, c, u) \<Rightarrow>
               if e \<noteq> 0 \<and> e \<le> now then None else Some (linkView code u (pbLinkHits db code s) c e)))"

definition pbSeed :: "'d pebble \<Rightarrow> pb_env \<Rightarrow> bytes list \<Rightarrow> 'd PebbleStore \<Rightarrow> (nat \<times> 'd PebbleStore) option" where
  "pbSeed db env urls s =
     map_option (\<lambda>(codes, s). (length urls, pbFlushHits db (pRt env) s)) (pbShortenMany db env urls 0 s)"

definition pbHealthy :: "'d pebble \<Rightarrow> 'd PebbleStore \<Rightarrow> bool" where
  "pbHealthy db s = (case dbGet db [] (pb_db s) of Inr _ \<Rightarrow> True | Inl e \<Rightarrow> e = ErrNotFound)"

definition pbIsEmpty :: "'d pebble \<Rightarrow> 'd PebbleStore \<Rightarrow> bool" where
  "pbIsEmpty db s = (case dbIter db pbLower pbUpper (pb_db s) of None \<Rightarrow> True | Some kvs \<Rightarrow> kvs = [])"

definition pbClose :: "'d pebble \<Rightarrow> gort \<Rightarrow> 'd PebbleStore \<Rightarrow> 'd PebbleStore" where
  "pbClose db g s =
     (let s = pbFlushHits db g (s\<lparr>pb_stopped := True\<rparr>) in s\<lparr>pb_db := dbClose db (pb_db s)\<rparr>)"

definition pebbleAPI :: "'d pebble \<Rightarrow> pb_env \<Rightarrow> 'd PebbleStore API" where
  "pebbleAPI db env =
     \<lparr>apiShorten = (\<lambda>url al hasAlias ttl s. pbShorten db (pClk env) (pDraws env) url al hasAlias ttl s),
      apiShortenMany = pbShortenMany db env,
      apiResolve = (\<lambda>code s. Some (pbResolve db env code s)),
      apiUpdate = (\<lambda>code url ttl hasTTL s. Some (pbUpdate db (pClk env 0) code url ttl hasTTL s)),
      apiRemove = (\<lambda>code s. Some (pbRemove db code s)),
      apiList = (\<lambda>limit offset sortBy q s. pbList db (pRt env) (pClk env 0) limit offset sortBy q s),
      apiStats = (\<lambda>code s. Some (pbStats db (pClk env 0) code s)),
      apiSeed = pbSeed db env,
      apiIsEmpty = (\<lambda>s. Some (pbIsEmpty db s)),
      apiHealthy = (\<lambda>s. Some (pbHealthy db s)),
      apiFlush = (\<lambda>s. Some (pbFlushHits db (pRt env) s)),
      apiPollTails = Some,
      apiCompact = (\<lambda>s. s\<lparr>pb_db := dbCompact db (pb_db s)\<rparr>),
      apiClose = (\<lambda>s. Some (pbClose db (pRt env) s)),
      apiCounters = (\<lambda>s m. m\<lparr>cacheHit := cacheHit (pb_counters s), cacheMiss := cacheMiss (pb_counters s),
        storeReads := storeReads (pb_counters s), storeReadUS := storeReadUS (pb_counters s),
        storeWrites := storeWrites (pb_counters s)\<rparr>)\<rparr>"

section \<open>What the engine relies on\<close>

definition mergeInto :: "bytes option \<Rightarrow> bytes \<Rightarrow> bytes" where
  "mergeInto old v = (case old of None \<Rightarrow> Finish (u64Merge v) | Some w \<Rightarrow> Finish (MergeNewer v (u64Merge w)))"

fun batchEffect :: "batch_op \<Rightarrow> (bytes \<Rightarrow> bytes option) \<Rightarrow> bytes \<Rightarrow> bytes option" where
  "batchEffect (BSet k v) m = m(k \<mapsto> v)"
| "batchEffect (BMerge k v) m = m(k \<mapsto> mergeInto (m k) v)"
| "batchEffect (BDelete k) m = m(k := None)"

text \<open>
  The documented behaviour of an open database without I/O errors, for the map \<open>content\<close> of its keys:
  \<open>Get\<close> reads the value or reports \<open>ErrNotFound\<close>, \<open>Set\<close> replaces it, a batch applies its operations in
  order, an iterator visits the keys from the lower bound up to, not including, the upper bound once
  each, and compaction changes no value.
\<close>

definition pebble_laws :: "'d pebble \<Rightarrow> ('d \<Rightarrow> bytes \<Rightarrow> bytes option) \<Rightarrow> bool" where
  "pebble_laws db content \<longleftrightarrow>
     (\<forall>k d. dbGet db k d = (case content d k of None \<Rightarrow> Inl ErrNotFound | Some v \<Rightarrow> Inr v))
     \<and> (\<forall>k v d. \<exists>d'. dbSet db k v d = Some d' \<and> content d' = (content d)(k \<mapsto> v))
     \<and> (\<forall>b d. \<exists>d'. dbCommit db b d = Some d' \<and> content d' = fold batchEffect b (content d))
     \<and> (\<forall>lo hi d. \<exists>kvs. dbIter db lo hi d = Some kvs \<and> distinct (map fst kvs)
                     \<and> set kvs = {(k, v). content d k = Some v \<and> lo \<le> k \<and> k < hi})
     \<and> (\<forall>d. content (dbCompact db d) = content d)"

lemma pebble_get:
  "pebble_laws db content \<Longrightarrow> dbGet db k d = (case content d k of None \<Rightarrow> Inl ErrNotFound | Some v \<Rightarrow> Inr v)"
  by (simp add: pebble_laws_def)

lemma pebble_set:
  "pebble_laws db content \<Longrightarrow> \<exists>d'. dbSet db k v d = Some d' \<and> content d' = (content d)(k \<mapsto> v)"
  unfolding pebble_laws_def by blast

lemma pebble_commit:
  "pebble_laws db content \<Longrightarrow> \<exists>d'. dbCommit db b d = Some d' \<and> content d' = fold batchEffect b (content d)"
  unfolding pebble_laws_def by blast

lemma pebble_iter:
  "pebble_laws db content \<Longrightarrow> \<exists>kvs. dbIter db lo hi d = Some kvs \<and> distinct (map fst kvs)
     \<and> set kvs = {(k, v). content d k = Some v \<and> lo \<le> k \<and> k < hi}"
  unfolding pebble_laws_def by blast

section \<open>The engine keeps the contract of the interface\<close>

definition pbView :: "('d \<Rightarrow> bytes \<Rightarrow> bytes option) \<Rightarrow> 'd PebbleStore \<Rightarrow> bytes \<Rightarrow> (bytes \<times> int) option" where
  "pbView content s code = rowView (content (pb_db s) (pbLkey code))"

text \<open>Every row decodes, the cache agrees with the rows, the prefix is a character of the alphabet.\<close>

definition pbOk :: "('d \<Rightarrow> bytes \<Rightarrow> bytes option) \<Rightarrow> 'd PebbleStore \<Rightarrow> bool" where
  "pbOk content s \<longleftrightarrow>
     cache_ok (pb_cache s) \<and> pb_prefix s \<in> set ALPHABET
     \<and> (\<forall>code v. content (pb_db s) (pbLkey code) = Some v \<longrightarrow> decVal v \<noteq> None)
     \<and> agrees (pb_cache s) (pbView content s)"

lemma pbLkey_inj [simp]: "pbLkey c = pbLkey d \<longleftrightarrow> c = d" "pbHkey c = pbHkey d \<longleftrightarrow> c = d"
  "pbLkey c \<noteq> pbHkey d" "pbHkey d \<noteq> pbLkey c"
  by (simp_all add: pbLkey_def pbHkey_def)

lemma pbGetLink_content: "pebble_laws db content \<Longrightarrow> pbGetLink db code s = content (pb_db s) (pbLkey code)"
  by (simp add: pbGetLink_def pebble_get split: option.split)

lemma pbView_None: "pbOk content s \<Longrightarrow> pbView content s code = None \<longleftrightarrow> content (pb_db s) (pbLkey code) = None"
  by (auto simp: pbView_def rowView_def pbOk_def split: option.splits bind_splits)

text \<open>Writing a row and caching it.\<close>

lemma pbOk_write:
  assumes "pbOk content s" and "content d' = (content (pb_db s))(pbLkey code \<mapsto> encVal e c u)"
    and "in_i64 e" and "in_i64 c" and "cache' \<in> {cachePut t code u e (pb_cache s), cacheRemove code (pb_cache s)}"
  defines "s' \<equiv> s\<lparr>pb_db := d', pb_cache := cache'\<rparr>"
  shows "pbOk content s'" and "pbView content s' = (pbView content s)(code \<mapsto> (u, e))"
proof -
  show v: "pbView content s' = (pbView content s)(code \<mapsto> (u, e))"
    using assms(2-4) by (auto simp: s'_def pbView_def fun_eq_iff)
  have ok: "cache_ok (pb_cache s)" "agrees (pb_cache s) (pbView content s)" using assms(1) by (simp_all add: pbOk_def)
  have "agrees cache' (pbView content s')" "cache_ok cache'"
    using assms(5) v agrees_put [OF ok, of t code u e] agrees_remove [OF ok(2), of code "Some (u, e)"]
      cache_ok_put [OF ok(1)] cache_ok_remove [OF ok(1)] by auto
  then show "pbOk content s'"
    using assms(1-4) by (auto simp: pbOk_def s'_def decVal_encVal)
qed

lemma pbCount_simps [simp]:
  "pb_db (pbCount f s) = pb_db s" "pb_cache (pbCount f s) = pb_cache s" "pb_prefix (pbCount f s) = pb_prefix s"
  "pb_dirty (pbCount f s) = pb_dirty s" "pb_db (pbBump t c s) = pb_db s" "pb_cache (pbBump t c s) = pb_cache s"
  "pb_prefix (pbBump t c s) = pb_prefix s"
  "pbOk content (pbCount f s) = pbOk content s" "pbView content (pbCount f s) = pbView content s"
  "pbOk content (pbBump t c s) = pbOk content s" "pbView content (pbBump t c s) = pbView content s"
  by (simp_all add: pbCount_def pbBump_def pbOk_def pbView_def [abs_def])

lemma pbOk_cache:
  assumes "pbOk content s" and "cache_ok c" and "agrees c (pbView content s)"
  shows "pbOk content (s\<lparr>pb_cache := c\<rparr>)"
  using assms by (simp add: pbOk_def pbView_def [abs_def])

lemma pbCount_cache: "(pbCount f s)\<lparr>pb_cache := c\<rparr> = pbCount f (s\<lparr>pb_cache := c\<rparr>)"
  by (simp add: pbCount_def)

lemma pbPut_new:
  assumes "pebble_laws db content" and "pbOk content s" and "in_i64 now" and "pbView content s code = None"
  shows "\<exists>s'. pbPut db (expiry now ttl) now url t code s = (True, s') \<and> pbOk content s'
            \<and> pbView content s' = (pbView content s)(code \<mapsto> (url, expiry now ttl)) \<and> pb_prefix s' = pb_prefix s"
proof -
  have "pbGetLink db code s = None" using assms by (simp add: pbGetLink_content pbView_None)
  moreover obtain d where d: "dbSet db (pbLkey code) (encVal (expiry now ttl) now url) (pb_db s) = Some d"
    "content d = (content (pb_db s))(pbLkey code \<mapsto> encVal (expiry now ttl) now url)"
    using pebble_set [OF assms(1)] by blast
  ultimately show ?thesis
    using pbOk_write [OF assms(2) d(2) _ assms(3) insertI1, of t] by (simp add: pbPut_def)
qed

lemma pbPut_taken:
  "pebble_laws db content \<Longrightarrow> pbOk content s \<Longrightarrow> pbView content s code \<noteq> None \<Longrightarrow> pbPut db exp now url t code s = (False, s)"
  by (auto simp: pbPut_def pbGetLink_content pbView_None simp del: not_None_eq split: option.split)

lemma pbFresh_props:
  assumes "pebble_laws db content" and "pbOk content s" and "in_i64 now"
    and "pbFresh db (expiry now ttl) now url t rs s = Some (code, s')"
  shows "length code = codeLen \<and> set code \<subseteq> set ALPHABET \<and> pbView content s code = None \<and> pbOk content s'
         \<and> pbView content s' = (pbView content s)(code \<mapsto> (url, expiry now ttl))"
  using assms(4)
proof (induction rs)
  case (Cons r rs)
  let ?c = "pbRandCode r s"
  show ?case
  proof (cases "pbView content s ?c")
    case None
    then obtain s1 where s1: "pbPut db (expiry now ttl) now url t ?c s = (True, s1)" "pbOk content s1"
      "pbView content s1 = (pbView content s)(?c \<mapsto> (url, expiry now ttl))"
      using pbPut_new [OF assms(1-3)] by blast
    have "length ?c = codeLen" "set ?c \<subseteq> set ALPHABET"
      using assms(2) randSuffix_ALPHABET [of r] by (auto simp: pbRandCode_def codeLen_def pbOk_def)
    then show ?thesis using Cons(2) s1 None by auto
  next
    case (Some x)
    then have "pbPut db (expiry now ttl) now url t ?c s = (False, s)"
      using pbPut_taken [OF assms(1,2)] by blast
    then show ?thesis using Cons by simp
  qed
qed simp

lemma pb_resolve_live:
  assumes "pebble_laws db content" and "pbOk content s" and "pbView content s code = Some (u, e)"
    and "e = 0 \<or> max (pClk env 0) (pClk env 1) < e"
  shows "\<exists>s'. pbResolve db env code s = (Some u, s') \<and> pbOk content s' \<and> pbView content s' = pbView content s"
proof -
  obtain r c where g: "cacheGet (pClk env 0) code (pb_cache s) = (r, c)" by fastforce
  have ok: "cache_ok (pb_cache s)" "agrees (pb_cache s) (pbView content s)" using assms(2) by (simp_all add: pbOk_def)
  let ?s = "s\<lparr>pb_cache := c\<rparr>"
  have v1: "pbView content ?s = pbView content s" by (simp add: pbView_def [abs_def])
  have s1: "pbOk content ?s"
    using assms(2) v1 cache_ok_get [OF ok(1)] agrees_get [OF ok(2)] g by (metis pbOk_cache snd_conv)
  show ?thesis
  proof (cases r)
    case (Some x)
    then have "x = (u, e)" using agrees_answer [OF ok(2) assms(3)] g by (metis fst_conv)
    then show ?thesis using Some g s1 v1 by (simp add: pbResolve_def)
  next
    case None
    obtain v cr where v: "content (pb_db s) (pbLkey code) = Some v" "decVal v = Some (e, cr, u)"
      using assms(3) by (auto simp: pbView_def rowView_def split: bind_splits)
    have c: "cache_ok c" "agrees c (pbView content s)" using s1 v1 by (simp_all add: pbOk_def)
    let ?c = "cachePut (pClk env 2) code u e c"
    have "pbOk content (?s\<lparr>pb_cache := ?c\<rparr>)"
      by (rule pbOk_cache [OF s1]) (use v1 cache_ok_put [OF c(1)] agrees_put_same [OF c assms(3)] in simp_all)
    moreover have "pbView content (?s\<lparr>pb_cache := ?c\<rparr>) = pbView content s" by (simp add: pbView_def [abs_def])
    ultimately show ?thesis
      using None g v assms(4) by (auto simp: pbResolve_def pbGetLink_content [OF assms(1)] Let_def pbCount_cache)
  qed
qed

lemma pb_updated:
  assumes "pebble_laws db content" and "pbOk content s" and "pbUpdate db now code url ttl hasTTL s = (m, s')"
  shows "pbOk content s'
    \<and> (if m = MutOK then \<exists>u e. pbView content s code = Some (u, e)
         \<and> pbView content s' = (pbView content s)(code \<mapsto> (url, if hasTTL then expiry now ttl else e))
       else pbView content s' = pbView content s)"
proof (cases "content (pb_db s) (pbLkey code)")
  case None
  then show ?thesis using assms by (auto simp: pbUpdate_def pbGetLink_content)
next
  case (Some v)
  then obtain e c u where v: "decVal v = Some (e, c, u)" using assms(2) by (fastforce simp: pbOk_def)
  have i: "in_i64 e" "in_i64 c" using decVal_in_i64 [OF v] by simp_all
  let ?exp = "if hasTTL then expiry now ttl else e"
  obtain d where d: "dbSet db (pbLkey code) (encVal ?exp c url) (pb_db s) = Some d"
    "content d = (content (pb_db s))(pbLkey code \<mapsto> encVal ?exp c url)"
    using pebble_set [OF assms(1)] by blast
  have "(if hasTTL then if 0 < ttl then i64 (now + ttl) else 0 else e) = ?exp" by (simp add: expiry_def)
  then have s': "m = MutOK" "s' = s\<lparr>pb_db := d, pb_cache := cacheRemove code (pb_cache s)\<rparr>"
    using assms(3) Some v d(1) by (simp_all add: pbUpdate_def pbGetLink_content [OF assms(1)] Let_def)
  have "pbView content s code = Some (u, e)" using Some v by (simp add: pbView_def rowView_def)
  then show ?thesis
    using pbOk_write [OF assms(2) d(2), of "cacheRemove code (pb_cache s)"] i s' by auto
qed

lemma pb_removed:
  assumes "pebble_laws db content" and "pbOk content s" and "pbRemove db code s = (m, s')"
  shows "pbOk content s'
    \<and> (if m = MutOK then pbView content s code \<noteq> None \<and> pbView content s' = (pbView content s)(code := None)
       else pbView content s' = pbView content s)"
proof (cases "content (pb_db s) (pbLkey code)")
  case None
  then show ?thesis using assms by (auto simp: pbRemove_def pbGetLink_content)
next
  case (Some v)
  obtain d where d: "dbCommit db [BDelete (pbLkey code), BDelete (pbHkey code)] (pb_db s) = Some d"
    "content d = (content (pb_db s))(pbLkey code := None, pbHkey code := None)"
    using pebble_commit [OF assms(1), of "[BDelete (pbLkey code), BDelete (pbHkey code)]"] by auto
  then have s': "m = MutOK" "s' = s\<lparr>pb_db := d, pb_cache := cacheRemove code (pb_cache s)\<rparr>"
    using assms(3) Some by (simp_all add: pbRemove_def pbGetLink_content [OF assms(1)] Let_def)
  have v: "pbView content s' = (pbView content s)(code := None)"
    using d(2) s'(2) by (auto simp: pbView_def rowView_def fun_eq_iff)
  have ok: "cache_ok (pb_cache s)" "agrees (pb_cache s) (pbView content s)" using assms(2) by (simp_all add: pbOk_def)
  have "pbOk content s'"
    using assms(2) s'(2) d(2) v cache_ok_remove [OF ok(1)] agrees_remove [OF ok(2), of code None]
    by (simp add: pbOk_def)
  moreover have "pbView content s code \<noteq> None" using Some pbView_None [OF assms(2)] by simp
  ultimately show ?thesis using v s'(1) by simp
qed

lemma pb_alias:
  assumes "pebble_laws db content" and "pbOk content s" and "in_i64 (clk 0)"
  shows "\<exists>s'. pbShorten db clk draws url al True ttl s = Some (if pbView content s al = None then al else [], s')
    \<and> pbOk content s' \<and> pbView content s'
        = (if pbView content s al = None then (pbView content s)(al \<mapsto> (url, expiry (clk 0) ttl)) else pbView content s)"
proof (cases "pbView content s al")
  case None
  then show ?thesis
    using pbPut_new [OF assms(1), of "pbCount StoreWrite s" "clk 0" al ttl url "clk 1"] assms(2,3)
    by (auto simp: pbShorten_def Let_def)
next
  case (Some x)
  then show ?thesis
    using pbPut_taken [OF assms(1), of "pbCount StoreWrite s" al] assms(2) by (simp add: pbShorten_def Let_def)
qed

interpretation pebble_api: store_api "pebbleAPI db env" "pbView content"
  "\<lambda>s. pebble_laws db content \<and> in_i64 (pClk env 0) \<and> pbOk content s" "\<lambda>_. True" "\<lambda>_. True" "\<lambda>_. True"
  "pClk env 0" "max (pClk env 0) (pClk env 1)"
  for db env content
proof (unfold_locales, goal_cases)
  case (4 s al url ttl)
  then show ?case using pb_alias [of db content s "pClk env" "pDraws env" url al ttl] by (auto simp: pebbleAPI_def)
next
  case (5 s al url ttl)
  then show ?case using pb_alias [of db content s "pClk env" "pDraws env" url al ttl] by (auto simp: pebbleAPI_def)
next
  case (6 s url ttl al code s')
  then have "pbFresh db (expiry (pClk env 0) ttl) (pClk env 0) url (pClk env 1) (pDraws env) (pbCount StoreWrite s) = Some (code, s')"
    by (simp add: pebbleAPI_def pbShorten_def Let_def)
  then show ?case using 6(1) pbFresh_props [of db content "pbCount StoreWrite s" "pClk env 0"] by simp
next
  case (7 s code u e)
  then show ?case using pb_resolve_live [of db content s code u e env] by (auto simp: pebbleAPI_def)
next
  case (8 s code url ttl hasTTL m s')
  then show ?case using pb_updated [of db content s "pClk env 0" code url ttl hasTTL m s'] by (simp add: pebbleAPI_def)
next
  case (9 s code m s')
  then show ?case using pb_removed [of db content s code m s'] by (simp add: pebbleAPI_def)
qed simp_all

section \<open>Hits are conserved\<close>

lemma leVal_leBytes: "leVal (leBytes n k) = k mod 256 ^ n"
proof (induction n arbitrary: k)
  case (Suc n)
  have "k mod 256 + 256 * (k div 256 mod 256 ^ n) = k mod (256 * 256 ^ n)" by (simp add: mod_mult2_eq)
  then show ?case using Suc by simp
qed simp

lemma length_leBytes [simp]: "length (leBytes n k) = n"
  by (induction n arbitrary: k) simp_all

lemma leUint64_putUint64 [simp]: "leUint64 (putUint64 w) = w"
proof -
  have "unat w < 2 ^ 64" using unsigned_less [of w, where ?'a = nat] by simp
  then have "leVal (leBytes 8 (unat w)) = unat w" by (simp add: leVal_leBytes)
  then show ?thesis by (simp add: leUint64_def putUint64_def)
qed

lemma length_putUint64 [simp]: "length (putUint64 w) = 8"
  by (simp add: putUint64_def)

lemma u64Merge_Finish [simp]: "u64Merge (Finish b) = b" "u64Merge (putUint64 b) = b"
  by (simp_all add: u64Merge_def Finish_def)

lemma MergeNewer_add: "MergeNewer v b = b + u64Merge v" "MergeOlder v b = b + u64Merge v"
  by (simp_all add: MergeNewer_def MergeOlder_def u64Merge_def)

lemma fold_Merge: "fold MergeNewer vs b = b + sum_list (map u64Merge vs)" "fold MergeOlder vs b = b + sum_list (map u64Merge vs)"
  by (induction vs arbitrary: b) (simp_all add: MergeNewer_add)

text \<open>The hits the database holds for a code, and those pending in memory.\<close>

definition dbHits :: "(bytes \<Rightarrow> bytes option) \<Rightarrow> bytes \<Rightarrow> 64 word" where
  "dbHits m code = (case m (pbHkey code) of None \<Rightarrow> 0 | Some v \<Rightarrow> u64Merge v)"

definition totalHits :: "('d \<Rightarrow> bytes \<Rightarrow> bytes option) \<Rightarrow> 'd PebbleStore \<Rightarrow> bytes \<Rightarrow> 64 word" where
  "totalHits content s code = dbHits (content (pb_db s)) code + word_of_int (pendingHits code (pb_dirty s))"

fun operandFor :: "bytes \<Rightarrow> batch_op \<Rightarrow> 64 word" where
  "operandFor code (BMerge k v) = (if k = pbHkey code then u64Merge v else 0)"
| "operandFor code _ = 0"

fun isMerge :: "batch_op \<Rightarrow> bool" where
  "isMerge (BMerge k v) = True"
| "isMerge _ = False"

lemma dbHits_merges:
  "list_all isMerge b \<Longrightarrow> dbHits (fold batchEffect b m) code = dbHits m code + sum_list (map (operandFor code) b)"
proof (induction b arbitrary: m)
  case (Cons x b)
  then obtain k v where x: "x = BMerge k v" by (cases x) simp_all
  have "dbHits (batchEffect x m) code = dbHits m code + operandFor code x"
    by (auto simp: x dbHits_def mergeInto_def MergeNewer_add split: option.split)
  then show ?case using Cons by (simp add: x)
qed simp

lemma sum_list_at:
  "distinct ks \<Longrightarrow> sum_list (map (\<lambda>c. if c = k then f c else (0 :: 'a :: comm_monoid_add)) ks) = (if k \<in> set ks then f k else 0)"
  by (induction ks) auto

lemma sum_list_concat_map: "sum_list (map f (concat xss)) = sum_list (map (\<lambda>xs. sum_list (map f xs)) xss)"
  by (induction xss) simp_all

lemma hitOperands_merges: "list_all isMerge (hitOperands g m)"
  by (auto simp: hitOperands_def list_all_iff split: option.splits)

lemma hitOperands_sum:
  assumes "rt_ok g"
  shows "sum_list (map (operandFor code) (hitOperands g m)) = (case fmlookup m code of None \<Rightarrow> 0 | Some n \<Rightarrow> word_of_int n)"
proof -
  have o: "distinct (ordDirty g m)" "fset_of_list (ordDirty g m) = fmdom m"
    using assms by (auto simp: rt_ok_def iter_order_def)
  let ?f = "\<lambda>c. case fmlookup m c of None \<Rightarrow> 0 | Some n \<Rightarrow> (word_of_int n :: 64 word)"
  have "sum_list (map (operandFor code) (case fmlookup m c of None \<Rightarrow> [] | Some n \<Rightarrow> [BMerge (pbHkey c) (putUint64 (word_of_int n))]))
      = (if c = code then ?f c else 0)" for c
    by (simp split: option.split)
  then have "sum_list (map (operandFor code) (hitOperands g m)) = sum_list (map (\<lambda>c. if c = code then ?f c else 0) (ordDirty g m))"
    by (simp add: hitOperands_def sum_list_concat_map comp_def)
  also have "\<dots> = (if code \<in> set (ordDirty g m) then ?f code else 0)" by (rule sum_list_at [OF o(1)])
  also have "\<dots> = ?f code"
    using o(2) by (metis (no_types, lifting) fmdom_notD fset_of_list_elem option.case(1))
  finally show ?thesis .
qed

lemma flush_sum:
  assumes "rt_ok g" and "dirty_ok d"
  shows "sum_list (map (operandFor code) (concat (map (\<lambda>i. hitOperands g (d i)) [0..<numShards])))
         = word_of_int (pendingHits code d)"
proof -
  let ?f = "\<lambda>i. case fmlookup (d i) code of None \<Rightarrow> 0 | Some n \<Rightarrow> (word_of_int n :: 64 word)"
  have "?f i = (if i = shardOf code then ?f i else 0)" for i
    using assms(2) by (auto simp: dirty_ok_def split: option.split)
  then have "sum_list (map ?f [0..<numShards]) = sum_list (map (\<lambda>i. if i = shardOf code then ?f i else 0) [0..<numShards])"
    by (metis (mono_tags, lifting))
  also have "\<dots> = ?f (shardOf code)" by (simp add: sum_list_at shardOf_less)
  finally show ?thesis
    by (simp add: sum_list_concat_map comp_def hitOperands_sum [OF assms(1)] pendingHits_def split: option.split)
qed

lemma pbFlushHits_content:
  assumes "pebble_laws db content"
  shows "content (pb_db (pbFlushHits db g s))
         = fold batchEffect (concat (map (\<lambda>i. hitOperands g (pb_dirty s i)) [0..<numShards])) (content (pb_db s))"
proof -
  define b where "b = concat (map (\<lambda>i. hitOperands g (pb_dirty s i)) [0..<numShards])"
  obtain d where "dbCommit db b (pb_db s) = Some d" "content d = fold batchEffect b (content (pb_db s))"
    using pebble_commit [OF assms] by blast
  then show ?thesis by (simp add: pbFlushHits_def Let_def flip: b_def)
qed

lemma pbFlushHits_simps [simp]:
  "pb_dirty (pbFlushHits db g s) = (\<lambda>_. fmempty)" "pb_cache (pbFlushHits db g s) = pb_cache s"
  "pb_prefix (pbFlushHits db g s) = pb_prefix s"
  by (auto simp: pbFlushHits_def Let_def split: option.split)

lemma sint_word_of_int64: "sint (word_of_int n :: 64 word) = i64 n"
  by (simp add: signed_of_int signed_take_bit_eq_take_bit_shift i64_def take_bit_eq_mod)

lemma word_of_int_i64 [simp]: "(word_of_int (i64 n) :: 64 word) = word_of_int n"
proof -
  have "(word_of_int (sint (word_of_int n :: 64 word)) :: 64 word) = word_of_int n" by (simp only: of_int_sint scast_id id_apply)
  then show ?thesis by (simp only: sint_word_of_int64)
qed

lemma totalHits_flush:
  assumes "pebble_laws db content" and "rt_ok g" and "dirty_ok (pb_dirty s)"
  shows "totalHits content (pbFlushHits db g s) code = totalHits content s code"
proof -
  have "list_all isMerge (concat (map (\<lambda>i. hitOperands g (pb_dirty s i)) [0..<numShards]))"
    using hitOperands_merges by (auto simp: list_all_iff)
  then show ?thesis
    by (simp add: totalHits_def pbFlushHits_content [OF assms(1)] dbHits_merges flush_sum [OF assms(2,3)])
qed

lemma pbResolve_frame:
  "pb_db (snd (pbResolve db env code s)) = pb_db s"
  "pb_dirty (snd (pbResolve db env code s))
   = (if pTrack env \<and> fst (pbResolve db env code s) \<noteq> None then bumpHit code (pb_dirty s) else pb_dirty s)"
  by (auto simp: pbResolve_def pbBump_def pbCount_def Let_def split: prod.splits option.splits)

lemma pbLinkHits_total:
  assumes "pebble_laws db content" and "content (pb_db s) (pbHkey code) = Some v"
  shows "pbLinkHits db code s = sint (totalHits content s code)"
proof -
  have "sint (w + word_of_int p) = i64 (sint w + p)" for w :: "64 word" and p
    using sint_word_of_int64 [of "sint w + p"] by simp
  then show ?thesis
    using assms by (simp add: pbLinkHits_def pebble_get totalHits_def dbHits_def u64Merge_def sint_word_of_int64)
qed

text \<open>C34. Hits are neither lost nor counted twice on their way to the database. For every code the sum of the
  stored counter and the pending delta (modulo \<open>2^64\<close>) is unchanged by a flush, which leaves no delta
  behind, and grows by exactly one with each successful resolution of that code; once a counter is
  stored, the statistics show that sum.\<close>

theorem pebble_hits_conserved:
  assumes "pebble_laws db content" and "rt_ok g" and "dirty_ok (pb_dirty s)"
  shows "totalHits content (pbFlushHits db g s) code = totalHits content s code
         \<and> pendingHits code (pb_dirty (pbFlushHits db g s)) = 0
         \<and> totalHits content (snd (pbResolve db env c s)) code
           = totalHits content s code + (if c = code \<and> pTrack env \<and> fst (pbResolve db env c s) \<noteq> None then 1 else 0)
         \<and> dirty_ok (pb_dirty (snd (pbResolve db env c s)))
         \<and> (content (pb_db s) (pbHkey code) \<noteq> None \<longrightarrow> pbLinkHits db code s = sint (totalHits content s code))"
proof (intro conjI impI)
  show "totalHits content (pbFlushHits db g s) code = totalHits content s code" by (rule totalHits_flush [OF assms])
  show "pendingHits code (pb_dirty (pbFlushHits db g s)) = 0" by simp
  show "totalHits content (snd (pbResolve db env c s)) code
      = totalHits content s code + (if c = code \<and> pTrack env \<and> fst (pbResolve db env c s) \<noteq> None then 1 else 0)"
    by (simp add: totalHits_def pbResolve_frame del: not_None_eq)
  show "dirty_ok (pb_dirty (snd (pbResolve db env c s)))"
    using assms(3) by (simp add: pbResolve_frame dirty_ok_bump del: not_None_eq)
  show "pbLinkHits db code s = sint (totalHits content s code)" if "content (pb_db s) (pbHkey code) \<noteq> None"
    using that pbLinkHits_total [OF assms(1)] by blast
qed

section \<open>A database in memory\<close>

text \<open>A concrete database, to show that the laws can hold: a finite map.\<close>

fun mapBatch :: "batch_op \<Rightarrow> (bytes, bytes) fmap \<Rightarrow> (bytes, bytes) fmap" where
  "mapBatch (BSet k v) d = fmupd k v d"
| "mapBatch (BMerge k v) d = fmupd k (mergeInto (fmlookup d k) v) d"
| "mapBatch (BDelete k) d = fmdrop k d"

definition mapDB :: "(bytes, bytes) fmap pebble" where
  "mapDB =
     \<lparr>dbGet = (\<lambda>k d. case fmlookup d k of None \<Rightarrow> Inl ErrNotFound | Some v \<Rightarrow> Inr v),
      dbSet = (\<lambda>k v d. Some (fmupd k v d)),
      dbCommit = (\<lambda>b d. Some (fold mapBatch b d)),
      dbIter = (\<lambda>lo hi d. Some (map (\<lambda>k. (k, the (fmlookup d k)))
                                 (filter (\<lambda>k. lo \<le> k \<and> k < hi) (sorted_list_of_fset (fmdom d))))),
      dbCompact = (\<lambda>d. d), dbClose = (\<lambda>d. d)\<rparr>"

lemma fold_mapBatch: "fmlookup (fold mapBatch b d) = fold batchEffect b (fmlookup d)"
proof (induction b arbitrary: d)
  case (Cons x b)
  have "fmlookup (mapBatch x d) = batchEffect x (fmlookup d)" by (cases x) auto
  then show ?case using Cons by simp
qed simp

lemma mapDB_laws: "pebble_laws mapDB fmlookup"
proof -
  have "set (map (\<lambda>k. (k, the (fmlookup d k))) (filter (\<lambda>k. lo \<le> k \<and> k < hi) (sorted_list_of_fset (fmdom d))))
      = {(k, v). fmlookup d k = Some v \<and> lo \<le> k \<and> k < hi}" for lo hi and d :: "(bytes, bytes) fmap"
    by (auto simp: fmlookup_dom_iff image_iff)
  moreover have "fmlookup (fmupd k v d) = (fmlookup d)(k \<mapsto> v)" for k v and d :: "(bytes, bytes) fmap" by auto
  ultimately show ?thesis
    by (simp add: pebble_laws_def mapDB_def fold_mapBatch distinct_sorted_list_of_fset comp_def)
qed

definition demoPb :: "(bytes, bytes) fmap PebbleStore" where
  "demoPb =
     \<lparr>pb_db = fmap_of_list [(''l:ab'', encVal 0 5 ''http://x'')], pb_cache = newKvCache 100000 5000,
      pb_dirty = (\<lambda>_. fmempty), pb_instance = 0, pb_prefix = CHR ''0'', pb_stopped = False,
      pb_counters = initMetrics 0\<rparr>"

definition demoPbEnv :: pb_env where
  "demoPbEnv =
     \<lparr>pRt = det_rt, pTrack = True, pClk = (\<lambda>_. 1000), pUs = 1, pDraws = [''abcdefg''], pManyDraws = (\<lambda>_. ''abcdefg''),
      pRetryClk = (\<lambda>_ _. 1000), pRetryDraws = (\<lambda>_. [])\<rparr>"

lemma demoPb_row: "decVal (encVal 0 5 ''http://x'') = Some (0, 5, ''http://x'')"
  by (simp add: decVal_encVal in_i64_def)

lemma demoPb_resolves: "fst (pbResolve mapDB demoPbEnv ''ab'' demoPb) = Some ''http://x''"
  by (simp add: pbResolve_def demoPb_def demoPbEnv_def cacheGet_def newKvCache_def pbGetLink_def mapDB_def
      pbLkey_def pbCount_def demoPb_row Let_def)

theorem pebble_hits_conserved_witness:
  "totalHits fmlookup (snd (pbResolve mapDB demoPbEnv ''ab'' demoPb)) ''ab'' = 1
   \<and> totalHits fmlookup (pbFlushHits mapDB det_rt demoPb) ''ab'' = 0"
proof -
  have "dirty_ok (pb_dirty demoPb)" "totalHits fmlookup demoPb ''ab'' = 0"
    by (simp_all add: demoPb_def totalHits_def dbHits_def pbHkey_def)
  then show ?thesis
    using pebble_hits_conserved [OF mapDB_laws rt_ok_det_rt, of demoPb "''ab''" demoPbEnv "''ab''"] demoPb_resolves
    by (simp add: demoPbEnv_def)
qed

section \<open>Merge operands in any order\<close>

text \<open>C36. The merge operator does not depend on how the database groups or orders the operands of a counter:
  the result is the sum of all operands modulo \<open>2^64\<close>, and an intermediate result written by a
  compaction reads back as itself.\<close>

theorem merge_any_order:
  assumes "mset vs = mset ws"
  shows "fold MergeNewer vs b = fold MergeOlder ws b
         \<and> fold MergeNewer vs b = b + sum_list (map u64Merge ws)
         \<and> u64Merge (Finish (fold MergeNewer vs b)) = fold MergeNewer vs b
         \<and> fold MergeNewer (xs @ vs) b = MergeNewer (Finish (fold MergeOlder ws 0)) (fold MergeNewer xs b)"
proof -
  have "sum_list (map u64Merge vs) = sum_list (map u64Merge ws)"
    using assms by (metis mset_map sum_mset_sum_list)
  then show ?thesis by (simp add: fold_Merge MergeNewer_add)
qed

theorem merge_any_order_witness:
  "fold MergeNewer [putUint64 3, putUint64 4] 0 = fold MergeOlder [putUint64 4, putUint64 3] 0
   \<and> fold MergeNewer [putUint64 3, putUint64 4] 0 = 7"
proof -
  have m: "mset [putUint64 3, putUint64 4] = mset [putUint64 4, putUint64 3]" by simp
  have "0 + sum_list (map u64Merge [putUint64 4, putUint64 3]) = 7" by simp
  then show ?thesis using merge_any_order [OF m, of 0 "[]"] by argo
qed

section \<open>Expiry sweep\<close>

lemma pbLkey_range: "pbLower \<le> pbLkey c" "pbLkey c < pbUpper"
  by (simp_all add: pbLower_def pbUpper_def pbLkey_def)

lemma pbHkey_range: "\<not> pbLower \<le> pbHkey c"
  by (simp add: pbLower_def pbHkey_def)

lemma fold_BDelete: "fold batchEffect (map BDelete ks) m k = (if k \<in> set ks then None else m k)"
  by (induction ks arbitrary: m) auto

lemma sweep_content:
  assumes "pebble_laws db content"
  shows "content (pb_db (pbSweepExpired db now s)) (pbLkey code)
           = (case content (pb_db s) (pbLkey code) of
                None \<Rightarrow> None
              | Some v \<Rightarrow> (case decVal v of
                            Some (e, _, _) \<Rightarrow> if e \<noteq> 0 \<and> e \<le> now then None else Some v
                          | None \<Rightarrow> Some v))"
    and "content (pb_db (pbSweepExpired db now s)) (pbHkey code) = content (pb_db s) (pbHkey code)"
    and "pb_cache (pbSweepExpired db now s) = pb_cache s" and "pb_prefix (pbSweepExpired db now s) = pb_prefix s"
proof -
  obtain kvs where kvs: "dbIter db pbLower pbUpper (pb_db s) = Some kvs"
    "set kvs = {(k, v). content (pb_db s) k = Some v \<and> pbLower \<le> k \<and> k < pbUpper}"
    using pebble_iter [OF assms] by blast
  define dead where "dead = map fst (filter (\<lambda>(k, v). case decVal v of
      None \<Rightarrow> False | Some (e, _, _) \<Rightarrow> e \<noteq> 0 \<and> e \<le> now) kvs)"
  obtain d where d: "dbCommit db (map BDelete dead) (pb_db s) = Some d"
    "content d = fold batchEffect (map BDelete dead) (content (pb_db s))"
    using pebble_commit [OF assms] by blast
  have sw: "pbSweepExpired db now s = (if dead = [] then s else s\<lparr>pb_db := d\<rparr>)"
    using kvs(1) d(1) by (simp add: pbSweepExpired_def flip: dead_def)
  then have c: "content (pb_db (pbSweepExpired db now s)) k = (if k \<in> set dead then None else content (pb_db s) k)" for k
    using d(2) by (simp add: fold_BDelete)
  have in_dead: "k \<in> set dead \<longleftrightarrow> (\<exists>v e ct u. content (pb_db s) k = Some v \<and> pbLower \<le> k \<and> k < pbUpper
      \<and> decVal v = Some (e, ct, u) \<and> e \<noteq> 0 \<and> e \<le> now)" for k
    unfolding dead_def by (force simp: kvs(2) image_iff split: option.splits)
  show "content (pb_db (pbSweepExpired db now s)) (pbHkey code) = content (pb_db s) (pbHkey code)"
    using c in_dead pbHkey_range by simp
  show "content (pb_db (pbSweepExpired db now s)) (pbLkey code)
      = (case content (pb_db s) (pbLkey code) of
                None \<Rightarrow> None
              | Some v \<Rightarrow> (case decVal v of
                            Some (e, _, _) \<Rightarrow> if e \<noteq> 0 \<and> e \<le> now then None else Some v
                          | None \<Rightarrow> Some v))"
    using c [of "pbLkey code"] in_dead [of "pbLkey code"] pbLkey_range [of code] by (auto split: option.splits)
  show "pb_cache (pbSweepExpired db now s) = pb_cache s" "pb_prefix (pbSweepExpired db now s) = pb_prefix s"
    using sw by simp_all
qed

lemma pbView_sweep:
  assumes "pebble_laws db content"
  shows "pbView content (pbSweepExpired db now s) code = liveAt now (pbView content s code)"
  by (auto simp: pbView_def rowView_def liveAt_def sweep_content(1) [OF assms] split: option.splits bind_splits)

lemma pbOk_sweep:
  assumes "pebble_laws db content" and "pbOk content s"
  shows "pbOk content (pbSweepExpired db now s)"
proof -
  have "agrees (pb_cache s) (pbView content (pbSweepExpired db now s))"
    using assms(2) by (auto simp: pbOk_def agrees_def pbView_sweep [OF assms(1)] liveAt_def split: option.splits if_splits)
  then show ?thesis
    using assms(2) unfolding pbOk_def
    by (simp add: sweep_content [OF assms(1)] split: option.splits if_splits) (metis option.distinct(1))
qed

end
