(* ===== verification/PebbleRun.thy ===== *)
theory PebbleRun
  imports Pebble
begin

text \<open>
  Runs of the Pebble engine. The cache may outlive a row (the sweep deletes rows and leaves the cache
  alone), so the invariant relates cache, rows and clock: a cached entry is the row, or the row is
  gone and the entry has expired. Every operation keeps it while time moves forward, and so the cache
  cannot be observed: \<open>Resolve\<close> answers what a lookup of the row would answer.
\<close>

section \<open>Cache, rows and clock\<close>

definition faithful :: "int \<Rightarrow> kvCache \<Rightarrow> (bytes \<Rightarrow> (bytes \<times> int) option) \<Rightarrow> bool" where
  "faithful now c v \<longleftrightarrow>
     (\<forall>code ent. cacheEntry code c = Some ent \<longrightarrow>
        (case v code of
           Some (u, e) \<Rightarrow> ce_u ent = u \<and> ce_e ent = e
         | None \<Rightarrow> ce_e ent \<noteq> 0 \<and> ce_e ent \<le> now))"

lemma faithful_agrees:
  assumes "faithful now c v"
  shows "agrees c v"
  unfolding agrees_def
proof (intro allI impI)
  fix code ent u e
  assume "cacheEntry code c = Some ent" and "v code = Some (u, e)"
  with assms [unfolded faithful_def, rule_format, of code ent] show "ce_u ent = u \<and> ce_e ent = e" by simp
qed

lemma faithful_mono:
  assumes "faithful now c v" and "now \<le> now'"
  shows "faithful now' c v"
  unfolding faithful_def
proof (intro allI impI)
  fix code ent
  assume "cacheEntry code c = Some ent"
  with assms(1) [unfolded faithful_def, rule_format, of code ent] assms(2)
  show "case v code of Some (u, e) \<Rightarrow> ce_u ent = u \<and> ce_e ent = e | None \<Rightarrow> ce_e ent \<noteq> 0 \<and> ce_e ent \<le> now'"
    by (auto split: option.splits)
qed

lemma faithful_sub:
  assumes "faithful now c v" and "\<And>code. cacheEntry code c' \<in> {None, cacheEntry code c}"
  shows "faithful now c' v"
  unfolding faithful_def
proof (intro allI impI)
  fix code ent
  assume "cacheEntry code c' = Some ent"
  then have "cacheEntry code c = Some ent" using assms(2) [of code] by auto
  then show "case v code of Some (u, e) \<Rightarrow> ce_u ent = u \<and> ce_e ent = e | None \<Rightarrow> ce_e ent \<noteq> 0 \<and> ce_e ent \<le> now"
    using assms(1) by (auto simp: faithful_def)
qed

lemma faithful_get: "faithful now c v \<Longrightarrow> faithful now (snd (cacheGet t code c)) v"
  by (erule faithful_sub) (rule cacheEntry_get)

lemma faithful_put:
  assumes "faithful now c v" and "cache_ok c"
  shows "faithful now (cachePut t code u e c) (v(code \<mapsto> (u, e)))"
  unfolding faithful_def
proof (intro allI impI)
  fix k ent
  assume "cacheEntry k (cachePut t code u e c) = Some ent"
  then show "case (v(code \<mapsto> (u, e))) k of Some (u, e) \<Rightarrow> ce_u ent = u \<and> ce_e ent = e
      | None \<Rightarrow> ce_e ent \<noteq> 0 \<and> ce_e ent \<le> now"
    using cacheEntry_put(1) [OF assms(2), of code t u e] cacheEntry_put(2) [OF assms(2), of k code t u e] assms(1)
    by (cases "k = code") (auto simp: faithful_def)
qed

lemma faithful_remove: "faithful now c v \<Longrightarrow> faithful now (cacheRemove code c) (v(code := x))"
  unfolding faithful_def by (simp add: cacheEntry_remove)

lemma faithful_live:
  assumes "faithful now c v" and "now \<le> now'" and "t \<le> now'"
  shows "faithful now' c (\<lambda>code. liveAt t (v code))"
  unfolding faithful_def
proof (intro allI impI)
  fix code ent
  assume "cacheEntry code c = Some ent"
  then have "case v code of Some (u, e) \<Rightarrow> ce_u ent = u \<and> ce_e ent = e | None \<Rightarrow> ce_e ent \<noteq> 0 \<and> ce_e ent \<le> now"
    using assms(1) by (simp add: faithful_def)
  then show "case liveAt t (v code) of Some (u, e) \<Rightarrow> ce_u ent = u \<and> ce_e ent = e
      | None \<Rightarrow> ce_e ent \<noteq> 0 \<and> ce_e ent \<le> now'"
    using assms(2,3) by (auto simp: liveAt_def split: option.splits)
qed

section \<open>The invariant\<close>

definition rowsOk :: "int \<Rightarrow> (bytes \<Rightarrow> bytes option) \<Rightarrow> kvCache \<Rightarrow> bool" where
  "rowsOk now m c \<longleftrightarrow>
     cache_ok c \<and> (\<forall>code v. m (pbLkey code) = Some v \<longrightarrow> decVal v \<noteq> None)
     \<and> faithful now c (\<lambda>code. rowView (m (pbLkey code)))"

definition pbInv :: "('d \<Rightarrow> bytes \<Rightarrow> bytes option) \<Rightarrow> int \<Rightarrow> 'd PebbleStore \<Rightarrow> bool" where
  "pbInv content now s \<longleftrightarrow>
     rowsOk now (content (pb_db s)) (pb_cache s) \<and> pb_prefix s \<in> set ALPHABET \<and> dirty_ok (pb_dirty s)"

lemma pbInv_pbOk: "pbInv content now s \<Longrightarrow> pbOk content s"
  using faithful_agrees by (auto simp: pbInv_def rowsOk_def pbOk_def pbView_def [abs_def])

lemma rowsOk_mono: "rowsOk now m c \<Longrightarrow> now \<le> now' \<Longrightarrow> rowsOk now' m c"
  using faithful_mono by (auto simp: rowsOk_def)

lemma rowsOk_write:
  assumes "rowsOk now m c" and "in_i64 e" and "in_i64 ct" and "c' \<in> {cachePut t code u e c, cacheRemove code c}"
  shows "rowsOk now (m(pbLkey code \<mapsto> encVal e ct u)) c'"
proof -
  let ?v = "\<lambda>code. rowView (m (pbLkey code))"
  have v: "(\<lambda>k. rowView ((m(pbLkey code \<mapsto> encVal e ct u)) (pbLkey k))) = ?v(code \<mapsto> (u, e))"
    using assms(2,3) by (auto simp: fun_eq_iff)
  have c: "cache_ok c" "faithful now c ?v" using assms(1) by (simp_all add: rowsOk_def)
  have "cache_ok c'" "faithful now c' (?v(code \<mapsto> (u, e)))"
    using assms(4) cache_ok_put [OF c(1)] cache_ok_remove [OF c(1)] faithful_put [OF c(2,1), of t code u e]
      faithful_remove [OF c(2), of code "Some (u, e)"] by auto
  then show ?thesis using assms(1-3) unfolding rowsOk_def v by (auto simp: decVal_encVal)
qed

lemma rowsOk_other_keys:
  assumes "rowsOk now m c" and "\<And>code. m' (pbLkey code) = m (pbLkey code)"
  shows "rowsOk now m' c"
  using assms by (simp add: rowsOk_def)

lemma rowsOk_delete:
  assumes "rowsOk now m c" and "m' (pbLkey code) = None" and "\<And>k. k \<noteq> code \<Longrightarrow> m' (pbLkey k) = m (pbLkey k)"
  shows "rowsOk now m' (cacheRemove code c)"
proof -
  have "(\<lambda>k. rowView (m' (pbLkey k))) = (\<lambda>k. rowView (m (pbLkey k)))(code := None)"
    using assms(2,3) by (auto simp: fun_eq_iff rowView_def)
  moreover have "decVal v \<noteq> None" if "m' (pbLkey k) = Some v" for k v
    using assms that by (cases "k = code") (auto simp: rowsOk_def)
  ultimately show ?thesis
    using assms(1) cache_ok_remove faithful_remove [of now c "\<lambda>k. rowView (m (pbLkey k))" code None]
    by (simp add: rowsOk_def)
qed

section \<open>Every operation keeps it\<close>

lemma pbInv_count [simp]: "pbInv content now (pbCount f s) = pbInv content now s"
  by (simp add: pbInv_def)

lemma pbInv_bump: "pbInv content now s \<Longrightarrow> pbInv content now (pbBump track code s)"
  by (simp add: pbInv_def pbBump_def dirty_ok_bump)

lemma pbInv_put:
  assumes "pebble_laws db content" and "pbInv content now s" and "in_i64 t0"
  shows "pbInv content now (snd (pbPut db (expiry t0 ttl) t0 url t code s))"
proof -
  obtain d where d: "dbSet db (pbLkey code) (encVal (expiry t0 ttl) t0 url) (pb_db s) = Some d"
    "content d = (content (pb_db s))(pbLkey code \<mapsto> encVal (expiry t0 ttl) t0 url)"
    using pebble_set [OF assms(1)] by blast
  then show ?thesis
    using assms(2,3) rowsOk_write [of now "content (pb_db s)" "pb_cache s" "expiry t0 ttl" t0
        "cachePut t code url (expiry t0 ttl) (pb_cache s)" t code url]
    by (auto simp: pbPut_def pbInv_def split: option.split)
qed

lemma pbInv_fresh:
  assumes "pebble_laws db content" and "pbInv content now s" and "in_i64 t0"
    and "pbFresh db (expiry t0 ttl) t0 url t rs s = Some (code, s')"
  shows "pbInv content now s'"
  using assms(2,4)
proof (induction rs arbitrary: s)
  case (Cons r rs)
  obtain b s1 where p: "pbPut db (expiry t0 ttl) t0 url t (pbRandCode r s) s = (b, s1)" by fastforce
  have "pbInv content now s1" using pbInv_put [OF assms(1) Cons(2) assms(3)] p by (metis snd_conv)
  then show ?case using Cons(1,3) p by (cases b) auto
qed simp

lemma pbInv_Shorten:
  assumes "pebble_laws db content" and "pbInv content now s" and "in_i64 (clk 0)"
    and "pbShorten db clk draws url al hasAlias ttl s = Some (code, s')"
  shows "pbInv content now s'"
proof -
  let ?s = "pbCount StoreWrite s"
  have s: "pbInv content now ?s" using assms(2) by simp
  obtain b s1 where p: "pbPut db (expiry (clk 0) ttl) (clk 0) url (clk 1) al ?s = (b, s1)" by fastforce
  have "pbInv content now s1" using pbInv_put [OF assms(1) s assms(3)] p by (metis snd_conv)
  then show ?thesis
    using assms(4) p pbInv_fresh [OF assms(1) s assms(3)]
    by (cases b) (auto simp: pbShorten_def Let_def split: if_splits)
qed

lemma rowsOk_batch:
  assumes "rowsOk now m c" and "in_i64 e" and "in_i64 ct"
  shows "rowsOk now (fold batchEffect (map (\<lambda>i. BSet (pbLkey (code i)) (encVal e ct (url i))) is) m)
           (fold (\<lambda>i c. cachePut (t i) (code i) (url i) e c) is c)"
  using assms(1)
proof (induction "is" arbitrary: m c)
  case (Cons i "is")
  from Cons(1) [OF rowsOk_write [OF Cons(2) assms(2,3) insertI1, of "code i" "url i" "t i"]] show ?case by (simp add: fun_upd_def)
qed simp

lemma pbInv_ShortenMany:
  assumes "pebble_laws db content" and "pbInv content now s" and "in_i64 (pClk env 0)" and "\<And>i. in_i64 (pRetryClk env i 0)"
    and "pbShortenMany db env urls ttl s = Some (codes, s')"
  shows "pbInv content now s'"
proof -
  define cs where "cs = map (pbDrawn db (pManyDraws env) s) [0..<length urls]"
  define ix where "ix = filter (\<lambda>i. cs ! i \<noteq> []) [0..<length urls]"
  let ?e = "expiry (pClk env 0) ttl"
  let ?b = "map (\<lambda>i. BSet (pbLkey (cs ! i)) (encVal ?e (pClk env 0) (urls ! i))) ix"
  let ?c = "fold (\<lambda>i c. cachePut (pClk env (Suc i)) (cs ! i) (urls ! i) ?e c) ix (pb_cache s)"
  let ?f = "\<lambda>i (codes, s). map_option (\<lambda>(c, s). (codes[i := c], s))
      (pbShorten db (pRetryClk env i) (pRetryDraws env i) (urls ! i) [] False ttl s)"
  obtain d where d: "dbCommit db ?b (pb_db s) = Some d" "content d = fold batchEffect ?b (content (pb_db s))"
    using pebble_commit [OF assms(1)] by blast
  let ?s = "s\<lparr>pb_db := d, pb_cache := ?c\<rparr>"
  have "pbInv content now ?s"
    using assms(2,3) d(2) rowsOk_batch [of now "content (pb_db s)" "pb_cache s" ?e "pClk env 0" "\<lambda>i. cs ! i" "\<lambda>i. urls ! i" ix]
    by (simp add: pbInv_def)
  then have start: "pbInv content now (snd (cs, ?s))" by simp
  have run: "foldOpt ?f (filter (\<lambda>i. cs ! i = []) [0..<length urls]) (cs, ?s) = Some (codes, s')"
    using assms(5) d(1) by (simp add: pbShortenMany_def Let_def flip: cs_def ix_def)
  have "pbInv content now (snd (codes, s'))"
  proof (rule foldOpt_inv [where P = "\<lambda>x. pbInv content now (snd x)", OF run start])
    fix i x x'
    assume "pbInv content now (snd x)" and "?f i x = Some x'"
    then show "pbInv content now (snd x')"
      using pbInv_Shorten [where clk = "pRetryClk env i", OF assms(1) _ assms(4)] by (cases x) auto
  qed
  then show ?thesis by simp
qed

lemma pbInv_Resolve:
  assumes "pebble_laws db content" and "pbInv content now s"
  shows "pbInv content now (snd (pbResolve db env code s))"
proof -
  obtain r c where g: "cacheGet (pClk env 0) code (pb_cache s) = (r, c)" by fastforce
  let ?v = "\<lambda>code. rowView (content (pb_db s) (pbLkey code))"
  have k: "cache_ok (pb_cache s)" "faithful now (pb_cache s) ?v" using assms(2) by (simp_all add: pbInv_def rowsOk_def)
  have c: "cache_ok c" "faithful now c ?v"
    using cache_ok_get [OF k(1)] faithful_get [OF k(2)] g by (metis snd_conv)+
  then have s1: "pbInv content now (s\<lparr>pb_cache := c\<rparr>)" using assms(2) by (simp add: pbInv_def rowsOk_def)
  have "pbInv content now (s\<lparr>pb_cache := cachePut t code u e c\<rparr>)"
    if "content (pb_db s) (pbLkey code) = Some v" and "decVal v = Some (e, ct, u)" for t v e ct u
  proof -
    have "?v(code \<mapsto> (u, e)) = ?v" using that by (auto simp: fun_eq_iff rowView_def)
    then show ?thesis
      using s1 faithful_put [OF c(2,1), of t code u e] cache_ok_put [OF c(1)] by (simp add: pbInv_def rowsOk_def)
  qed
  then show ?thesis
    using s1 g
    by (auto simp: pbResolve_def Let_def pbGetLink_content [OF assms(1)] pbCount_cache
        intro!: pbInv_bump split: option.split)
qed

lemma pbInv_Update:
  assumes "pebble_laws db content" and "pbInv content now s" and "pbUpdate db t code url ttl hasTTL s = (m, s')"
  shows "pbInv content now s'"
proof (cases "content (pb_db s) (pbLkey code)")
  case (Some v)
  then obtain e c u where v: "decVal v = Some (e, c, u)" using assms(2) by (fastforce simp: pbInv_def rowsOk_def)
  have i: "in_i64 e" "in_i64 c" using decVal_in_i64 [OF v] by simp_all
  let ?exp = "if hasTTL then if 0 < ttl then i64 (t + ttl) else 0 else e"
  obtain d where d: "dbSet db (pbLkey code) (encVal ?exp c url) (pb_db s) = Some d"
    "content d = (content (pb_db s))(pbLkey code \<mapsto> encVal ?exp c url)"
    using pebble_set [OF assms(1)] by blast
  have "rowsOk now (content d) (cacheRemove code (pb_cache s))"
    unfolding d(2)
    by (rule rowsOk_write [where c = "pb_cache s"]) (use assms(2) i in \<open>auto simp: pbInv_def\<close>)
  moreover have "s' = s\<lparr>pb_db := d, pb_cache := cacheRemove code (pb_cache s)\<rparr>"
    using assms(3) Some v d(1) by (simp add: pbUpdate_def pbGetLink_content [OF assms(1)] Let_def)
  ultimately show ?thesis using assms(2) by (simp add: pbInv_def)
qed (use assms in \<open>auto simp: pbUpdate_def pbGetLink_content\<close>)

lemma pbInv_Remove:
  assumes "pebble_laws db content" and "pbInv content now s" and "pbRemove db code s = (m, s')"
  shows "pbInv content now s'"
proof (cases "content (pb_db s) (pbLkey code)")
  case (Some v)
  obtain d where d: "dbCommit db [BDelete (pbLkey code), BDelete (pbHkey code)] (pb_db s) = Some d"
    "content d = (content (pb_db s))(pbLkey code := None, pbHkey code := None)"
    using pebble_commit [OF assms(1), of "[BDelete (pbLkey code), BDelete (pbHkey code)]"] by auto
  have "rowsOk now (content d) (cacheRemove code (pb_cache s))"
    using assms(2) d(2) by (intro rowsOk_delete [of now "content (pb_db s)"]) (simp_all add: pbInv_def)
  moreover have "s' = s\<lparr>pb_db := d, pb_cache := cacheRemove code (pb_cache s)\<rparr>"
    using assms(3) Some d(1) by (simp add: pbRemove_def pbGetLink_content [OF assms(1)] Let_def)
  ultimately show ?thesis using assms(2) by (simp add: pbInv_def)
qed (use assms in \<open>auto simp: pbRemove_def pbGetLink_content\<close>)

lemma merges_keep_rows:
  "list_all (\<lambda>x. \<exists>c v. x = BMerge (pbHkey c) v) b \<Longrightarrow> fold batchEffect b m (pbLkey code) = m (pbLkey code)"
  by (induction b arbitrary: m) auto

lemma pbInv_Flush:
  assumes "pebble_laws db content" and "pbInv content now s"
  shows "pbInv content now (pbFlushHits db g s)"
proof -
  have "list_all (\<lambda>x. \<exists>c v. x = BMerge (pbHkey c) v) (concat (map (\<lambda>i. hitOperands g (pb_dirty s i)) [0..<numShards]))"
    by (auto simp: list_all_iff hitOperands_def split: option.splits)
  then have "content (pb_db (pbFlushHits db g s)) (pbLkey code) = content (pb_db s) (pbLkey code)" for code
    unfolding pbFlushHits_content [OF assms(1)] by (rule merges_keep_rows)
  moreover have "rowsOk now (content (pb_db s)) (pb_cache s)" using assms(2) by (simp add: pbInv_def)
  ultimately have "rowsOk now (content (pb_db (pbFlushHits db g s))) (pb_cache s)"
    using rowsOk_other_keys by blast
  then show ?thesis using assms(2) by (simp add: pbInv_def)
qed

lemma pbInv_Sweep:
  assumes "pebble_laws db content" and "pbInv content now s" and "now \<le> now'" and "t \<le> now'"
  shows "pbInv content now' (pbSweepExpired db t s)"
proof -
  let ?s = "pbSweepExpired db t s"
  have "pbView content ?s = (\<lambda>code. liveAt t (pbView content s code))"
    using pbView_sweep [OF assms(1)] by (simp add: fun_eq_iff)
  then have "faithful now' (pb_cache s) (pbView content ?s)"
    using faithful_live [of now "pb_cache s" "pbView content s" now' t] assms(2-4)
    by (simp add: pbInv_def rowsOk_def pbView_def [abs_def])
  moreover have "pb_dirty ?s = pb_dirty s"
    by (auto simp: pbSweepExpired_def Let_def split: option.splits)
  ultimately show ?thesis
    using pbOk_sweep [OF assms(1) pbInv_pbOk [OF assms(2)], of t] assms(2)
    by (simp add: pbInv_def rowsOk_def pbOk_def pbView_def [abs_def] sweep_content(3) [OF assms(1)])
qed

section \<open>Runs\<close>

text \<open>A state with a bound on the clock readings so far; operations may take time.\<close>

inductive pbstep :: "'d pebble \<Rightarrow> int \<times> 'd PebbleStore \<Rightarrow> int \<times> 'd PebbleStore \<Rightarrow> bool" for db where
  Shorten: "pbShorten db clk draws url al hasAlias ttl s = Some (code, s') \<Longrightarrow> in_i64 (clk 0) \<Longrightarrow> now \<le> now'
    \<Longrightarrow> pbstep db (now, s) (now', s')"
| ShortenMany: "pbShortenMany db env urls ttl s = Some (codes, s') \<Longrightarrow> in_i64 (pClk env 0)
    \<Longrightarrow> (\<And>i. in_i64 (pRetryClk env i 0)) \<Longrightarrow> now \<le> now' \<Longrightarrow> pbstep db (now, s) (now', s')"
| Resolve: "pbResolve db env code s = (r, s') \<Longrightarrow> now \<le> now' \<Longrightarrow> pbstep db (now, s) (now', s')"
| Update: "pbUpdate db t code url ttl hasTTL s = (m, s') \<Longrightarrow> now \<le> now' \<Longrightarrow> pbstep db (now, s) (now', s')"
| Remove: "pbRemove db code s = (m, s') \<Longrightarrow> now \<le> now' \<Longrightarrow> pbstep db (now, s) (now', s')"
| Flush: "now \<le> now' \<Longrightarrow> pbstep db (now, s) (now', pbFlushHits db g s)"
| Sweep: "t \<le> now' \<Longrightarrow> now \<le> now' \<Longrightarrow> pbstep db (now, s) (now', pbSweepExpired db t s)"
| Compact: "now \<le> now' \<Longrightarrow> pbstep db (now, s) (now', s\<lparr>pb_db := dbCompact db (pb_db s)\<rparr>)"

text \<open>A run starts with \<open>NewPebble\<close> on a database whose link rows are readable.\<close>

inductive pbinit :: "('d \<Rightarrow> bytes \<Rightarrow> bytes option) \<Rightarrow> int \<times> 'd PebbleStore \<Rightarrow> bool" for content where
  "NewPebble True (Some d) inst entries ttl t = Some s
   \<Longrightarrow> (\<And>code v. content d (pbLkey code) = Some v \<Longrightarrow> decVal v \<noteq> None) \<Longrightarrow> pbinit content (now, s)"

definition pbRunInv :: "'d pebble \<Rightarrow> ('d \<Rightarrow> bytes \<Rightarrow> bytes option) \<Rightarrow> int \<times> 'd PebbleStore \<Rightarrow> bool" where
  "pbRunInv db content st \<longleftrightarrow> (pebble_laws db content \<longrightarrow> pbInv content (fst st) (snd st))"

lemma pbInv_mono: "pbInv content now s \<Longrightarrow> now \<le> now' \<Longrightarrow> pbInv content now' s"
  using rowsOk_mono by (auto simp: pbInv_def)

lemma pbInv_new:
  assumes "NewPebble True (Some d) inst entries ttl t = Some s"
    and "\<And>code v. content d (pbLkey code) = Some v \<Longrightarrow> decVal v \<noteq> None"
  shows "pbInv content now s"
proof -
  let ?i = "if inst < 0 then 0 else inst"
  let ?j = "if int maxInstances \<le> ?i then int maxInstances - 1 else ?i"
  have "nat ?j < length ALPHABET" by (auto simp: ALPHABET_def maxInstances_def)
  then have "ALPHABET ! nat ?j \<in> set ALPHABET" by (rule nth_mem)
  moreover have "s = \<lparr>pb_db = d, pb_cache = newKvCache entries ttl, pb_dirty = (\<lambda>_. fmempty), pb_instance = ?j,
      pb_prefix = ALPHABET ! nat ?j, pb_stopped = False, pb_counters = initMetrics t\<rparr>"
    using assms(1) by (auto simp: NewPebble_def Let_def)
  ultimately show ?thesis
    using assms(2) by (simp add: pbInv_def rowsOk_def cache_ok_new faithful_def)
qed

lemma pbstep_inv:
  assumes "pebble_laws db content" and "pbstep db st st'" and "pbInv content (fst st) (snd st)"
  shows "pbInv content (fst st') (snd st')"
  using assms(2,3)
proof (induction rule: pbstep.induct)
  case (Shorten clk draws url al hasAlias ttl s code s' now now')
  then have "pbInv content now s'" by (intro pbInv_Shorten [OF assms(1) _ _ Shorten(1)]) simp_all
  then show ?case using Shorten(3) pbInv_mono by auto
next
  case (ShortenMany env urls ttl s codes s' now now')
  then have "pbInv content now s'" by (intro pbInv_ShortenMany [OF assms(1) _ _ _ ShortenMany(1)]) simp_all
  then show ?case using ShortenMany(4) pbInv_mono by auto
next
  case (Resolve env code s r s' now now')
  then show ?case using pbInv_mono [of content now s' now'] pbInv_Resolve [OF assms(1), of now s env code] by simp
next
  case (Update t code url ttl hasTTL s m s' now now')
  then show ?case using pbInv_mono [of content now s' now'] pbInv_Update [OF assms(1) _ Update(1)] by simp
next
  case (Remove code s m s' now now')
  then show ?case using pbInv_mono [of content now s' now'] pbInv_Remove [OF assms(1) _ Remove(1)] by simp
next
  case (Flush now now' s g)
  then show ?case using pbInv_mono [of content now "pbFlushHits db g s" now'] pbInv_Flush [OF assms(1)] by simp
next
  case (Sweep t now' now s)
  then show ?case using pbInv_Sweep [OF assms(1)] by auto
next
  case (Compact now now' s)
  then have "content (dbCompact db (pb_db s)) = content (pb_db s)" using assms(1) by (simp add: pebble_laws_def)
  with Compact show ?case using pbInv_mono [of content now s now'] by (simp add: pbInv_def)
qed

interpretation pebble_run: invariant_system "pbinit content" "pbstep db" "pbRunInv db content" for content db
proof
  show "pbRunInv db content st" if "pbinit content st" for st :: "int \<times> 'a PebbleStore"
    using that by (induction rule: pbinit.induct) (auto simp: pbRunInv_def intro: pbInv_new)
  show "pbRunInv db content st'" if "pbRunInv db content st" and "pbstep db st st'" for st st' :: "int \<times> 'a PebbleStore"
    using that pbstep_inv [of db content st st'] by (auto simp: pbRunInv_def)
qed

lemma pbResolve_exact:
  assumes "pebble_laws db content" and "pbInv content now s" and "now \<le> pClk env 0" and "pClk env 0 \<le> pClk env 1"
  shows "\<exists>t \<in> {pClk env 0, pClk env 1}. fst (pbResolve db env code s) = rowAnswer t (pbView content s code)"
proof -
  obtain r c where g: "cacheGet (pClk env 0) code (pb_cache s) = (r, c)" by fastforce
  show ?thesis
  proof (cases r)
    case (Some x)
    obtain u e where x: "x = (u, e)" by (cases x)
    have "fst (cacheGet (pClk env 0) code (pb_cache s)) = Some (u, e)" using g Some x by simp
    then obtain ent where ent: "cacheEntry code (pb_cache s) = Some ent" "ce_u ent = u" "ce_e ent = e" "e = 0 \<or> pClk env 0 < e"
      by (auto simp: cacheGet_Some)
    have "case pbView content s code of Some (u, e) \<Rightarrow> ce_u ent = u \<and> ce_e ent = e | None \<Rightarrow> ce_e ent \<noteq> 0 \<and> ce_e ent \<le> now"
      using assms(2) ent(1) by (simp add: pbInv_def rowsOk_def faithful_def pbView_def)
    then have "pbView content s code = Some (u, e)" using ent assms(3) by (auto split: option.splits)
    then have "rowAnswer (pClk env 0) (pbView content s code) = Some u" using ent(4) by (auto simp: rowAnswer_def liveAt_def)
    then show ?thesis using g Some x by (simp add: pbResolve_def)
  next
    case None
    have "fst (pbResolve db env code s) = rowAnswer (pClk env 1) (pbView content s code)"
      using None g by (auto simp: pbResolve_def rowAnswer_def liveAt_def Let_def pbGetLink_content [OF assms(1)]
          pbView_def rowView_def split: option.splits)
    then show ?thesis by blast
  qed
qed

text \<open>C33. The hot cache of the Pebble engine cannot be observed. In every state a run reaches, whatever was
  created, changed, removed, evicted, swept or compacted before, \<open>Resolve\<close> answers exactly what the
  row of the code in the database says at one of its two clock readings: the url of a row that has not
  expired, and nothing otherwise.\<close>

theorem pebble_cache_transparent:
  assumes "pebble_laws db content" and "pbinit content st" and "(pbstep db)\<^sup>*\<^sup>* st (now, s)"
    and "now \<le> pClk env 0" and "pClk env 0 \<le> pClk env 1"
  shows "\<exists>t \<in> {pClk env 0, pClk env 1}. fst (pbResolve db env code s) = rowAnswer t (pbView content s code)"
proof -
  have "pbRunInv db content (now, s)" by (rule pebble_run.inv_reachable [OF assms(2,3)])
  then have "pbInv content now s" using assms(1) by (simp add: pbRunInv_def)
  then show ?thesis by (rule pbResolve_exact [OF assms(1) _ assms(4,5)])
qed

lemma pbinit_empty: "pbinit fmlookup (0, the (NewPebble True (Some fmempty) 0 100000 5000 0))"
  by (rule pbinit.intros [of fmempty 0 100000 5000 0]) (simp_all add: NewPebble_def)

lemma demo_pbstep:
  "\<exists>s. pbstep mapDB (0, the (NewPebble True (Some fmempty) 0 100000 5000 0)) (1000, s)
     \<and> pbView fmlookup s ''al'' = Some (''http://x'', 2000)"
proof -
  let ?s = "the (NewPebble True (Some fmempty) 0 100000 5000 0)" and ?clk = "\<lambda>_ :: nat. 1000"
  have ok: "pbOk fmlookup ?s"
    by (rule pbInv_pbOk [of _ 0], rule pbInv_new [of fmempty 0 100000 5000 0]) (simp_all add: NewPebble_def)
  have i: "in_i64 (?clk 0)" and e: "expiry (?clk 0) 1000 = 2000" by (simp_all add: in_i64_def expiry_def i64_id)
  have "pbView fmlookup ?s ''al'' = None" by (simp add: NewPebble_def pbView_def rowView_def)
  with pb_alias [where clk = ?clk, OF mapDB_laws ok i, of "[]" "''http://x''" "''al''" 1000] e
  obtain s where s: "pbShorten mapDB ?clk [] ''http://x'' ''al'' True 1000 ?s = Some (''al'', s)"
    "pbView fmlookup s ''al'' = Some (''http://x'', 2000)" by auto
  have "pbstep mapDB (0, ?s) (1000, s)" by (rule pbstep.Shorten [OF s(1) i]) simp
  then show ?thesis using s(2) by blast
qed

theorem pebble_cache_transparent_witness:
  "\<exists>s. (pbstep mapDB)\<^sup>*\<^sup>* (0, the (NewPebble True (Some fmempty) 0 100000 5000 0)) (1000, s)
     \<and> fst (pbResolve mapDB demoPbEnv ''al'' s) = Some ''http://x''"
proof -
  obtain s where s: "pbstep mapDB (0, the (NewPebble True (Some fmempty) 0 100000 5000 0)) (1000, s)"
    "pbView fmlookup s ''al'' = Some (''http://x'', 2000)" using demo_pbstep by blast
  then have run: "(pbstep mapDB)\<^sup>*\<^sup>* (0, the (NewPebble True (Some fmempty) 0 100000 5000 0)) (1000, s)" by blast
  have "\<exists>t \<in> {pClk demoPbEnv 0, pClk demoPbEnv 1}.
      fst (pbResolve mapDB demoPbEnv ''al'' s) = rowAnswer t (pbView fmlookup s ''al'')"
    by (rule pebble_cache_transparent [OF mapDB_laws pbinit_empty run]) (simp_all add: demoPbEnv_def)
  then show ?thesis using run s(2) by (auto simp: demoPbEnv_def rowAnswer_def liveAt_def)
qed

end
