(* ===== verification/Resp.thy ===== *)
theory Resp
  imports HotCache
begin

text \<open>
  \<open>internal/store/kv.go\<close>: the RESP client. The reply reader \<open>readResp\<close> is a function from the bytes the
  connection delivers to a reply and the unread rest; the command encoder and the typed helpers sit
  on top of \<open>pipe\<close>. The connection and the server behind it are one parameter, a function from the
  bytes of a request to the bytes of the answer. The pool of connections is not modelled: a
  connection is put back with nothing unread, or dropped. Allocation fails where Go
  rejects the length with a panic, and not otherwise.
\<close>

section \<open>Replies\<close>

text \<open>The struct \<open>Resp\<close>; a nil slice is \<open>None\<close>.\<close>

datatype Resp = Resp (rKind: char) (rStr: "bytes option") (rInt: int) (rArr: "Resp list option")

definition IsNull :: "Resp \<Rightarrow> bool" where
  "IsNull r \<longleftrightarrow> rKind r = CHR ''$'' \<and> rStr r = None \<or> rKind r = CHR ''*'' \<and> rArr r = None"

text \<open>What reading yields: a panic, an error, or a value and the unread bytes.\<close>

datatype 'a rd = RdPanic | RdErr | RdOk 'a bytes

abbreviation CR :: char where
  "CR \<equiv> CHR 0x0D"

definition readLine :: "bytes \<Rightarrow> (bytes \<times> bytes) option" where
  "readLine r =
     (case IndexByte r NL of
        None \<Rightarrow> None
      | Some i \<Rightarrow>
          (let l = take (i + 1) r
           in if length l < 2 \<or> l ! (length l - 2) \<noteq> CR then None
              else Some (take (length l - 2) l, drop (i + 1) r)))"

text \<open>\<open>make\<close> panics on a negative length, and on one whose elements exceed the address space of the Go heap, \<open>2^48\<close>
  bytes on 64-bit machines; a struct \<open>Resp\<close> takes 64 bytes.\<close>

abbreviation maxAlloc :: int where
  "maxAlloc \<equiv> 2 ^ 48"

definition makePanics :: "int \<Rightarrow> int \<Rightarrow> bool" where
  "makePanics sz n \<longleftrightarrow> n < 0 \<or> maxAlloc < sz * n"

text \<open>\<open>io.ReadFull\<close> of \<open>n + 2\<close> bytes.\<close>

definition readBulk :: "int \<Rightarrow> bytes \<Rightarrow> Resp rd" where
  "readBulk n r =
     (let m = i64 (n + 2)
      in if makePanics 1 m then RdPanic
         else if int (length r) < m then RdErr
         else RdOk (Resp (CHR ''$'') (Some (take (nat n) r)) 0 None) (drop (nat m) r))"

fun readElems :: "(bytes \<Rightarrow> 'a rd) \<Rightarrow> nat \<Rightarrow> bytes \<Rightarrow> 'a list rd" where
  "readElems f 0 r = RdOk [] r"
| "readElems f (Suc n) r =
     (case f r of
        RdPanic \<Rightarrow> RdPanic
      | RdErr \<Rightarrow> RdErr
      | RdOk x r \<Rightarrow>
          (case readElems f n r of
             RdPanic \<Rightarrow> RdPanic
           | RdErr \<Rightarrow> RdErr
           | RdOk xs r \<Rightarrow> RdOk (x # xs) r))"

text \<open>The recursion of \<open>readResp\<close> into the elements of an array, with a bound on its depth.\<close>

fun readRespAt :: "nat \<Rightarrow> bytes \<Rightarrow> Resp rd" where
  "readRespAt 0 r = RdErr"
| "readRespAt (Suc k) [] = RdErr"
| "readRespAt (Suc k) (b # r) =
     (if b = CHR ''+'' \<or> b = CHR ''-'' then
        (case readLine r of None \<Rightarrow> RdErr | Some (l, r) \<Rightarrow> RdOk (Resp b (Some l) 0 None) r)
      else if b = CHR '':'' then
        (case readLine r of
           None \<Rightarrow> RdErr
         | Some (l, r) \<Rightarrow>
             (case ParseInt l of
                (n, None) \<Rightarrow> RdOk (Resp (CHR '':'') None n None) r
              | _ \<Rightarrow> RdErr))
      else if b = CHR ''$'' then
        (case readLine r of
           None \<Rightarrow> RdErr
         | Some (l, r) \<Rightarrow>
             (let n = fst (ParseInt l)
              in if n < 0 then RdOk (Resp (CHR ''$'') None 0 None) r else readBulk n r))
      else if b = CHR ''*'' then
        (case readLine r of
           None \<Rightarrow> RdErr
         | Some (l, r) \<Rightarrow>
             (let n = fst (ParseInt l)
              in if n < 0 then RdOk (Resp (CHR ''*'') None 0 None) r
                 else if makePanics 64 n then RdPanic
                 else case readElems (readRespAt k) (nat n) r of
                        RdPanic \<Rightarrow> RdPanic
                      | RdErr \<Rightarrow> RdErr
                      | RdOk xs r \<Rightarrow> RdOk (Resp (CHR ''*'') None 0 (Some xs)) r))
      else RdErr)"

text \<open>An array inside a reply starts at least one byte further on, so the number of bytes bounds the
  depth.\<close>

definition readResp :: "bytes \<Rightarrow> Resp rd" where
  "readResp r = readRespAt (Suc (length r)) r"

section \<open>Commands\<close>

definition CRLF :: bytes where
  "CRLF = [CR, NL]"

definition appendArg :: "bytes \<Rightarrow> bytes \<Rightarrow> bytes" where
  "appendArg dst a = dst @ ''$'' @ FormatInt (int (length a)) @ CRLF @ a @ CRLF"

definition appendCmd :: "bytes \<Rightarrow> bytes list \<Rightarrow> bytes" where
  "appendCmd buf args = fold (\<lambda>a buf. appendArg buf a) args (buf @ ''*'' @ FormatInt (int (length args)) @ CRLF)"

text \<open>\<open>net\<close> sends a request over a connection and yields the bytes the server answers, or nothing when
  no connection can be had or the write fails.\<close>

type_synonym 'd net = "bytes \<Rightarrow> 'd \<Rightarrow> (bytes \<times> 'd) option"

datatype kv_error = ErrKv

text \<open>The outer option is a panic of the reader.\<close>

definition pipe :: "'d net \<Rightarrow> bytes list list \<Rightarrow> 'd \<Rightarrow> ((kv_error + Resp list) \<times> 'd) option" where
  "pipe net cmds d =
     (let buf = fold (\<lambda>args buf. appendCmd buf args) cmds []
      in case net buf d of
           None \<Rightarrow> Some (Inl ErrKv, d)
         | Some (reply, d) \<Rightarrow>
             (case readElems readResp (length cmds) reply of
                RdPanic \<Rightarrow> None
              | RdErr \<Rightarrow> Some (Inl ErrKv, d)
              | RdOk rs _ \<Rightarrow> Some (Inr rs, d)))"

definition kvCmd :: "'d net \<Rightarrow> bytes list \<Rightarrow> 'd \<Rightarrow> ((kv_error + Resp) \<times> 'd) option" where
  "kvCmd net args d =
     Option.bind (pipe net [args] d) (\<lambda>(r, d).
       case r of Inl e \<Rightarrow> Some (Inl e, d) | Inr rs \<Rightarrow> Some (Inr (rs ! 0), d))"

definition kvGetKey :: "'d net \<Rightarrow> bytes \<Rightarrow> 'd \<Rightarrow> ((kv_error + bytes option) \<times> 'd) option" where
  "kvGetKey net key d =
     map_option (\<lambda>(r, d). (case r of Inl e \<Rightarrow> Inl e | Inr r \<Rightarrow> Inr (if IsNull r then None else rStr r), d))
       (kvCmd net [''GET'', key] d)"

definition setArgs :: "bytes \<Rightarrow> bytes \<Rightarrow> int \<Rightarrow> bool \<Rightarrow> bytes list" where
  "setArgs key val pxMs nx =
     [''SET'', key, val] @ (if 0 < pxMs then [''PX'', FormatInt pxMs] else []) @ (if nx then [''NX''] else [])"

definition isOK :: "Resp \<Rightarrow> bool" where
  "isOK r \<longleftrightarrow> rKind r = CHR ''+'' \<and> rStr r = Some ''OK''"

definition kvSetKey :: "'d net \<Rightarrow> bytes \<Rightarrow> bytes \<Rightarrow> int \<Rightarrow> bool \<Rightarrow> 'd \<Rightarrow> ((kv_error + bool) \<times> 'd) option" where
  "kvSetKey net key val pxMs nx d =
     map_option (\<lambda>(r, d). (case r of Inl e \<Rightarrow> Inl e | Inr r \<Rightarrow> Inr (isOK r), d)) (kvCmd net (setArgs key val pxMs nx) d)"

definition intReply :: "kv_error + Resp \<Rightarrow> kv_error + int" where
  "intReply r = (case r of Inl e \<Rightarrow> Inl e | Inr r \<Rightarrow> Inr (rInt r))"

definition kvDel :: "'d net \<Rightarrow> bytes \<Rightarrow> 'd \<Rightarrow> ((kv_error + int) \<times> 'd) option" where
  "kvDel net key d = map_option (\<lambda>(r, d). (intReply r, d)) (kvCmd net [''DEL'', key] d)"

text \<open>The deltas in the order their map is visited.\<close>

definition kvIncrByMany :: "'d net \<Rightarrow> (bytes \<times> int) list \<Rightarrow> 'd \<Rightarrow> (kv_error option \<times> 'd) option" where
  "kvIncrByMany net deltas d =
     (if deltas = [] then Some (None, d)
      else map_option (\<lambda>(r, d). (case r of Inl e \<Rightarrow> Some e | Inr _ \<Rightarrow> None, d))
             (pipe net (map (\<lambda>(key, n). [''INCRBY'', key, FormatInt n]) deltas) d))"

definition kvHget :: "'d net \<Rightarrow> bytes \<Rightarrow> bytes \<Rightarrow> 'd \<Rightarrow> ((kv_error + bytes option) \<times> 'd) option" where
  "kvHget net key field d =
     map_option (\<lambda>(r, d). (case r of Inl e \<Rightarrow> Inl e | Inr r \<Rightarrow> Inr (if IsNull r then None else rStr r), d))
       (kvCmd net [''HGET'', key, field] d)"

definition kvHsetnx :: "'d net \<Rightarrow> bytes \<Rightarrow> bytes \<Rightarrow> bytes \<Rightarrow> 'd \<Rightarrow> ((kv_error + bool) \<times> 'd) option" where
  "kvHsetnx net key field val d =
     map_option (\<lambda>(r, d). (case r of Inl e \<Rightarrow> Inl e | Inr r \<Rightarrow> Inr (rInt r = 1), d))
       (kvCmd net [''HSETNX'', key, field, val] d)"

definition kvHset :: "'d net \<Rightarrow> bytes \<Rightarrow> bytes \<Rightarrow> bytes \<Rightarrow> 'd \<Rightarrow> (kv_error option \<times> 'd) option" where
  "kvHset net key field val d =
     map_option (\<lambda>(r, d). (case r of Inl e \<Rightarrow> Some e | Inr _ \<Rightarrow> None, d)) (kvCmd net [''HSET'', key, field, val] d)"

definition kvHdel :: "'d net \<Rightarrow> bytes \<Rightarrow> bytes \<Rightarrow> 'd \<Rightarrow> ((kv_error + int) \<times> 'd) option" where
  "kvHdel net key field d = map_option (\<lambda>(r, d). (intReply r, d)) (kvCmd net [''HDEL'', key, field] d)"

record hincr =
  hi_key :: bytes
  hi_field :: bytes
  hi_n :: int

definition kvHIncrByMany :: "'d net \<Rightarrow> hincr list \<Rightarrow> 'd \<Rightarrow> (kv_error option \<times> 'd) option" where
  "kvHIncrByMany net deltas d =
     (if deltas = [] then Some (None, d)
      else map_option (\<lambda>(r, d). (case r of Inl e \<Rightarrow> Some e | Inr _ \<Rightarrow> None, d))
             (pipe net (map (\<lambda>x. [''HINCRBY'', hi_key x, hi_field x, FormatInt (hi_n x)]) deltas) d))"

section \<open>Cursor loops\<close>

definition arrOf :: "Resp \<Rightarrow> Resp list" where
  "arrOf r = (case rArr r of None \<Rightarrow> [] | Some xs \<Rightarrow> xs)"

definition strOf :: "Resp \<Rightarrow> bytes" where
  "strOf r = (case rStr r of None \<Rightarrow> [] | Some s \<Rightarrow> s)"

fun pairUp :: "'a list \<Rightarrow> ('a \<times> 'a) list" where
  "pairUp (x # y # zs) = (x, y) # pairUp zs"
| "pairUp _ = []"

text \<open>The loops of \<open>ScanEach\<close> and \<open>HScanEach\<close> end when the server returns the cursor 0. The callback is run on
  the list of what was visited; \<open>fuel\<close> bounds the number of round trips, and running out of it is
  not returning.\<close>

fun scanLoop :: "nat \<Rightarrow> 'd net \<Rightarrow> bytes \<Rightarrow> bytes \<Rightarrow> 'd \<Rightarrow> (kv_error option \<times> bytes list \<times> 'd) option" where
  "scanLoop 0 net pat cursor d = None"
| "scanLoop (Suc fuel) net pat cursor d =
     Option.bind (kvCmd net [''SCAN'', cursor, ''MATCH'', pat, ''COUNT'', ''500''] d) (\<lambda>(r, d).
       case r of
         Inl e \<Rightarrow> Some (Some e, [], d)
       | Inr r \<Rightarrow>
           if rKind r \<noteq> CHR ''*'' \<or> length (arrOf r) \<noteq> 2 then Some (None, [], d)
           else
             let cursor = strOf (arrOf r ! 0);
                 keys = (if rKind (arrOf r ! 1) = CHR ''*'' then map strOf (arrOf (arrOf r ! 1)) else [])
             in if cursor = ''0'' then Some (None, keys, d)
                else map_option (\<lambda>(e, ks, d). (e, keys @ ks, d)) (scanLoop fuel net pat cursor d))"

definition ScanEach :: "nat \<Rightarrow> 'd net \<Rightarrow> bytes \<Rightarrow> 'd \<Rightarrow> (kv_error option \<times> bytes list \<times> 'd) option" where
  "ScanEach fuel net pat d = scanLoop fuel net pat ''0'' d"

fun hscanLoop ::
  "nat \<Rightarrow> 'd net \<Rightarrow> bytes \<Rightarrow> bytes \<Rightarrow> 'd \<Rightarrow> (kv_error option \<times> (bytes \<times> bytes) list \<times> 'd) option" where
  "hscanLoop 0 net key cursor d = None"
| "hscanLoop (Suc fuel) net key cursor d =
     Option.bind (kvCmd net [''HSCAN'', key, cursor, ''COUNT'', ''1000''] d) (\<lambda>(r, d).
       case r of
         Inl e \<Rightarrow> Some (Some e, [], d)
       | Inr r \<Rightarrow>
           if length (arrOf r) \<noteq> 2 then Some (None, [], d)
           else
             let cursor = strOf (arrOf r ! 0);
                 items = pairUp (map strOf (arrOf (arrOf r ! 1)))
             in if cursor = ''0'' then Some (None, items, d)
                else map_option (\<lambda>(e, xs, d). (e, items @ xs, d)) (hscanLoop fuel net key cursor d))"

definition HScanEach :: "nat \<Rightarrow> 'd net \<Rightarrow> bytes \<Rightarrow> 'd \<Rightarrow> (kv_error option \<times> (bytes \<times> bytes) list \<times> 'd) option" where
  "HScanEach fuel net key d = hscanLoop fuel net key ''0'' d"

definition kvFlushDB :: "'d net \<Rightarrow> 'd \<Rightarrow> (kv_error option \<times> 'd) option" where
  "kvFlushDB net d =
     map_option (\<lambda>(r, d). (case r of Inl e \<Rightarrow> Some e | Inr _ \<Rightarrow> None, d)) (kvCmd net [''FLUSHDB''] d)"

definition kvDial :: "'d net \<Rightarrow> 'd \<Rightarrow> (bool \<times> 'd) option" where
  "kvDial net d = map_option (\<lambda>(r, d). (case r of Inl _ \<Rightarrow> False | Inr _ \<Rightarrow> True, d)) (kvCmd net [''PING''] d)"

section \<open>The reader consumes what it reads\<close>

lemma readLine_shorter: "readLine r = Some (l, r') \<Longrightarrow> length r' < length r"
  by (auto simp: readLine_def Let_def split: option.splits if_splits)

lemma readBulk_shorter: "readBulk n r = RdOk x r' \<Longrightarrow> length r' \<le> length r"
  by (auto simp: readBulk_def Let_def split: if_splits)

lemma readElems_shorter:
  assumes "\<And>r x r'. f r = RdOk x r' \<Longrightarrow> length r' \<le> length r" and "readElems f n r = RdOk xs r'"
  shows "length r' \<le> length r"
  using assms(2)
proof (induction n arbitrary: r xs)
  case (Suc n)
  then obtain x r1 ys where "f r = RdOk x r1" "readElems f n r1 = RdOk ys r'"
    by (auto split: rd.splits)
  then show ?case using Suc(1) assms(1) order_trans by blast
qed simp

lemma readRespAt_shorter: "readRespAt k r = RdOk x r' \<Longrightarrow> length r' < length r"
proof (induction k arbitrary: r x r')
  case (Suc k)
  then obtain b r0 where r: "r = b # r0" by (cases r) simp_all
  have e: "length r2 \<le> length r1" if "readElems (readRespAt k) n r1 = RdOk xs r2" for n r1 xs r2
    by (rule readElems_shorter [OF _ that]) (use Suc(1) in fastforce)
  show ?case
    using Suc(2) readLine_shorter [of r0] readBulk_shorter e
    by (fastforce simp: r Let_def split: if_splits option.splits prod.splits rd.splits)
qed simp

text \<open>More depth than bytes makes no difference.\<close>

lemma readElems_cong:
  assumes "\<And>r'. length r' \<le> length r \<Longrightarrow> f r' = g r'" and "\<And>r x r'. g r = RdOk x r' \<Longrightarrow> length r' \<le> length r"
  shows "readElems f n r = readElems g n r"
  using assms(1)
proof (induction n arbitrary: r)
  case (Suc n)
  have fg: "f r = g r" using Suc(2) by simp
  have "readElems f n r' = readElems g n r'" if "g r = RdOk x r'" for x r'
    by (rule Suc(1)) (use Suc(2) assms(2) [OF that] in auto)
  then show ?case by (auto simp: fg split: rd.splits)
qed simp

lemma readRespAt_enough: "length r < k \<Longrightarrow> length r < k' \<Longrightarrow> readRespAt k r = readRespAt k' r"
proof (induction k arbitrary: k' r)
  case (Suc k)
  then obtain j where k': "k' = Suc j" by (cases k') simp_all
  show ?case
  proof (cases r)
    case (Cons b r0)
    have "readElems (readRespAt k) n r1 = readElems (readRespAt j) n r1" if "length r1 < length r0" for n r1
    proof (rule readElems_cong)
      show "readRespAt k r' = readRespAt j r'" if "length r' \<le> length r1" for r'
        by (rule Suc(1)) (use that \<open>length r1 < length r0\<close> Suc(2,3) k' Cons in auto)
      show "length r' \<le> length r" if "readRespAt j r = RdOk x r'" for r x r'
        using readRespAt_shorter [OF that] by simp
    qed
    then have "readElems (readRespAt k) n r1 = readElems (readRespAt j) n r1" if "readLine r0 = Some (l, r1)" for n l r1
      using readLine_shorter [OF that] by blast
    then show ?thesis by (auto simp: k' Cons Let_def split: option.split)
  qed (simp add: k')
qed simp

lemma readResp_at: "length r < k \<Longrightarrow> readRespAt k r = readResp r"
  unfolding readResp_def by (rule readRespAt_enough) simp_all

section \<open>Replies round-trip\<close>

text \<open>The wire form of a reply.\<close>

fun printResp :: "Resp \<Rightarrow> bytes" where
  "printResp (Resp k s n a) =
     (if k = CHR '':'' then '':'' @ FormatInt n @ CRLF
      else if k = CHR ''$'' then
        (case s of None \<Rightarrow> ''$-1'' @ CRLF | Some s \<Rightarrow> ''$'' @ FormatInt (int (length s)) @ CRLF @ s @ CRLF)
      else if k = CHR ''*'' then
        (case a of
           None \<Rightarrow> ''*-1'' @ CRLF
         | Some xs \<Rightarrow> ''*'' @ FormatInt (int (length xs)) @ CRLF @ concat (map printResp xs))
      else k # (case s of None \<Rightarrow> [] | Some s \<Rightarrow> s) @ CRLF)"

fun resp_ok :: "Resp \<Rightarrow> bool" where
  "resp_ok (Resp k s n a) \<longleftrightarrow>
     (k = CHR ''+'' \<or> k = CHR ''-'') \<and> (\<exists>l. s = Some l \<and> NL \<notin> set l) \<and> n = 0 \<and> a = None
     \<or> k = CHR '':'' \<and> s = None \<and> in_i64 n \<and> a = None
     \<or> k = CHR ''$'' \<and> (case s of None \<Rightarrow> True | Some l \<Rightarrow> int (length l) + 2 \<le> maxAlloc) \<and> n = 0 \<and> a = None
     \<or> k = CHR ''*'' \<and> s = None \<and> n = 0
       \<and> (case a of None \<Rightarrow> True | Some xs \<Rightarrow> 64 * int (length xs) \<le> maxAlloc \<and> list_all resp_ok xs)"

lemma readLine_CRLF: "NL \<notin> set l \<Longrightarrow> readLine (l @ CRLF @ r) = Some (l, r)"
proof -
  assume "NL \<notin> set l"
  then have "IndexByte ((l @ [CR]) @ NL # r) NL = Some (length (l @ [CR]))" by (intro IndexByte_split) simp
  then show ?thesis by (simp add: readLine_def CRLF_def nth_append)
qed

lemma NL_FormatInt [simp]: "NL \<notin> set (FormatInt n)"
  by simp

lemma ParseInt_null: "ParseInt ''-1'' = (-1, None)"
proof -
  have "FormatInt (-1) = ''-1''" by code_simp
  then show ?thesis using ParseInt_FormatInt [of "-1"] by (simp add: in_i64_def)
qed

lemma readBulk_print:
  assumes "int (length s) + 2 \<le> maxAlloc"
  shows "readBulk (int (length s)) (s @ CRLF @ r) = RdOk (Resp (CHR ''$'') (Some s) 0 None) r"
proof -
  have "i64 (int (length s) + 2) = int (length s) + 2" using assms by (simp add: i64_id in_i64_def)
  then show ?thesis using assms by (simp add: readBulk_def makePanics_def CRLF_def Let_def nat_add_distrib)
qed

lemma readElems_print:
  assumes "\<And>x r. x \<in> set xs \<Longrightarrow> f (p x @ r) = RdOk x r"
  shows "readElems f (length xs) (concat (map p xs) @ r) = RdOk xs r"
  using assms by (induction xs) simp_all

lemma readRespAt_print:
  "resp_ok x \<Longrightarrow> length (printResp x) \<le> k \<Longrightarrow> readRespAt k (printResp x @ r) = RdOk x r"
proof (induction x arbitrary: k r)
  case (Resp kd s n a)
  have "printResp (Resp kd s n a) \<noteq> []" by (auto split: option.split)
  then obtain j where k: "k = Suc j" using Resp(3) by (cases k) auto
  from Resp(2) consider "kd = CHR ''+'' \<or> kd = CHR ''-''" | "kd = CHR '':''" | "kd = CHR ''$''" | "kd = CHR ''*''" by auto
  then show ?case
  proof cases
    case 1
    then show ?thesis using Resp(2) by (auto simp: k readLine_CRLF)
  next
    case 2
    then show ?thesis using Resp(2) by (auto simp: k readLine_CRLF ParseInt_FormatInt)
  next
    case 3
    show ?thesis
    proof (cases s)
      case None
      have "readLine (''-1'' @ CRLF @ r) = Some (''-1'', r)" by (rule readLine_CRLF) simp
      then show ?thesis using 3 None Resp(2) by (simp add: k ParseInt_null)
    next
      case (Some l)
      then show ?thesis
        using 3 Resp(2) readBulk_print [of l r] by (simp add: k readLine_CRLF ParseInt_FormatInt in_i64_def)
    qed
  next
    case 4
    show ?thesis
    proof (cases a)
      case None
      have "readLine (''-1'' @ CRLF @ r) = Some (''-1'', r)" by (rule readLine_CRLF) simp
      then show ?thesis using 4 None Resp(2) by (simp add: k ParseInt_null)
    next
      case (Some xs)
      have ok: "list_all resp_ok xs" "64 * int (length xs) \<le> maxAlloc" "s = None" "n = 0" using 4 Some Resp(2) by auto
      have "length (concat (map printResp xs)) < k" using 4 Some Resp(3) by (simp add: k)
      moreover have "length (printResp x) \<le> length (concat (map printResp xs))" if "x \<in> set xs" for x
        using that by (induction xs) auto
      ultimately have "readRespAt j (printResp x @ r) = RdOk x r" if "x \<in> set xs" for x r
        using that ok(1) k Some by (intro Resp(1) [of xs]) (force simp: list_all_iff)+
      then have "readElems (readRespAt j) (length xs) (concat (map printResp xs) @ r) = RdOk xs r"
        by (rule readElems_print)
      then show ?thesis
        using 4 Some ok by (simp add: k readLine_CRLF ParseInt_FormatInt in_i64_def makePanics_def)
    qed
  qed
qed

lemma readResp_print: "resp_ok x \<Longrightarrow> readResp (printResp x @ r) = RdOk x r"
  unfolding readResp_def by (rule readRespAt_print) simp_all

section \<open>Commands and pipelines\<close>

definition bulk :: "bytes \<Rightarrow> Resp" where
  "bulk s = Resp (CHR ''$'') (Some s) 0 None"

definition cmdResp :: "bytes list \<Rightarrow> Resp" where
  "cmdResp args = Resp (CHR ''*'') None 0 (Some (map bulk args))"

definition args_ok :: "bytes list \<Rightarrow> bool" where
  "args_ok args \<longleftrightarrow> 64 * int (length args) \<le> maxAlloc \<and> (\<forall>a \<in> set args. int (length a) + 2 \<le> maxAlloc)"

lemma resp_ok_cmd: "args_ok args \<Longrightarrow> resp_ok (cmdResp args)"
  by (auto simp: args_ok_def cmdResp_def bulk_def list_all_iff)

lemma fold_appendArg: "fold (\<lambda>a buf. appendArg buf a) args buf = buf @ concat (map (\<lambda>a. printResp (bulk a)) args)"
  by (induction args arbitrary: buf) (simp_all add: appendArg_def bulk_def)

lemma appendCmd_print: "appendCmd buf args = buf @ printResp (cmdResp args)"
  by (simp add: appendCmd_def fold_appendArg cmdResp_def comp_def)

lemma fold_appendCmd: "fold (\<lambda>args buf. appendCmd buf args) cmds buf = buf @ concat (map (\<lambda>c. printResp (cmdResp c)) cmds)"
  by (induction cmds arbitrary: buf) (simp_all add: appendCmd_print)

text \<open>C39. RESP round-trips both ways: whatever well-formed reply a server prints, null and nested ones included,
  the reader returns it and leaves the bytes behind it unread; and what the client prints for a
  command with arbitrary binary arguments reads back as exactly those arguments.\<close>

theorem resp_roundtrip:
  assumes "resp_ok x" and "args_ok args"
  shows "readResp (printResp x @ r) = RdOk x r \<and> readResp (appendCmd [] args @ r) = RdOk (cmdResp args) r"
  using readResp_print [OF assms(1)] readResp_print [OF resp_ok_cmd [OF assms(2)]] by (simp add: appendCmd_print)

theorem resp_roundtrip_witness:
  "readResp (printResp (Resp (CHR ''*'') None 0 (Some [bulk ''a b'', Resp (CHR ''$'') None 0 None])) @ ''rest'')
     = RdOk (Resp (CHR ''*'') None 0 (Some [bulk ''a b'', Resp (CHR ''$'') None 0 None])) ''rest''
   \<and> readResp (appendCmd [] [''GET'', [CR, NL]] @ ''rest'') = RdOk (cmdResp [''GET'', [CR, NL]]) ''rest''"
proof -
  have x: "resp_ok (Resp (CHR ''*'') None 0 (Some [bulk ''a b'', Resp (CHR ''$'') None 0 None]))" and c: "args_ok [''GET'', [CR, NL]]"
    by (simp_all add: bulk_def args_ok_def)
  show ?thesis by (rule resp_roundtrip [OF x c])
qed

text \<open>A server that answers each command of a pipeline in order.\<close>

fun serveAll :: "(bytes list \<Rightarrow> 'd \<Rightarrow> Resp \<times> 'd) \<Rightarrow> bytes list list \<Rightarrow> 'd \<Rightarrow> Resp list \<times> 'd" where
  "serveAll serve [] d = ([], d)"
| "serveAll serve (c # cs) d =
     (let (r, d) = serve c d; (rs, d) = serveAll serve cs d in (r # rs, d))"

definition serves :: "'d net \<Rightarrow> (bytes list \<Rightarrow> 'd \<Rightarrow> Resp \<times> 'd) \<Rightarrow> bool" where
  "serves net serve \<longleftrightarrow>
     (\<forall>cmds d. list_all args_ok cmds
        \<longrightarrow> net (concat (map (\<lambda>c. printResp (cmdResp c)) cmds)) d
            = Some (concat (map printResp (fst (serveAll serve cmds d))), snd (serveAll serve cmds d)))
     \<and> (\<forall>c d. resp_ok (fst (serve c d)))"

lemma length_serveAll [simp]: "length (fst (serveAll serve cmds d)) = length cmds"
proof (induction cmds arbitrary: d)
  case (Cons c cs)
  obtain r d1 rs d2 where e: "serve c d = (r, d1)" "serveAll serve cs d1 = (rs, d2)" by (meson surj_pair)
  then show ?case using Cons [of d1] by simp
qed simp

lemma serveAll_ok: "(\<And>c d. resp_ok (fst (serve c d))) \<Longrightarrow> x \<in> set (fst (serveAll serve cmds d)) \<Longrightarrow> resp_ok x"
proof (induction cmds arbitrary: d)
  case (Cons c cs)
  obtain r d1 rs d2 where e: "serve c d = (r, d1)" "serveAll serve cs d1 = (rs, d2)" by (meson surj_pair)
  then show ?case using Cons(1) [OF Cons(2), of d1] Cons(2) [of c d] Cons(3) by auto
qed simp

lemma pipe_serves:
  assumes "serves net serve" and "list_all args_ok cmds"
  shows "pipe net cmds d = Some (Inr (fst (serveAll serve cmds d)), snd (serveAll serve cmds d))"
proof -
  have "readElems readResp (length (fst (serveAll serve cmds d))) (concat (map printResp (fst (serveAll serve cmds d))) @ [])
      = RdOk (fst (serveAll serve cmds d)) []"
    by (rule readElems_print) (use assms serveAll_ok [of serve] readResp_print in \<open>auto simp: serves_def\<close>)
  then show ?thesis using assms by (simp add: pipe_def fold_appendCmd serves_def)
qed

lemma kvCmd_serves:
  assumes "serves net serve" and "args_ok args"
  shows "kvCmd net args d = Some (Inr (fst (serve args d)), snd (serve args d))"
  using pipe_serves [OF assms(1), of "[args]" d] assms(2) by (simp add: kvCmd_def Let_def split: prod.splits)

text \<open>Pipelining is transparent: over a server that answers a pipeline command by command, \<open>pipe\<close> returns
  exactly the server's replies, in the order of the commands, whatever bytes they carry, and a single
  command returns its own reply.\<close>

theorem pipe_replies:
  assumes "serves net serve" and "list_all args_ok cmds" and "args_ok args"
  shows "pipe net cmds d = Some (Inr (fst (serveAll serve cmds d)), snd (serveAll serve cmds d))
         \<and> length (fst (serveAll serve cmds d)) = length cmds
         \<and> kvCmd net args d = Some (Inr (fst (serve args d)), snd (serve args d))"
  using pipe_serves [OF assms(1,2)] kvCmd_serves [OF assms(1,3)] by simp

text \<open>A concrete server: it reads the request with the same grammar and answers command by command.\<close>

fun serveBytes :: "nat \<Rightarrow> (bytes list \<Rightarrow> 'd \<Rightarrow> Resp \<times> 'd) \<Rightarrow> bytes \<Rightarrow> 'd \<Rightarrow> bytes \<times> 'd" where
  "serveBytes 0 serve buf d = ([], d)"
| "serveBytes (Suc k) serve buf d =
     (case readResp buf of
        RdOk x rest \<Rightarrow>
          (let (r, d) = serve (map strOf (arrOf x)) d; (out, d) = serveBytes k serve rest d in (printResp r @ out, d))
      | _ \<Rightarrow> ([], d))"

definition netOf :: "(bytes list \<Rightarrow> 'd \<Rightarrow> Resp \<times> 'd) \<Rightarrow> 'd net" where
  "netOf serve buf d = Some (serveBytes (Suc (length buf)) serve buf d)"

lemma args_cmdResp [simp]: "map strOf (arrOf (cmdResp c)) = c"
  by (simp add: cmdResp_def arrOf_def strOf_def bulk_def comp_def)

lemma printResp_not_Nil [simp]: "printResp x \<noteq> []"
  by (cases x) (auto split: option.split)

lemma serveBytes_print:
  assumes "list_all args_ok cmds" and "length (concat (map (\<lambda>c. printResp (cmdResp c)) cmds)) < k"
  shows "serveBytes k serve (concat (map (\<lambda>c. printResp (cmdResp c)) cmds)) d
         = (concat (map printResp (fst (serveAll serve cmds d))), snd (serveAll serve cmds d))"
  using assms
proof (induction cmds arbitrary: k d)
  case Nil
  then obtain j where "k = Suc j" by (cases k) simp_all
  then show ?case by (simp add: readResp_def)
next
  case (Cons c cs)
  then obtain j where k: "k = Suc j" by (cases k) simp_all
  obtain r d1 where s: "serve c d = (r, d1)" by fastforce
  have "0 < length (printResp (cmdResp c))" by simp
  then have "length (concat (map (\<lambda>c. printResp (cmdResp c)) cs)) < j" using Cons(3) k by (simp del: length_greater_0_conv)
  note ih = Cons(1) [OF _ this, of d1]
  have "readResp (printResp (cmdResp c) @ concat (map (\<lambda>c. printResp (cmdResp c)) cs))
      = RdOk (cmdResp c) (concat (map (\<lambda>c. printResp (cmdResp c)) cs))"
    using Cons(2) by (intro readResp_print resp_ok_cmd) simp
  then show ?case using ih Cons(2) s by (simp add: k Let_def split: prod.split)
qed

lemma serves_netOf: "(\<And>c d. resp_ok (fst (serve c d))) \<Longrightarrow> serves (netOf serve) serve"
  unfolding serves_def netOf_def using serveBytes_print by fastforce

text \<open>A server that answers with the number of arguments and counts the commands.\<close>

definition countServer :: "bytes list \<Rightarrow> nat \<Rightarrow> Resp \<times> nat" where
  "countServer c d = (Resp (CHR '':'') None (i64 (int (length c))) None, Suc d)"

theorem pipe_replies_witness:
  "pipe (netOf countServer) [[''GET'', ''k''], [''PING'']] 0
   = Some (Inr [Resp (CHR '':'') None 2 None, Resp (CHR '':'') None 1 None], 2)"
proof -
  have s: "serves (netOf countServer) countServer" by (rule serves_netOf) (simp add: countServer_def)
  have a: "list_all args_ok [[''GET'', ''k''], [''PING'']]" "args_ok [''PING'']" by (simp_all add: args_ok_def)
  show ?thesis using pipe_replies [OF s a, of 0] by (simp add: countServer_def i64_id in_i64_def)
qed

end
