(* ===== verification/KvStore.thy ===== *)
theory KvStore
  imports Resp Api
begin

text \<open>
  The engine \<open>KvStore\<close> of \<open>internal/store/kvstore.go\<close> over an external RESP server, in both key layouts (one
  key per link, or fields of bucket hashes). The server is the parameter \<open>net\<close> of theory \<open>Resp\<close>; its
  state is threaded through the engine's. \<open>None\<close> is a panic of the reply reader, or the end of the
  random bytes or round trips supplied to a loop.
\<close>

record 'd KvStore =
  ks_d :: 'd
  ks_cache :: kvCache
  ks_dirty :: hitTable
  ks_instance :: int
  ks_prefix :: char
  ks_layoutHash :: bool
  ks_buckets :: nat
  ks_stopped :: bool
  ks_counters :: Metrics

record kv_env =
  kRt :: gort
  kTrack :: bool
  kClk :: "nat \<Rightarrow> int"
  kUs :: int
  kDraws :: "bytes list"
  kManyDraws :: "nat \<Rightarrow> bytes"
  kRetryClk :: "nat \<Rightarrow> nat \<Rightarrow> int"
  kRetryDraws :: "nat \<Rightarrow> bytes list"
  kFuel :: nat

section \<open>Opening\<close>

definition NewKV ::
  "'d net \<Rightarrow> (bytes \<Rightarrow> bytes) \<Rightarrow> int \<Rightarrow> int \<Rightarrow> int \<Rightarrow> int \<Rightarrow> 'd \<Rightarrow> 'd KvStore option option" where
  "NewKV net getenv inst cacheEntries cacheTTLMs now d =
     map_option (\<lambda>(dialled, d).
       if \<not> dialled then None
       else
         let inst = (if inst < 0 then 0 else inst);
             inst = (if int maxInstances \<le> inst then int maxInstances - 1 else inst);
             capShard = cacheEntries sdiv int numShards;
             capShard = (if capShard < 16 then 16 else capShard);
             v = getenv ''KV_BUCKETS'';
             buckets = (if v \<noteq> [] then (case ParseUint v 10 32 of
                                        (n, None) \<Rightarrow> if 0 < n then n else 1000000
                                      | _ \<Rightarrow> 1000000)
                        else 1000000)
         in Some \<lparr>ks_d = d, ks_cache = (newKvCache cacheEntries cacheTTLMs)\<lparr>cc_cap := capShard\<rparr>,
                  ks_dirty = (\<lambda>_. fmempty), ks_instance = inst, ks_prefix = ALPHABET ! nat inst,
                  ks_layoutHash = (getenv ''KV_LAYOUT'' = ''hash''), ks_buckets = buckets,
                  ks_stopped = False, ks_counters = initMetrics now\<rparr>)
       (kvDial net d)"

section \<open>Keys\<close>

definition hfield :: "bytes \<Rightarrow> bytes" where
  "hfield code = ''h:'' @ code"

definition lkey :: "bytes \<Rightarrow> bytes" where
  "lkey code = ''l:'' @ code"

definition hkey :: "bytes \<Rightarrow> bytes" where
  "hkey code = ''h:'' @ code"

definition bkey :: "'d KvStore \<Rightarrow> bytes \<Rightarrow> bytes" where
  "bkey s code = ''l:'' @ fmt_nat (shardOf code mod ks_buckets s)"

definition kvRandCode :: "bytes \<Rightarrow> 'd KvStore \<Rightarrow> bytes" where
  "kvRandCode r s = ks_prefix s # randSuffix r"

section \<open>Counters and server calls\<close>

definition ksCount :: "(Metrics \<Rightarrow> Metrics) \<Rightarrow> 'd KvStore \<Rightarrow> 'd KvStore" where
  "ksCount f s = s\<lparr>ks_counters := f (ks_counters s)\<rparr>"

definition kvBump :: "bool \<Rightarrow> bytes \<Rightarrow> 'd KvStore \<Rightarrow> 'd KvStore" where
  "kvBump track code s = (if track then s\<lparr>ks_dirty := bumpHit code (ks_dirty s)\<rparr> else s)"

definition call :: "('d \<Rightarrow> ('r \<times> 'd) option) \<Rightarrow> 'd KvStore \<Rightarrow> ('r \<times> 'd KvStore) option" where
  "call f s = map_option (\<lambda>(r, d). (r, s\<lparr>ks_d := d\<rparr>)) (f (ks_d s))"

definition kvGet :: "'d net \<Rightarrow> bytes \<Rightarrow> 'd KvStore \<Rightarrow> ((kv_error + bytes option) \<times> 'd KvStore) option" where
  "kvGet net code s =
     (if ks_layoutHash s then call (kvHget net (bkey s code) code) s else call (kvGetKey net (lkey code)) s)"

section \<open>Flushing hits and sweeping\<close>

definition hashDeltas :: "gort \<Rightarrow> 'd KvStore \<Rightarrow> hincr list" where
  "hashDeltas g s =
     concat (map (\<lambda>i. concat (map (\<lambda>c. case fmlookup (ks_dirty s i) c of
                                         None \<Rightarrow> []
                                       | Some n \<Rightarrow> [\<lparr>hi_key = bkey s c, hi_field = hfield c, hi_n = n\<rparr>])
                               (ordDirty g (ks_dirty s i)))) [0..<numShards])"

definition keyDeltas :: "gort \<Rightarrow> 'd KvStore \<Rightarrow> (bytes, int) gomap" where
  "keyDeltas g s =
     fold (\<lambda>i m. fold (\<lambda>c m. case fmlookup (ks_dirty s i) c of
                               None \<Rightarrow> m
                             | Some n \<Rightarrow>
                                 fmupd (hkey c) (i64 ((case fmlookup m (hkey c) of None \<Rightarrow> 0 | Some x \<Rightarrow> x) + n)) m)
                    (ordDirty g (ks_dirty s i)) m) [0..<numShards] fmempty"

definition kvFlushHits :: "'d net \<Rightarrow> gort \<Rightarrow> 'd KvStore \<Rightarrow> (kv_error option \<times> 'd KvStore) option" where
  "kvFlushHits net g s =
     (let cleared = s\<lparr>ks_dirty := (\<lambda>_. fmempty)\<rparr>
      in if ks_layoutHash s then call (kvHIncrByMany net (hashDeltas g s)) cleared
         else
           let deltas = keyDeltas g s
           in call (kvIncrByMany net (map (\<lambda>k. (k, case fmlookup deltas k of None \<Rightarrow> 0 | Some n \<Rightarrow> n))
                                        (ordDirty g deltas))) cleared)"

text \<open>The fields of one bucket whose embedded expiry has passed.\<close>

definition deadFields :: "int \<Rightarrow> (bytes \<times> bytes) list \<Rightarrow> bytes list" where
  "deadFields now items =
     map fst (filter (\<lambda>(f, v). \<not> (2 \<le> length f \<and> f ! 0 = CHR ''h'' \<and> f ! 1 = CHR '':'')
                               \<and> (case decVal v of None \<Rightarrow> False | Some (e, _, _) \<Rightarrow> e \<noteq> 0 \<and> e \<le> now)) items)"

definition kvSweepExpired :: "nat \<Rightarrow> 'd net \<Rightarrow> int \<Rightarrow> 'd KvStore \<Rightarrow> (kv_error option \<times> 'd KvStore) option" where
  "kvSweepExpired fuel net now s =
     Option.bind (ScanEach fuel net ''l:*'' (ks_d s)) (\<lambda>(err, buckets, d).
       case err of
         Some e \<Rightarrow> Some (Some e, s\<lparr>ks_d := d\<rparr>)
       | None \<Rightarrow>
           Option.bind (foldOpt (\<lambda>b (dels, d).
               map_option (\<lambda>(_, items, d). (dels @ map (\<lambda>f. [''HDEL'', b, f]) (deadFields now items), d))
                 (HScanEach fuel net b d)) buckets ([], d)) (\<lambda>(dels, d).
             if dels = [] then Some (None, s\<lparr>ks_d := d\<rparr>)
             else map_option (\<lambda>(r, d). (case r of Inl e \<Rightarrow> Some e | Inr _ \<Rightarrow> None, s\<lparr>ks_d := d\<rparr>))
                    (pipe net dels d)))"

section \<open>Resolve and Shorten\<close>

definition kvResolve :: "'d net \<Rightarrow> kv_env \<Rightarrow> bytes \<Rightarrow> 'd KvStore \<Rightarrow> (bytes option \<times> 'd KvStore) option" where
  "kvResolve net env code s =
     (case cacheGet (kClk env 0) code (ks_cache s) of
        (Some (u, _), c) \<Rightarrow> Some (Some u, kvBump (kTrack env) code (ksCount CacheHit (s\<lparr>ks_cache := c\<rparr>)))
      | (None, c) \<Rightarrow>
          map_option
            (\<lambda>(v, s).
               let s = ksCount (StoreRead (kUs env)) s
               in case v of
                    Inl _ \<Rightarrow> (None, s)
                  | Inr None \<Rightarrow> (None, s)
                  | Inr (Some v) \<Rightarrow>
                      (case decVal v of
                         None \<Rightarrow> (None, s)
                       | Some (e, _, u) \<Rightarrow>
                           if e \<noteq> 0 \<and> e \<le> kClk env 1 then (None, s)
                           else (Some u, kvBump (kTrack env) code
                                   (s\<lparr>ks_cache := cachePut (kClk env 2) code u e (ks_cache s)\<rparr>))))
            (kvGet net code (ksCount CacheMiss (s\<lparr>ks_cache := c\<rparr>))))"

text \<open>The closure \<open>putNX\<close> of \<open>Shorten\<close>.\<close>

definition putNX ::
  "'d net \<Rightarrow> int \<Rightarrow> int \<Rightarrow> bytes \<Rightarrow> int \<Rightarrow> bytes \<Rightarrow> 'd KvStore \<Rightarrow> ((kv_error + bool) \<times> 'd KvStore) option" where
  "putNX net exp now url ttlMs code s =
     (if ks_layoutHash s then call (kvHsetnx net (bkey s code) code (encVal exp now url)) s
      else call (kvSetKey net (lkey code) (encVal exp now url) ttlMs True) s)"

fun kvFresh ::
  "'d net \<Rightarrow> int \<Rightarrow> int \<Rightarrow> bytes \<Rightarrow> int \<Rightarrow> bytes list \<Rightarrow> 'd KvStore \<Rightarrow> (bytes \<times> 'd KvStore) option" where
  "kvFresh net exp now url ttlMs [] s = None"
| "kvFresh net exp now url ttlMs (r # rs) s =
     (let code = kvRandCode r s
      in Option.bind (putNX net exp now url ttlMs code s) (\<lambda>(res, s).
           case res of
             Inl _ \<Rightarrow> Some ([], s)
           | Inr ok \<Rightarrow> if ok then Some (code, s) else kvFresh net exp now url ttlMs rs s))"

definition kvShorten ::
  "'d net \<Rightarrow> (nat \<Rightarrow> int) \<Rightarrow> bytes list \<Rightarrow> bytes \<Rightarrow> bytes \<Rightarrow> bool \<Rightarrow> int \<Rightarrow> 'd KvStore \<Rightarrow> (bytes \<times> 'd KvStore) option" where
  "kvShorten net clk draws url al hasAlias ttlMs s =
     (let s = ksCount StoreWrite s; now = clk 0; exp = expiry now ttlMs
      in if hasAlias then
           map_option (\<lambda>(res, s). (case res of Inl _ \<Rightarrow> [] | Inr ok \<Rightarrow> if ok then al else [], s))
             (putNX net exp now url ttlMs al s)
         else kvFresh net exp now url ttlMs draws s)"

definition bulkArgs :: "int \<Rightarrow> int \<Rightarrow> int \<Rightarrow> 'd KvStore \<Rightarrow> bytes \<Rightarrow> bytes \<Rightarrow> bytes list" where
  "bulkArgs exp now ttlMs s c u =
     (if ks_layoutHash s then [''HSETNX'', bkey s c, c, encVal exp now u]
      else [''SET'', lkey c, encVal exp now u]
           @ (if 0 < ttlMs then [''PX'', FormatInt ttlMs] else []) @ [''NX''])"

definition bulkStored :: "'d KvStore \<Rightarrow> Resp \<Rightarrow> bool" where
  "bulkStored s r \<longleftrightarrow>
     (if ks_layoutHash s then rKind r = CHR '':'' \<and> rInt r = 1 else rKind r = CHR ''+'' \<and> rStr r = Some ''OK'')"

definition kvShortenMany ::
  "'d net \<Rightarrow> kv_env \<Rightarrow> bytes list \<Rightarrow> int \<Rightarrow> 'd KvStore \<Rightarrow> (bytes list \<times> 'd KvStore) option" where
  "kvShortenMany net env urls ttlMs s =
     (let now = kClk env 0; exp = expiry now ttlMs; n = length urls;
          codes = map (\<lambda>i. kvRandCode (kManyDraws env i) s) [0..<n];
          cmds = map (\<lambda>i. bulkArgs exp now ttlMs s (codes ! i) (urls ! i)) [0..<n]
      in Option.bind (call (pipe net cmds) s) (\<lambda>(res, s).
           let retry = (case res of
                          Inl _ \<Rightarrow> [0..<n]
                        | Inr rs \<Rightarrow> filter (\<lambda>i. \<not> bulkStored s (rs ! i)) [0..<length rs])
           in foldOpt (\<lambda>i (codes, s).
                map_option (\<lambda>(c, s). (codes[i := c], s))
                  (kvShorten net (kRetryClk env i) (kRetryDraws env i) (urls ! i) [] False ttlMs s)) retry (codes, s)))"

section \<open>Update and Remove\<close>

definition kvUpdate ::
  "'d net \<Rightarrow> (nat \<Rightarrow> int) \<Rightarrow> bytes \<Rightarrow> bytes \<Rightarrow> int \<Rightarrow> bool \<Rightarrow> 'd KvStore \<Rightarrow> (MutResult \<times> 'd KvStore) option" where
  "kvUpdate net clk code url ttlMs hasTTL s =
     Option.bind (kvGet net code s) (\<lambda>(v, s).
       case v of
         Inl _ \<Rightarrow> Some (MutMissing, s)
       | Inr None \<Rightarrow> Some (MutMissing, s)
       | Inr (Some v) \<Rightarrow>
           (case decVal v of
              None \<Rightarrow> Some (MutMissing, s)
            | Some (e, c, _) \<Rightarrow>
                let exp = (if hasTTL then (if 0 < ttlMs then i64 (clk 0 + ttlMs) else 0) else e);
                    px = (if 0 < exp then i64 (exp - clk 1) else 0)
                in map_option
                     (\<lambda>(stored, s). if stored then (MutOK, s\<lparr>ks_cache := cacheRemove code (ks_cache s)\<rparr>) else (MutMissing, s))
                     (if ks_layoutHash s
                      then map_option (\<lambda>(err, s). (err = None, s)) (call (kvHset net (bkey s code) code (encVal exp c url)) s)
                      else map_option (\<lambda>(r, s). (r = Inr True, s))
                             (call (kvSetKey net (lkey code) (encVal exp c url) px False) s))))"

definition kvRemove :: "'d net \<Rightarrow> bytes \<Rightarrow> 'd KvStore \<Rightarrow> (MutResult \<times> 'd KvStore) option" where
  "kvRemove net code s =
     (let del = (\<lambda>k. if ks_layoutHash s then kvHdel net (bkey s code) k else kvDel net k);
          link = (if ks_layoutHash s then code else lkey code);
          hits = (if ks_layoutHash s then hfield code else hkey code)
      in Option.bind (call (del link) s) (\<lambda>(r, s).
           case r of
             Inl _ \<Rightarrow> Some (MutMissing, s)
           | Inr n \<Rightarrow>
               if n = 0 then Some (MutMissing, s)
               else map_option (\<lambda>(_, s). (MutOK, s\<lparr>ks_cache := cacheRemove code (ks_cache s)\<rparr>)) (call (del hits) s)))"

section \<open>List and Stats\<close>

definition kvLink :: "bytes \<Rightarrow> bytes \<Rightarrow> int \<Rightarrow> int \<Rightarrow> int \<Rightarrow> Link" where
  "kvLink code u hits c e =
     \<lparr>l_Code = code, l_URL = u, l_Hits = hits, l_CreatedAt = c, l_ExpiresAt = (if e \<noteq> 0 then Some e else None)\<rparr>"

text \<open>The insertion sort by hits: the sorted prefix is kept nearest element first.\<close>

fun sinkHits :: "Link \<Rightarrow> Link list \<Rightarrow> Link list" where
  "sinkHits x [] = [x]"
| "sinkHits x (y # ys) = (if l_Hits y < l_Hits x then y # sinkHits x ys else x # y # ys)"

definition sortHits :: "Link list \<Rightarrow> Link list" where
  "sortHits items = rev (fold sinkHits items [])"

definition skipQuery :: "bytes \<Rightarrow> bytes \<Rightarrow> bytes \<Rightarrow> bool" where
  "skipQuery q code u \<longleftrightarrow> q \<noteq> [] \<and> \<not> Contains code q \<and> \<not> Contains u q"

definition listItem :: "bytes \<Rightarrow> Resp list \<Rightarrow> nat \<Rightarrow> bytes \<Rightarrow> Link list" where
  "listItem q rs i k =
     (let code = drop 2 k
      in if length rs \<le> 2 * i \<or> IsNull (rs ! (2 * i)) then []
         else case decVal (strOf (rs ! (2 * i))) of
                None \<Rightarrow> []
              | Some (e, c, u) \<Rightarrow>
                  if skipQuery q code u then []
                  else [kvLink code u (if 2 * i + 1 < length rs \<and> \<not> IsNull (rs ! (2 * i + 1))
                                       then fst (ParseInt (strOf (rs ! (2 * i + 1)))) else 0) c e])"

definition listHash ::
  "nat \<Rightarrow> 'd net \<Rightarrow> int \<Rightarrow> int \<Rightarrow> int \<Rightarrow> bytes \<Rightarrow> bytes \<Rightarrow> bytes list \<Rightarrow> 'd \<Rightarrow> (Link list \<times> int) option" where
  "listHash fuel net now limit offset sortBy q buckets d =
     Option.bind (foldOpt (\<lambda>b (seen, d). map_option (\<lambda>(_, items, d). (seen @ items, d)) (HScanEach fuel net b d))
                   buckets ([], d)) (\<lambda>(seen, _).
       let hits = fold (\<lambda>(f, v) m. if HasPrefix f ''h:'' then m(drop 2 f := fst (ParseInt v)) else m) seen (\<lambda>_. 0);
           items = concat (map (\<lambda>(f, v).
                     if HasPrefix f ''h:'' then []
                     else case decVal v of
                            None \<Rightarrow> []
                          | Some (e, c, u) \<Rightarrow>
                              if e \<noteq> 0 \<and> e \<le> now \<or> skipQuery q f u then [] else [kvLink f u (hits f) c e]) seen)
       in pageOf limit offset (if sortBy = ''hits'' then sortHits items else items))"

definition kvList ::
  "nat \<Rightarrow> 'd net \<Rightarrow> int \<Rightarrow> int \<Rightarrow> int \<Rightarrow> bytes \<Rightarrow> bytes \<Rightarrow> 'd KvStore \<Rightarrow> (Link list \<times> int) option" where
  "kvList fuel net now limit offset sortBy q s =
     Option.bind (ScanEach fuel net ''l:*'' (ks_d s)) (\<lambda>(_, keys, d).
       if ks_layoutHash s then listHash fuel net now limit offset sortBy q keys d
       else if \<not> list_all (\<lambda>k. 2 \<le> length k) keys then None
       else
         Option.bind (pipe net (concat (map (\<lambda>k. [[''GET'', k], [''GET'', hkey (drop 2 k)]]) keys)) d) (\<lambda>(r, _).
           let rs = (case r of Inl _ \<Rightarrow> [] | Inr rs \<Rightarrow> rs);
               items = concat (map (\<lambda>i. listItem q rs i (keys ! i)) [0..<length keys])
           in pageOf limit offset (if sortBy = ''hits'' then sortHits items else items)))"

definition kvStats :: "'d net \<Rightarrow> bytes \<Rightarrow> 'd KvStore \<Rightarrow> Link option option" where
  "kvStats net code s =
     Option.bind (kvGet net code s) (\<lambda>(v, s).
       case v of
         Inl _ \<Rightarrow> Some None
       | Inr None \<Rightarrow> Some None
       | Inr (Some v) \<Rightarrow>
           (case decVal v of
              None \<Rightarrow> Some None
            | Some (e, c, u) \<Rightarrow>
                map_option (\<lambda>(hv, s).
                  let stored = (case hv of Inr (Some h) \<Rightarrow> fst (ParseInt h) | _ \<Rightarrow> 0)
                  in Some (kvLink code u (i64 (stored + pendingHits code (ks_dirty s))) c e))
                  (if ks_layoutHash s then call (kvHget net (bkey s code) (hfield code)) s
                   else call (kvGetKey net (hkey code)) s)))"

section \<open>The rest\<close>

definition kvSeed :: "'d net \<Rightarrow> kv_env \<Rightarrow> bytes list \<Rightarrow> 'd KvStore \<Rightarrow> (nat \<times> 'd KvStore) option" where
  "kvSeed net env urls s =
     Option.bind (kvShortenMany net env urls 0 s) (\<lambda>(_, s).
       map_option (\<lambda>(_, s). (length urls, s)) (kvFlushHits net (kRt env) s))"

definition kvHealthy :: "'d net \<Rightarrow> 'd KvStore \<Rightarrow> bool option" where
  "kvHealthy net s =
     map_option (\<lambda>(r, _). case r of Inl _ \<Rightarrow> False | Inr r \<Rightarrow> rKind r = CHR ''+'' \<and> rStr r = Some ''PONG'')
       (kvCmd net [''PING''] (ks_d s))"

definition kvIsEmpty :: "nat \<Rightarrow> 'd net \<Rightarrow> 'd KvStore \<Rightarrow> bool option" where
  "kvIsEmpty fuel net s = map_option (\<lambda>(_, keys, _). keys = []) (ScanEach fuel net ''l:*'' (ks_d s))"

definition kvClose :: "'d net \<Rightarrow> gort \<Rightarrow> 'd KvStore \<Rightarrow> 'd KvStore option" where
  "kvClose net g s = map_option snd (kvFlushHits net g (s\<lparr>ks_stopped := True\<rparr>))"

text \<open>The instance of the interface. Observers drop the state of the server, which they do not change.\<close>

definition kvAPI :: "'d net \<Rightarrow> kv_env \<Rightarrow> 'd KvStore API" where
  "kvAPI net env =
     \<lparr>apiShorten = (\<lambda>url al hasAlias ttl s. kvShorten net (kClk env) (kDraws env) url al hasAlias ttl s),
      apiShortenMany = kvShortenMany net env,
      apiResolve = kvResolve net env,
      apiUpdate = (\<lambda>code url ttl hasTTL s. kvUpdate net (kClk env) code url ttl hasTTL s),
      apiRemove = kvRemove net,
      apiList = (\<lambda>limit offset sortBy q s. kvList (kFuel env) net (kClk env 0) limit offset sortBy q s),
      apiStats = kvStats net,
      apiSeed = kvSeed net env,
      apiIsEmpty = kvIsEmpty (kFuel env) net,
      apiHealthy = kvHealthy net,
      apiFlush = (\<lambda>s. map_option snd (kvFlushHits net (kRt env) s)),
      apiPollTails = Some,
      apiCompact = (\<lambda>s. s),
      apiClose = kvClose net (kRt env),
      apiCounters = (\<lambda>s m. m\<lparr>cacheHit := cacheHit (ks_counters s), cacheMiss := cacheMiss (ks_counters s),
        storeReads := storeReads (ks_counters s), storeReadUS := storeReadUS (ks_counters s),
        storeWrites := storeWrites (ks_counters s)\<rparr>)\<rparr>"

end
