(* ===== verification/KvEngine.thy ===== *)
theory KvEngine
  imports KvStore
begin

text \<open>
  The engine over an external server keeps the contract of the store interface. What it relies on is
  stated in two steps: \<open>serves\<close> (theory \<open>Resp\<close>) says that the server answers a pipeline command by
  command, \<open>string_laws\<close> and \<open>hash_laws\<close> say what the commands of the two layouts do to the keys, for keys
  and values below the server's limit of 512 MB. The contract is that of an engine whose rows nobody else writes: the cache
  may then hold a link whose row is gone or was written again, but only one that has expired. What holds beside other
  writers is in theory \<open>KvRun\<close> and in the end-to-end theorem of theory \<open>Engines\<close>.
\<close>

section \<open>What the engine relies on\<close>

definition short :: "bytes \<Rightarrow> bool" where
  "short x \<longleftrightarrow> length x \<le> 2 ^ 29"

definition rowReply :: "bytes option \<Rightarrow> Resp" where
  "rowReply r = (case r of None \<Rightarrow> Resp (CHR ''$'') None 0 None | Some v \<Rightarrow> bulk v)"

definition okReply :: Resp where
  "okReply = Resp (CHR ''+'') (Some ''OK'') 0 None"

text \<open>\<open>SET\<close> writes the key, unless \<open>NX\<close> finds it taken; a lifetime so long that the time of expiry might not fit 64 bits
  may be answered with an error instead, and then nothing is written.\<close>

definition setEffect :: "('d \<Rightarrow> bytes \<Rightarrow> bytes option) \<Rightarrow> bytes \<Rightarrow> bytes \<Rightarrow> int \<Rightarrow> bool \<Rightarrow> 'd \<Rightarrow> Resp \<Rightarrow> 'd \<Rightarrow> bool" where
  "setEffect str k v px nx d r d' \<longleftrightarrow>
     (if nx \<and> str d k \<noteq> None then r = rowReply None \<and> str d' = str d else r = okReply \<and> str d' = (str d)(k \<mapsto> v))
     \<or> 2 ^ 62 < px \<and> rKind r = CHR ''-'' \<and> str d' = str d"

definition string_laws :: "(bytes list \<Rightarrow> 'd \<Rightarrow> Resp \<times> 'd) \<Rightarrow> ('d \<Rightarrow> bytes \<Rightarrow> bytes option) \<Rightarrow> bool" where
  "string_laws serve str \<longleftrightarrow>
     (\<forall>k d. short k \<longrightarrow> serve [''GET'', k] d = (rowReply (str d k), d))
     \<and> (\<forall>k v px nx d. short k \<longrightarrow> short v \<longrightarrow>
          (\<exists>r d'. serve (setArgs k v px nx) d = (r, d') \<and> setEffect str k v px nx d r d'))
     \<and> (\<forall>k d. short k \<longrightarrow>
          (\<exists>d'. serve [''DEL'', k] d = (Resp (CHR '':'') None (if str d k = None then 0 else 1) None, d')
              \<and> str d' = (str d)(k := None)))"

definition hash_laws :: "(bytes list \<Rightarrow> 'd \<Rightarrow> Resp \<times> 'd) \<Rightarrow> ('d \<Rightarrow> bytes \<times> bytes \<Rightarrow> bytes option) \<Rightarrow> bool" where
  "hash_laws serve fld \<longleftrightarrow>
     (\<forall>k f d. short k \<longrightarrow> short f \<longrightarrow> serve [''HGET'', k, f] d = (rowReply (fld d (k, f)), d))
     \<and> (\<forall>k f v d. short k \<longrightarrow> short f \<longrightarrow> short v \<longrightarrow>
          (\<exists>d'. serve [''HSETNX'', k, f, v] d = (Resp (CHR '':'') None (if fld d (k, f) \<noteq> None then 0 else 1) None, d')
              \<and> fld d' = (if fld d (k, f) \<noteq> None then fld d else (fld d)((k, f) \<mapsto> v))))
     \<and> (\<forall>k f v d. short k \<longrightarrow> short f \<longrightarrow> short v \<longrightarrow>
          (\<exists>r d'. serve [''HSET'', k, f, v] d = (r, d') \<and> fld d' = (fld d)((k, f) \<mapsto> v)))
     \<and> (\<forall>k f d. short k \<longrightarrow> short f \<longrightarrow>
          (\<exists>d'. serve [''HDEL'', k, f] d = (Resp (CHR '':'') None (if fld d (k, f) = None then 0 else 1) None, d')
              \<and> fld d' = (fld d)((k, f) := None)))"

text \<open>The server as the engine sees it: a cell per link, under the key and field of the layout.\<close>

record 'd server =
  sv_serve :: "bytes list \<Rightarrow> 'd \<Rightarrow> Resp \<times> 'd"
  sv_str :: "'d \<Rightarrow> bytes \<Rightarrow> bytes option"
  sv_fld :: "'d \<Rightarrow> bytes \<times> bytes \<Rightarrow> bytes option"

definition kv_laws :: "'d net \<Rightarrow> 'd server \<Rightarrow> 'd KvStore \<Rightarrow> bool" where
  "kv_laws net sv s \<longleftrightarrow>
     serves net (sv_serve sv)
     \<and> (if ks_layoutHash s then hash_laws (sv_serve sv) (sv_fld sv) else string_laws (sv_serve sv) (sv_str sv))"

definition cell :: "'d server \<Rightarrow> 'd KvStore \<Rightarrow> bytes \<Rightarrow> bytes option" where
  "cell sv s code = (if ks_layoutHash s then sv_fld sv (ks_d s) (bkey s code, code) else sv_str sv (ks_d s) (lkey code))"

lemma string_lawsD:
  assumes "string_laws serve str" and "short k"
  shows "serve [''GET'', k] d = (rowReply (str d k), d)"
    and "short v \<Longrightarrow> \<exists>r d'. serve (setArgs k v px nx) d = (r, d') \<and> setEffect str k v px nx d r d'"
    and "\<exists>d'. serve [''DEL'', k] d = (Resp (CHR '':'') None (if str d k = None then 0 else 1) None, d')
           \<and> str d' = (str d)(k := None)"
  using assms unfolding string_laws_def by (blast, blast, blast)

lemma hash_lawsD:
  assumes "hash_laws serve fld" and "short k" and "short f"
  shows "serve [''HGET'', k, f] d = (rowReply (fld d (k, f)), d)"
    and "short v \<Longrightarrow> \<exists>d'. serve [''HSETNX'', k, f, v] d = (Resp (CHR '':'') None (if fld d (k, f) \<noteq> None then 0 else 1) None, d')
           \<and> fld d' = (if fld d (k, f) \<noteq> None then fld d else (fld d)((k, f) \<mapsto> v))"
    and "short v \<Longrightarrow> \<exists>r d'. serve [''HSET'', k, f, v] d = (r, d') \<and> fld d' = (fld d)((k, f) \<mapsto> v)"
    and "\<exists>d'. serve [''HDEL'', k, f] d = (Resp (CHR '':'') None (if fld d (k, f) = None then 0 else 1) None, d')
           \<and> fld d' = (fld d)((k, f) := None)"
  using assms unfolding hash_laws_def by (blast, blast, blast, blast)

section \<open>Sizes\<close>

definition kvFitsCode :: "bytes \<Rightarrow> bool" where
  "kvFitsCode c \<longleftrightarrow> length c \<le> 2 ^ 28 \<and> \<not> HasPrefix c ''h:''"

definition kvFitsURL :: "bytes \<Rightarrow> bool" where
  "kvFitsURL u \<longleftrightarrow> length u \<le> 2 ^ 28"

lemma short_encVal:
  assumes "in_i64 e" and "in_i64 c" and "kvFitsURL u"
  shows "short (encVal e c u)"
  using length_FormatInt [OF assms(1)] length_FormatInt [OF assms(2)] assms(3)
  by (simp add: short_def encVal_def kvFitsURL_def)

lemma short_keys:
  assumes "kvFitsCode code"
  shows "short code" and "short (lkey code)" and "short (hkey code)" and "short (hfield code)" and "short (bkey s code)"
proof -
  have "shardOf code mod ks_buckets s \<le> shardOf code" by (rule mod_less_eq_dividend)
  also have "\<dots> < 10 ^ Suc 2" using shardOf_less [of code] by (simp add: numShards_def)
  finally have "shardOf code mod ks_buckets s < 10 ^ Suc 2" .
  then have "length (fmt_nat (shardOf code mod ks_buckets s)) \<le> Suc 2" by (rule length_fmt_nat)
  then show "short (bkey s code)" by (simp add: short_def bkey_def)
  show "short code" "short (lkey code)" "short (hkey code)" "short (hfield code)"
    using assms by (simp_all add: short_def lkey_def hkey_def hfield_def kvFitsCode_def)
qed

lemma args_ok_short: "length args \<le> 9 \<Longrightarrow> list_all short args \<Longrightarrow> args_ok args"
  by (auto simp: args_ok_def list_all_iff short_def)

lemma args_ok_set:
  assumes "short k" and "short v" and "in_i64 px"
  shows "args_ok (setArgs k v px nx)"
  using assms length_FormatInt [OF assms(3)] by (intro args_ok_short) (auto simp: setArgs_def short_def)

section \<open>The typed helpers over such a server\<close>

lemma kvCmd_short:
  "serves net serve \<Longrightarrow> list_all short args \<Longrightarrow> length args \<le> 9 \<Longrightarrow> kvCmd net args d = Some (Inr (fst (serve args d)), snd (serve args d))"
  by (rule kvCmd_serves) (simp_all add: args_ok_short)

text \<open>The reply to a command of known effect.\<close>

lemma kvCmd_reply:
  "serves net serve \<Longrightarrow> serve args d = (r, d') \<Longrightarrow> args_ok args \<Longrightarrow> kvCmd net args d = Some (Inr r, d')"
  using kvCmd_serves [of net serve args d] by simp

lemma rowReply_simps [simp]: "IsNull (rowReply None)" "\<not> IsNull (rowReply (Some v))" "rStr (rowReply (Some v)) = Some v"
  "\<not> isOK (rowReply r)" "isOK okReply"
  by (auto simp: rowReply_def IsNull_def bulk_def isOK_def okReply_def split: option.split)

lemma setEffect_cases:
  assumes "setEffect str k v px nx d r d'"
  shows "if isOK r then (nx \<longrightarrow> str d k = None) \<and> str d' = (str d)(k \<mapsto> v)
         else str d' = str d \<and> (px \<le> 2 ^ 62 \<longrightarrow> nx \<and> str d k \<noteq> None)"
  using assms by (auto simp: setEffect_def isOK_def okReply_def rowReply_def split: if_splits)

lemma verbs_short [simp]:
  "short ''GET''" "short ''DEL''" "short ''HGET''" "short ''HSETNX''" "short ''HSET''" "short ''HDEL''"
  by (simp_all add: short_def)

lemma kvGet_cell:
  assumes "kv_laws net sv s" and "kvFitsCode code"
  shows "kvGet net code s = Some (Inr (cell sv s code), s)"
proof (cases "ks_layoutHash s")
  case True
  then have l: "serves net (sv_serve sv)" "hash_laws (sv_serve sv) (sv_fld sv)" using assms(1) by (simp_all add: kv_laws_def)
  have "kvCmd net [''HGET'', bkey s code, code] (ks_d s) = Some (Inr (rowReply (sv_fld sv (ks_d s) (bkey s code, code))), ks_d s)"
    by (rule kvCmd_reply [OF l(1) hash_lawsD(1) [OF l(2)]]) (auto intro!: args_ok_short short_keys [OF assms(2)])
  then show ?thesis
    using True by (cases "sv_fld sv (ks_d s) (bkey s code, code)") (simp_all add: kvGet_def call_def kvHget_def cell_def)
next
  case False
  then have l: "serves net (sv_serve sv)" "string_laws (sv_serve sv) (sv_str sv)" using assms(1) by (simp_all add: kv_laws_def)
  have "kvCmd net [''GET'', lkey code] (ks_d s) = Some (Inr (rowReply (sv_str sv (ks_d s) (lkey code))), ks_d s)"
    by (rule kvCmd_reply [OF l(1) string_lawsD(1) [OF l(2)]]) (auto intro!: args_ok_short short_keys [OF assms(2)])
  then show ?thesis
    using False by (cases "sv_str sv (ks_d s) (lkey code)") (simp_all add: kvGet_def call_def kvGetKey_def cell_def)
qed

lemma cell_write:
  "ks_layoutHash s \<Longrightarrow> sv_fld sv d = (sv_fld sv (ks_d s))((bkey s code, code) := x)
   \<Longrightarrow> cell sv (s\<lparr>ks_d := d\<rparr>) = (cell sv s)(code := x)"
  "\<not> ks_layoutHash s \<Longrightarrow> sv_str sv d = (sv_str sv (ks_d s))(lkey code := x)
   \<Longrightarrow> cell sv (s\<lparr>ks_d := d\<rparr>) = (cell sv s)(code := x)"
  by (auto simp: cell_def fun_eq_iff bkey_def lkey_def)

lemma cell_keep:
  "ks_layoutHash s \<Longrightarrow> sv_fld sv d = sv_fld sv (ks_d s) \<Longrightarrow> cell sv (s\<lparr>ks_d := d\<rparr>) = cell sv s"
  "\<not> ks_layoutHash s \<Longrightarrow> sv_str sv d = sv_str sv (ks_d s) \<Longrightarrow> cell sv (s\<lparr>ks_d := d\<rparr>) = cell sv s"
  by (auto simp: cell_def fun_eq_iff bkey_def)

text \<open>A conditional write of a row: stored, or refused with nothing changed; a lifetime the server accepts is refused only
  if the row is there.\<close>

definition kvFitsTTL :: "int \<Rightarrow> bool" where
  "kvFitsTTL ttl \<longleftrightarrow> in_i64 ttl \<and> ttl \<le> 2 ^ 62"

definition nxWritten :: "bool \<Rightarrow> int \<Rightarrow> bytes \<Rightarrow> 'v \<Rightarrow> (bytes \<Rightarrow> 'v option) \<Rightarrow> (bytes \<Rightarrow> 'v option) \<Rightarrow> bool" where
  "nxWritten stored ttl code x v v' \<longleftrightarrow>
     (if stored then v code = None \<and> v' = v(code \<mapsto> x) else v' = v \<and> (ttl \<le> 2 ^ 62 \<longrightarrow> v code \<noteq> None))"

lemma putNX_cell:
  assumes "kv_laws net sv s" and "kvFitsCode code" and "kvFitsURL url" and "in_i64 now" and "in_i64 ttl"
  shows "\<exists>stored d. putNX net (expiry now ttl) now url ttl code s = Some (Inr stored, s\<lparr>ks_d := d\<rparr>)
           \<and> nxWritten stored ttl code (encVal (expiry now ttl) now url) (cell sv s) (cell sv (s\<lparr>ks_d := d\<rparr>))"
proof -
  let ?v = "encVal (expiry now ttl) now url"
  have v: "short ?v" using assms(3,4) by (simp add: short_encVal)
  show ?thesis
  proof (cases "ks_layoutHash s")
    case True
    let ?old = "sv_fld sv (ks_d s) (bkey s code, code)"
    from True have l: "serves net (sv_serve sv)" "hash_laws (sv_serve sv) (sv_fld sv)" using assms(1) by (simp_all add: kv_laws_def)
    obtain d where d: "sv_serve sv [''HSETNX'', bkey s code, code, ?v] (ks_d s)
          = (Resp (CHR '':'') None (if ?old \<noteq> None then 0 else 1) None, d)"
        "sv_fld sv d = (if ?old \<noteq> None then sv_fld sv (ks_d s) else (sv_fld sv (ks_d s))((bkey s code, code) \<mapsto> ?v))"
      using hash_lawsD(2) [OF l(2) short_keys(5,1) [OF assms(2)] v] by blast
    have "kvCmd net [''HSETNX'', bkey s code, code, ?v] (ks_d s) = Some (Inr (Resp (CHR '':'') None (if ?old \<noteq> None then 0 else 1) None), d)"
      by (rule kvCmd_reply [OF l(1) d(1)]) (auto intro!: args_ok_short short_keys [OF assms(2)] v)
    then have "putNX net (expiry now ttl) now url ttl code s = Some (Inr (?old = None), s\<lparr>ks_d := d\<rparr>)"
      using True by (cases ?old) (simp_all add: putNX_def call_def kvHsetnx_def)
    moreover have "cell sv s code = ?old" using True by (simp add: cell_def)
    then have "nxWritten (?old = None) ttl code ?v (cell sv s) (cell sv (s\<lparr>ks_d := d\<rparr>))"
      using d(2) cell_write(1) [OF True] cell_keep(1) [OF True] by (cases ?old) (simp_all add: nxWritten_def)
    ultimately show ?thesis by blast
  next
    case False
    let ?old = "sv_str sv (ks_d s) (lkey code)"
    from False have l: "serves net (sv_serve sv)" "string_laws (sv_serve sv) (sv_str sv)" using assms(1) by (simp_all add: kv_laws_def)
    obtain r d where d: "sv_serve sv (setArgs (lkey code) ?v ttl True) (ks_d s) = (r, d)"
        "setEffect (sv_str sv) (lkey code) ?v ttl True (ks_d s) r d"
      using string_lawsD(2) [OF l(2) short_keys(2) [OF assms(2)] v] by blast
    have "kvCmd net (setArgs (lkey code) ?v ttl True) (ks_d s) = Some (Inr r, d)"
      by (rule kvCmd_reply [OF l(1) d(1) args_ok_set [OF short_keys(2) [OF assms(2)] v assms(5)]])
    then have p: "putNX net (expiry now ttl) now url ttl code s = Some (Inr (isOK r), s\<lparr>ks_d := d\<rparr>)"
      using False by (simp add: putNX_def call_def kvSetKey_def)
    have "cell sv s code = ?old" using False by (simp add: cell_def)
    then have "nxWritten (isOK r) ttl code ?v (cell sv s) (cell sv (s\<lparr>ks_d := d\<rparr>))"
      using setEffect_cases [OF d(2)] cell_write(2) [OF False] cell_keep(2) [OF False] by (simp add: nxWritten_def split: if_splits)
    with p show ?thesis by blast
  qed
qed

text \<open>The write of \<open>Update\<close>.\<close>

definition rowWrite :: "'d net \<Rightarrow> bytes \<Rightarrow> bytes \<Rightarrow> int \<Rightarrow> 'd KvStore \<Rightarrow> (bool \<times> 'd KvStore) option" where
  "rowWrite net code v px s =
     (if ks_layoutHash s
      then map_option (\<lambda>(err, s). (err = None, s)) (call (kvHset net (bkey s code) code v) s)
      else map_option (\<lambda>(r, s). (r = Inr True, s)) (call (kvSetKey net (lkey code) v px False) s))"

lemma rowWrite_cell:
  assumes "kv_laws net sv s" and "kvFitsCode code" and "short v" and "in_i64 px"
  shows "\<exists>stored d. rowWrite net code v px s = Some (stored, s\<lparr>ks_d := d\<rparr>)
           \<and> cell sv (s\<lparr>ks_d := d\<rparr>) = (if stored then (cell sv s)(code \<mapsto> v) else cell sv s)"
proof (cases "ks_layoutHash s")
  case True
  then have l: "serves net (sv_serve sv)" "hash_laws (sv_serve sv) (sv_fld sv)" using assms(1) by (simp_all add: kv_laws_def)
  obtain r d where d: "sv_serve sv [''HSET'', bkey s code, code, v] (ks_d s) = (r, d)"
      "sv_fld sv d = (sv_fld sv (ks_d s))((bkey s code, code) \<mapsto> v)"
    using hash_lawsD(3) [OF l(2) short_keys(5,1) [OF assms(2)] assms(3)] by blast
  have "kvCmd net [''HSET'', bkey s code, code, v] (ks_d s) = Some (Inr r, d)"
    by (rule kvCmd_reply [OF l(1) d(1)]) (auto intro!: args_ok_short short_keys [OF assms(2)] assms(3))
  then show ?thesis using True cell_write(1) [OF True d(2)] by (auto simp: rowWrite_def call_def kvHset_def)
next
  case False
  then have l: "serves net (sv_serve sv)" "string_laws (sv_serve sv) (sv_str sv)" using assms(1) by (simp_all add: kv_laws_def)
  obtain r d where d: "sv_serve sv (setArgs (lkey code) v px False) (ks_d s) = (r, d)"
      "setEffect (sv_str sv) (lkey code) v px False (ks_d s) r d"
    using string_lawsD(2) [OF l(2) short_keys(2) [OF assms(2)] assms(3)] by blast
  have "kvCmd net (setArgs (lkey code) v px False) (ks_d s) = Some (Inr r, d)"
    by (rule kvCmd_reply [OF l(1) d(1) args_ok_set [OF short_keys(2) [OF assms(2)] assms(3,4)]])
  then have "rowWrite net code v px s = Some (isOK r, s\<lparr>ks_d := d\<rparr>)"
    using False by (simp add: rowWrite_def call_def kvSetKey_def)
  moreover have "cell sv (s\<lparr>ks_d := d\<rparr>) = (if isOK r then (cell sv s)(code \<mapsto> v) else cell sv s)"
    using setEffect_cases [OF d(2)] cell_write(2) [OF False] cell_keep(2) [OF False] by simp
  ultimately show ?thesis by blast
qed

text \<open>A deletion: of the row, or of the counter next to it.\<close>

lemma kvDel_reply:
  assumes "kv_laws net sv s" and "\<not> ks_layoutHash s" and "short k"
  shows "\<exists>d. call (kvDel net k) s = Some (Inr (if sv_str sv (ks_d s) k = None then 0 else 1), s\<lparr>ks_d := d\<rparr>)
           \<and> sv_str sv d = (sv_str sv (ks_d s))(k := None)"
proof -
  have l: "serves net (sv_serve sv)" "string_laws (sv_serve sv) (sv_str sv)" using assms(1,2) by (simp_all add: kv_laws_def)
  obtain d where d: "sv_serve sv [''DEL'', k] (ks_d s) = (Resp (CHR '':'') None (if sv_str sv (ks_d s) k = None then 0 else 1) None, d)"
      "sv_str sv d = (sv_str sv (ks_d s))(k := None)"
    using string_lawsD(3) [OF l(2) assms(3)] by blast
  have "kvCmd net [''DEL'', k] (ks_d s) = Some (Inr (Resp (CHR '':'') None (if sv_str sv (ks_d s) k = None then 0 else 1) None), d)"
    by (rule kvCmd_reply [OF l(1) d(1)]) (auto intro!: args_ok_short assms(3))
  then show ?thesis using d(2) by (auto simp: call_def kvDel_def intReply_def)
qed

lemma kvHdel_reply:
  assumes "kv_laws net sv s" and "ks_layoutHash s" and "short k" and "short f"
  shows "\<exists>d. call (kvHdel net k f) s = Some (Inr (if sv_fld sv (ks_d s) (k, f) = None then 0 else 1), s\<lparr>ks_d := d\<rparr>)
           \<and> sv_fld sv d = (sv_fld sv (ks_d s))((k, f) := None)"
proof -
  have l: "serves net (sv_serve sv)" "hash_laws (sv_serve sv) (sv_fld sv)" using assms(1,2) by (simp_all add: kv_laws_def)
  obtain d where d: "sv_serve sv [''HDEL'', k, f] (ks_d s) = (Resp (CHR '':'') None (if sv_fld sv (ks_d s) (k, f) = None then 0 else 1) None, d)"
      "sv_fld sv d = (sv_fld sv (ks_d s))((k, f) := None)"
    using hash_lawsD(4) [OF l(2) assms(3,4)] by blast
  have "kvCmd net [''HDEL'', k, f] (ks_d s) = Some (Inr (Resp (CHR '':'') None (if sv_fld sv (ks_d s) (k, f) = None then 0 else 1) None), d)"
    by (rule kvCmd_reply [OF l(1) d(1)]) (auto intro!: args_ok_short assms(3,4))
  then show ?thesis using d(2) by (auto simp: call_def kvHdel_def intReply_def)
qed

section \<open>The view and the invariant\<close>

text \<open>In the hash layout a field \<open>h:c\<close> is the counter of \<open>c\<close>, so no link has such a code.\<close>

definition kvView :: "'d server \<Rightarrow> 'd KvStore \<Rightarrow> bytes \<Rightarrow> (bytes \<times> int) option" where
  "kvView sv s code = (if HasPrefix code ''h:'' then None else rowView (cell sv s code))"

definition kvFaithful :: "int \<Rightarrow> kvCache \<Rightarrow> (bytes \<Rightarrow> (bytes \<times> int) option) \<Rightarrow> bool" where
  "kvFaithful now c v \<longleftrightarrow>
     (\<forall>code ent. cacheEntry code c = Some ent \<longrightarrow>
        v code = Some (ce_u ent, ce_e ent) \<or> ce_e ent \<noteq> 0 \<and> ce_e ent \<le> now)"

definition kvOk :: "int \<Rightarrow> 'd server \<Rightarrow> 'd KvStore \<Rightarrow> bool" where
  "kvOk now sv s \<longleftrightarrow>
     cache_ok (ks_cache s) \<and> ks_prefix s \<in> set ALPHABET
     \<and> (\<forall>code v. kvFitsCode code \<longrightarrow> cell sv s code = Some v \<longrightarrow> decVal v \<noteq> None)
     \<and> kvFaithful now (ks_cache s) (kvView sv s)"

lemma kvFaithful_sub:
  assumes "kvFaithful now c v" and "\<And>code. cacheEntry code c' \<in> {None, cacheEntry code c}"
  shows "kvFaithful now c' v"
  unfolding kvFaithful_def
proof (intro allI impI)
  fix code ent
  assume "cacheEntry code c' = Some ent"
  then have "cacheEntry code c = Some ent" using assms(2) [of code] by auto
  then show "v code = Some (ce_u ent, ce_e ent) \<or> ce_e ent \<noteq> 0 \<and> ce_e ent \<le> now"
    using assms(1) by (simp add: kvFaithful_def)
qed

lemma kvFaithful_get: "kvFaithful now c v \<Longrightarrow> kvFaithful now (snd (cacheGet t code c)) v"
  by (erule kvFaithful_sub) (rule cacheEntry_get)

lemma kvFaithful_put:
  assumes "kvFaithful now c v" and "cache_ok c" and "v code = Some (u, e)"
  shows "kvFaithful now (cachePut t code u e c) v"
  unfolding kvFaithful_def
proof (intro allI impI)
  fix k ent
  assume "cacheEntry k (cachePut t code u e c) = Some ent"
  then show "v k = Some (ce_u ent, ce_e ent) \<or> ce_e ent \<noteq> 0 \<and> ce_e ent \<le> now"
    using cacheEntry_put(1) [OF assms(2), of code t u e] cacheEntry_put(2) [OF assms(2), of k code t u e] assms(1,3)
    by (cases "k = code") (auto simp: kvFaithful_def)
qed

lemma kvFaithful_remove: "kvFaithful now c v \<Longrightarrow> kvFaithful now (cacheRemove code c) (v(code := x))"
  unfolding kvFaithful_def by (simp add: cacheEntry_remove)

lemma kvFaithful_create:
  "kvFaithful now c v \<Longrightarrow> v code = None \<Longrightarrow> kvFaithful now c (v(code \<mapsto> x))"
  unfolding kvFaithful_def by (metis fun_upd_other option.distinct(1))

lemma kvView_fits: "kvFitsCode code \<Longrightarrow> kvView sv s code = rowView (cell sv s code)"
  by (simp add: kvView_def kvFitsCode_def)

lemma kvView_None: "kvOk now sv s \<Longrightarrow> kvFitsCode code \<Longrightarrow> kvView sv s code = None \<longleftrightarrow> cell sv s code = None"
  by (cases "cell sv s code") (fastforce simp: kvView_fits kvOk_def rowView_def split: bind_splits)+

lemma kvView_write:
  assumes "\<And>k. \<not> HasPrefix k ''h:'' \<Longrightarrow> cell sv s' k = ((cell sv s)(code := x)) k" and "kvFitsCode code"
  shows "kvView sv s' = (kvView sv s)(code := rowView x)"
  using assms by (auto simp: kvView_def kvFitsCode_def fun_eq_iff)

lemma kvOk_same:
  assumes "cell sv s' = cell sv s"
  shows "kvView sv s' = kvView sv s"
    and "ks_cache s' = ks_cache s \<Longrightarrow> ks_prefix s' = ks_prefix s \<Longrightarrow> kvOk now sv s' = kvOk now sv s"
  using assms by (simp_all add: kvOk_def kvView_def [abs_def] cong: if_cong)

text \<open>What an operation may do to the engine and keep the invariant.\<close>

lemma kvOk_change:
  assumes "kvOk now sv s" and "kvFitsCode code" 
    and "\<And>k. \<not> HasPrefix k ''h:'' \<Longrightarrow> cell sv s' k = ((cell sv s)(code := x)) k"
    and "case x of None \<Rightarrow> True | Some v \<Rightarrow> decVal v \<noteq> None" and "ks_prefix s' = ks_prefix s"
    and "ks_cache s' = cacheRemove code (ks_cache s) \<or> kvView sv s code = None \<and> x \<noteq> None \<and> ks_cache s' = ks_cache s"
  shows "kvOk now sv s'"
proof -
  have v: "kvView sv s' = (kvView sv s)(code := rowView x)" by (rule kvView_write [OF assms(3,2)])
  have ok: "cache_ok (ks_cache s)" "kvFaithful now (ks_cache s) (kvView sv s)" using assms(1) by (simp_all add: kvOk_def)
  have "kvFaithful now (ks_cache s') (kvView sv s')"
    using assms(6)
  proof
    assume "ks_cache s' = cacheRemove code (ks_cache s)"
    then show ?thesis using kvFaithful_remove [OF ok(2)] v by simp
  next
    assume a: "kvView sv s code = None \<and> x \<noteq> None \<and> ks_cache s' = ks_cache s"
    then obtain y where "rowView x = Some y" using assms(4) by (cases x) (auto simp: rowView_def split: option.splits)
    then show ?thesis using a v kvFaithful_create [OF ok(2)] by simp
  qed
  moreover have "cache_ok (ks_cache s')" using assms(6) ok(1) cache_ok_remove by auto
  ultimately show ?thesis using assms(1,3-5) by (auto simp: kvOk_def kvFitsCode_def split: option.splits)
qed

lemma kv_frame [simp]:
  "cell sv (ksCount f s) = cell sv s" "cell sv (kvBump t c s) = cell sv s" "cell sv (s\<lparr>ks_cache := x\<rparr>) = cell sv s"
  "kv_laws net sv (ksCount f s) = kv_laws net sv s" "kv_laws net sv (kvBump t c s) = kv_laws net sv s"
  "kv_laws net sv (s\<lparr>ks_cache := x\<rparr>) = kv_laws net sv s" "kv_laws net sv (s\<lparr>ks_d := d\<rparr>) = kv_laws net sv s"
  "ks_cache (ksCount f s) = ks_cache s" "ks_prefix (ksCount f s) = ks_prefix s"
  "ks_cache (kvBump t c s) = ks_cache s" "ks_prefix (kvBump t c s) = ks_prefix s"
  by (auto simp: cell_def bkey_def kv_laws_def ksCount_def kvBump_def fun_eq_iff)

lemma kvOk_frame [simp]:
  "kvView sv (ksCount f s) = kvView sv s" "kvView sv (kvBump t c s) = kvView sv s" "kvView sv (s\<lparr>ks_cache := x\<rparr>) = kvView sv s"
  "kvOk now sv (ksCount f s) = kvOk now sv s" "kvOk now sv (kvBump t c s) = kvOk now sv s"
  by (simp_all add: kvOk_def kvView_def [abs_def] cong: if_cong)

lemma ksCount_cache: "(ksCount f s)\<lparr>ks_cache := c\<rparr> = ksCount f (s\<lparr>ks_cache := c\<rparr>)"
  by (simp add: ksCount_def)

lemma kvOk_cache:
  "kvOk now sv s \<Longrightarrow> cache_ok c \<Longrightarrow> kvFaithful now c (kvView sv s) \<Longrightarrow> kvOk now sv (s\<lparr>ks_cache := c\<rparr>)"
  by (simp add: kvOk_def)

section \<open>The operations\<close>

lemma kvOk_nx:
  assumes "kvOk now sv s" and "kvFitsCode code" and "in_i64 t"
    and "nxWritten stored ttl code (encVal (expiry t ttl) t url) (cell sv s) (cell sv (s\<lparr>ks_d := d\<rparr>))"
  shows "kvOk now sv (s\<lparr>ks_d := d\<rparr>)
    \<and> nxWritten stored ttl code (url, expiry t ttl) (kvView sv s) (kvView sv (s\<lparr>ks_d := d\<rparr>))"
proof -
  let ?v = "encVal (expiry t ttl) t url"
  have n: "kvView sv s code = None \<longleftrightarrow> cell sv s code = None" by (rule kvView_None [OF assms(1,2)])
  show ?thesis
  proof (cases stored)
    case True
    then have c: "cell sv s code = None" "cell sv (s\<lparr>ks_d := d\<rparr>) = (cell sv s)(code \<mapsto> ?v)"
      using assms(4) by (simp_all add: nxWritten_def)
    have "kvOk now sv (s\<lparr>ks_d := d\<rparr>)"
      by (rule kvOk_change [OF assms(1,2) fun_cong [OF c(2)]]) (use c(1) n assms(3) in \<open>simp_all add: decVal_encVal\<close>)
    moreover have "kvView sv (s\<lparr>ks_d := d\<rparr>) = (kvView sv s)(code \<mapsto> (url, expiry t ttl))"
      using kvView_write [OF fun_cong [OF c(2)] assms(2)] assms(3) by simp
    ultimately show ?thesis using True c(1) n by (simp add: nxWritten_def)
  next
    case False
    then have "cell sv (s\<lparr>ks_d := d\<rparr>) = cell sv s" using assms(4) by (simp add: nxWritten_def)
    then show ?thesis using False assms(1,4) n kvOk_same [of sv "s\<lparr>ks_d := d\<rparr>" s] by (auto simp: nxWritten_def)
  qed
qed

lemma kv_putNX:
  assumes "kv_laws net sv s" and "kvOk now sv s" and "kvFitsCode code" and "kvFitsURL url" and "in_i64 t" and "in_i64 ttl"
  shows "\<exists>stored d. putNX net (expiry t ttl) t url ttl code s = Some (Inr stored, s\<lparr>ks_d := d\<rparr>)
           \<and> kvOk now sv (s\<lparr>ks_d := d\<rparr>)
           \<and> nxWritten stored ttl code (url, expiry t ttl) (kvView sv s) (kvView sv (s\<lparr>ks_d := d\<rparr>))"
  using putNX_cell [OF assms(1,3-6)] kvOk_nx [OF assms(2,3,5)] by blast

lemma kv_alias:
  assumes "kv_laws net sv s" and "kvOk now sv s" and "kvFitsCode al" and "kvFitsURL url" and "in_i64 (clk 0)" and "kvFitsTTL ttl"
  shows "\<exists>s'. kvShorten net clk draws url al True ttl s = Some (if kvView sv s al = None then al else [], s')
    \<and> kv_laws net sv s' \<and> kvOk now sv s' \<and> kvView sv s'
        = (if kvView sv s al = None then (kvView sv s)(al \<mapsto> (url, expiry (clk 0) ttl)) else kvView sv s)"
proof -
  let ?s = "ksCount StoreWrite s"
  have ttl: "in_i64 ttl" "ttl \<le> 2 ^ 62" using assms(6) by (simp_all add: kvFitsTTL_def)
  obtain stored d where d: "putNX net (expiry (clk 0) ttl) (clk 0) url ttl al ?s = Some (Inr stored, ?s\<lparr>ks_d := d\<rparr>)"
    "kvOk now sv (?s\<lparr>ks_d := d\<rparr>)" "nxWritten stored ttl al (url, expiry (clk 0) ttl) (kvView sv ?s) (kvView sv (?s\<lparr>ks_d := d\<rparr>))"
    using kv_putNX [of net sv ?s now al url "clk 0" ttl] assms(1-5) ttl(1) by auto
  show ?thesis
  proof (cases stored)
    case True
    then show ?thesis using assms(1) d by (simp add: kvShorten_def Let_def nxWritten_def)
  next
    case False
    then have "kvView sv s al \<noteq> None" "kvView sv (?s\<lparr>ks_d := d\<rparr>) = kvView sv s" using d(3) ttl(2) by (simp_all add: nxWritten_def)
    then show ?thesis using False assms(1) d by (simp add: kvShorten_def Let_def del: not_None_eq)
  qed
qed

lemma randCode_fits:
  assumes "ks_prefix s \<in> set ALPHABET"
  shows "length (kvRandCode r s) = codeLen" and "set (kvRandCode r s) \<subseteq> set ALPHABET" and "kvFitsCode (kvRandCode r s)"
proof -
  show l: "length (kvRandCode r s) = codeLen" and a: "set (kvRandCode r s) \<subseteq> set ALPHABET"
    using assms randSuffix_ALPHABET [of r] by (auto simp: kvRandCode_def codeLen_def)
  have "CHR '':'' \<notin> set ALPHABET" by (simp add: ALPHABET_def)
  then have "\<not> HasPrefix (kvRandCode r s) ''h:''" using a by (cases "kvRandCode r s"; cases "tl (kvRandCode r s)") (auto simp: HasPrefix_def)
  then show "kvFitsCode (kvRandCode r s)" using l by (simp add: kvFitsCode_def codeLen_def)
qed

text \<open>A generated code was free on the server and now has its row, whatever the cache holds and whoever else writes
  there.\<close>

lemma kvFresh_cell:
  assumes "kv_laws net sv s" and "ks_prefix s \<in> set ALPHABET" and "kvFitsURL url" and "in_i64 t" and "in_i64 ttl"
    and "kvFresh net (expiry t ttl) t url ttl rs s = Some (code, s')"
  shows "length code = codeLen \<and> set code \<subseteq> set ALPHABET \<and> kvFitsCode code
    \<and> (\<exists>d. s' = s\<lparr>ks_d := d\<rparr>) \<and> nxWritten True ttl code (encVal (expiry t ttl) t url) (cell sv s) (cell sv s')"
  using assms(1,2,6)
proof (induction rs arbitrary: s)
  case (Cons r rs)
  let ?c = "kvRandCode r s"
  note c = randCode_fits [OF Cons(3), of r]
  obtain stored d where d: "putNX net (expiry t ttl) t url ttl ?c s = Some (Inr stored, s\<lparr>ks_d := d\<rparr>)"
    "nxWritten stored ttl ?c (encVal (expiry t ttl) t url) (cell sv s) (cell sv (s\<lparr>ks_d := d\<rparr>))"
    using putNX_cell [OF Cons(2) c(3) assms(3-5)] by blast
  show ?case
  proof (cases stored)
    case True
    then show ?thesis using Cons(4) d c by auto
  next
    case False
    then have "cell sv (s\<lparr>ks_d := d\<rparr>) = cell sv s" using d(2) by (simp add: nxWritten_def)
    then show ?thesis using False Cons(1) [of "s\<lparr>ks_d := d\<rparr>"] Cons(2-4) d(1) by auto
  qed
qed simp

lemma kvFresh_props:
  assumes "kv_laws net sv s" and "kvOk now sv s" and "kvFitsURL url" and "in_i64 t" and "in_i64 ttl"
    and "kvFresh net (expiry t ttl) t url ttl rs s = Some (code, s')"
  shows "length code = codeLen \<and> set code \<subseteq> set ALPHABET \<and> kvView sv s code = None \<and> kv_laws net sv s' \<and> kvOk now sv s'
         \<and> kvView sv s' = (kvView sv s)(code \<mapsto> (url, expiry t ttl))"
proof -
  have "ks_prefix s \<in> set ALPHABET" using assms(2) by (simp add: kvOk_def)
  from kvFresh_cell [OF assms(1) this assms(3-6)] obtain d where c: "length code = codeLen" "set code \<subseteq> set ALPHABET" "kvFitsCode code"
    "s' = s\<lparr>ks_d := d\<rparr>" "nxWritten True ttl code (encVal (expiry t ttl) t url) (cell sv s) (cell sv (s\<lparr>ks_d := d\<rparr>))" by blast
  show ?thesis using kvOk_nx [OF assms(2) c(3) assms(4) c(5)] c(1,2,4) assms(1) by (simp add: nxWritten_def)
qed

text \<open>The same for \<open>Shorten\<close>, when it gives a code.\<close>

lemma kvShorten_cell:
  assumes "kv_laws net sv s" and "ks_prefix s \<in> set ALPHABET" and "hasAlias \<longrightarrow> kvFitsCode al" and "kvFitsURL url"
    and "in_i64 (clk 0)" and "in_i64 ttl" and "kvShorten net clk draws url al hasAlias ttl s = Some (code, s')" and "code \<noteq> []"
  shows "(if hasAlias then code = al else length code = codeLen \<and> set code \<subseteq> set ALPHABET) \<and> kvFitsCode code
    \<and> (\<exists>d. s' = (ksCount StoreWrite s)\<lparr>ks_d := d\<rparr>) \<and> nxWritten True ttl code (encVal (expiry (clk 0) ttl) (clk 0) url) (cell sv s) (cell sv s')"
proof -
  let ?s = "ksCount StoreWrite s"
  have l: "kv_laws net sv ?s" "ks_prefix ?s \<in> set ALPHABET" using assms(1,2) by simp_all
  show ?thesis
  proof (cases hasAlias)
    case True
    then have al: "kvFitsCode al" using assms(3) by simp
    obtain stored d where d: "putNX net (expiry (clk 0) ttl) (clk 0) url ttl al ?s = Some (Inr stored, ?s\<lparr>ks_d := d\<rparr>)"
      "nxWritten stored ttl al (encVal (expiry (clk 0) ttl) (clk 0) url) (cell sv ?s) (cell sv (?s\<lparr>ks_d := d\<rparr>))"
      using putNX_cell [OF l(1) al assms(4-6)] by blast
    then have "stored" "code = al" "s' = ?s\<lparr>ks_d := d\<rparr>" using True assms(7,8) by (auto simp: kvShorten_def Let_def split: if_splits)
    then show ?thesis using True al d(2) by auto
  next
    case False
    then have "kvFresh net (expiry (clk 0) ttl) (clk 0) url ttl draws ?s = Some (code, s')" using assms(7) by (simp add: kvShorten_def Let_def)
    from kvFresh_cell [OF l assms(4-6) this] show ?thesis using False by simp
  qed
qed

text \<open>What \<open>Resolve\<close> answers for a code with a live row: the row's url, unless the cache answers first.\<close>

lemma kv_resolve_row:
  assumes "kv_laws net sv s" and "kvFitsCode code" and "cell sv s code = Some v" and "decVal v = Some (e, cr, u)" and "e = 0 \<or> kClk env 1 < e"
  shows "\<exists>s'. kvResolve net env code s
    = Some (Some (case fst (cacheGet (kClk env 0) code (ks_cache s)) of None \<Rightarrow> u | Some (u', _) \<Rightarrow> u'), s')"
proof -
  obtain r c where g: "cacheGet (kClk env 0) code (ks_cache s) = (r, c)" by fastforce
  let ?s = "ksCount CacheMiss (s\<lparr>ks_cache := c\<rparr>)"
  have "kvGet net code ?s = Some (Inr (cell sv ?s code), ?s)" using assms(1) by (intro kvGet_cell) (simp_all add: assms(2))
  then show ?thesis using g assms(3-5) by (cases r) (auto simp: kvResolve_def Let_def)
qed

lemma kv_resolve_live:
  assumes "kv_laws net sv s" and "kvOk (kClk env 0) sv s" and "kvFitsCode code" and "kvView sv s code = Some (u, e)"
    and "e = 0 \<or> max (kClk env 0) (kClk env 1) < e"
  shows "\<exists>s'. kvResolve net env code s = Some (Some u, s') \<and> kv_laws net sv s' \<and> kvOk (kClk env 0) sv s' \<and> kvView sv s' = kvView sv s"
proof -
  let ?now = "kClk env 0"
  obtain r c where g: "cacheGet ?now code (ks_cache s) = (r, c)" by fastforce
  have ok: "cache_ok (ks_cache s)" "kvFaithful ?now (ks_cache s) (kvView sv s)" using assms(2) by (simp_all add: kvOk_def)
  have c: "cache_ok c" "kvFaithful ?now c (kvView sv s)"
    using cache_ok_get [OF ok(1), of ?now code] kvFaithful_get [OF ok(2), of ?now code] g by simp_all
  let ?s = "s\<lparr>ks_cache := c\<rparr>"
  have s1: "kvOk ?now sv ?s" by (rule kvOk_cache [OF assms(2) c])
  show ?thesis
  proof (cases r)
    case (Some x)
    obtain u' e' where x: "x = (u', e')" by (cases x)
    then obtain ent where ent: "cacheEntry code (ks_cache s) = Some ent" "ce_u ent = u'" "ce_e ent = e'" "e' = 0 \<or> ?now < e'"
      using g Some cacheGet_Some [of ?now code "ks_cache s" u' e'] by auto
    then have "kvView sv s code = Some (u', e')" using ok(2) unfolding kvFaithful_def by fastforce
    then have "u' = u" using assms(4) by simp
    then show ?thesis using Some x g s1 assms(1) by (simp add: kvResolve_def)
  next
    case None
    obtain v cr where v: "cell sv s code = Some v" "decVal v = Some (e, cr, u)"
      using assms(3,4) by (auto simp: kvView_fits rowView_def split: bind_splits)
    let ?c = "cachePut (kClk env 2) code u e c"
    have s2: "kvOk ?now sv (?s\<lparr>ks_cache := ?c\<rparr>)"
      by (rule kvOk_cache [OF s1]) (use cache_ok_put [OF c(1)] kvFaithful_put [OF c(2,1) assms(4)] in simp_all)
    have "kvGet net code (ksCount CacheMiss ?s) = Some (Inr (cell sv (ksCount CacheMiss ?s) code), ksCount CacheMiss ?s)"
      using assms(1) by (intro kvGet_cell) (simp_all add: assms(3))
    then show ?thesis
      using None g v assms(1,5) s2 by (auto simp: kvResolve_def Let_def ksCount_cache)
  qed
qed

lemma kvUpdate_rowWrite:
  fixes hasTTL :: bool and clk :: "nat \<Rightarrow> int" and ttl :: int
  assumes "kvGet net code s = Some (Inr (Some v), s)" and "decVal v = Some (e, c, u)"
  defines "exp \<equiv> (if hasTTL then expiry (clk 0) ttl else e)"
  shows "kvUpdate net clk code url ttl hasTTL s
    = map_option (\<lambda>(stored, s). if stored then (MutOK, s\<lparr>ks_cache := cacheRemove code (ks_cache s)\<rparr>) else (MutMissing, s))
        (rowWrite net code (encVal exp c url) (if 0 < exp then i64 (exp - clk 1) else 0) s)"
  using assms by (simp add: kvUpdate_def rowWrite_def expiry_def Let_def)

lemma kv_updated:
  assumes "kv_laws net sv s" and "kvOk now sv s" and "kvFitsCode code" and "kvFitsURL url"
    and "kvUpdate net clk code url ttl hasTTL s = Some (m, s')"
  shows "kv_laws net sv s' \<and> kvOk now sv s'
    \<and> (if m = MutOK then \<exists>u e. kvView sv s code = Some (u, e)
         \<and> kvView sv s' = (kvView sv s)(code \<mapsto> (url, if hasTTL then expiry (clk 0) ttl else e))
       else kvView sv s' = kvView sv s)"
proof (cases "cell sv s code")
  case None
  then show ?thesis using assms(1,2,5) by (simp add: kvUpdate_def kvGet_cell [OF assms(1,3)])
next
  case (Some v)
  then obtain e c u where v: "decVal v = Some (e, c, u)" using assms(2,3) by (fastforce simp: kvOk_def)
  have i: "in_i64 e" "in_i64 c" using decVal_in_i64 [OF v] by simp_all
  let ?exp = "if hasTTL then expiry (clk 0) ttl else e" and ?px = "\<lambda>exp. if 0 < exp then i64 (exp - clk 1) else 0"
  have x: "in_i64 ?exp" "in_i64 (?px ?exp)" using i(1) by simp_all
  obtain stored d where d: "rowWrite net code (encVal ?exp c url) (?px ?exp) s = Some (stored, s\<lparr>ks_d := d\<rparr>)"
    "cell sv (s\<lparr>ks_d := d\<rparr>) = (if stored then (cell sv s)(code \<mapsto> encVal ?exp c url) else cell sv s)"
    using rowWrite_cell [OF assms(1,3) short_encVal [OF x(1) i(2) assms(4)] x(2)] by blast
  have "kvGet net code s = Some (Inr (Some v), s)" using kvGet_cell [OF assms(1,3)] Some by simp
  note m = kvUpdate_rowWrite [OF this v, of clk url ttl hasTTL]
  show ?thesis
  proof (cases stored)
    case False
    then have "m = MutMissing" "s' = s\<lparr>ks_d := d\<rparr>" "cell sv s' = cell sv s" using m assms(5) d by simp_all
    then show ?thesis using assms(1,2) kvOk_same [of sv s' s] by simp
  next
    case True
    then have s': "m = MutOK" "s' = s\<lparr>ks_d := d, ks_cache := cacheRemove code (ks_cache s)\<rparr>" using m assms(5) d(1) by simp_all
    have c: "cell sv s' = (cell sv s)(code \<mapsto> encVal ?exp c url)" using True d(2) s'(2) kv_frame(3) by metis
    have "kvOk now sv s'"
      by (rule kvOk_change [OF assms(2,3) fun_cong [OF c]]) (use i s'(2) in \<open>simp_all add: decVal_encVal\<close>)
    moreover have "kvView sv s' = (kvView sv s)(code \<mapsto> (url, ?exp))" using kvView_write [OF fun_cong [OF c] assms(3)] i by simp
    moreover have "kvView sv s code = Some (u, e)" using Some v assms(3) by (simp add: kvView_fits rowView_def)
    moreover have "kv_laws net sv s'" using assms(1) s'(2) by (simp add: kv_laws_def)
    ultimately show ?thesis using s'(1) by simp
  qed
qed

text \<open>\<open>Remove\<close> deletes the row, and its counter only if the row was there.\<close>

lemma kvRemove_cells:
  assumes "kv_laws net sv s" and "kvFitsCode code"
  shows "\<exists>d. kvRemove net code s
      = Some (if cell sv s code = None then (MutMissing, s\<lparr>ks_d := d\<rparr>)
              else (MutOK, s\<lparr>ks_d := d, ks_cache := cacheRemove code (ks_cache s)\<rparr>))
    \<and> (\<forall>k. \<not> HasPrefix k ''h:'' \<longrightarrow> cell sv (s\<lparr>ks_d := d\<rparr>) k = ((cell sv s)(code := None)) k)"
proof (cases "ks_layoutHash s")
  case True
  obtain d where d: "call (kvHdel net (bkey s code) code) s = Some (Inr (if sv_fld sv (ks_d s) (bkey s code, code) = None then 0 else 1), s\<lparr>ks_d := d\<rparr>)"
    "sv_fld sv d = (sv_fld sv (ks_d s))((bkey s code, code) := None)"
    using kvHdel_reply [OF assms(1) True short_keys(5,1) [OF assms(2)]] by blast
  let ?s = "s\<lparr>ks_d := d\<rparr>"
  have l1: "kv_laws net sv ?s" "ks_layoutHash ?s" "bkey ?s code = bkey s code" using assms(1) True by (simp_all add: bkey_def)
  obtain n d2 where d2: "call (kvHdel net (bkey s code) (hfield code)) ?s = Some (Inr n, ?s\<lparr>ks_d := d2\<rparr>)"
    "sv_fld sv d2 = (sv_fld sv d)((bkey s code, hfield code) := None)"
    using kvHdel_reply [OF l1(1,2) short_keys(5,4) [OF assms(2)], of s] by auto
  have "k \<noteq> hfield code" if "\<not> HasPrefix k ''h:''" for k using that by (auto simp: hfield_def HasPrefix_def)
  then have c: "\<forall>k. \<not> HasPrefix k ''h:'' \<longrightarrow> cell sv (s\<lparr>ks_d := x\<rparr>) k = ((cell sv s)(code := None)) k" if "x \<in> {d, d2}" for x
    using that True d(2) d2(2) by (auto simp: cell_def bkey_def)
  show ?thesis
  proof (cases "cell sv s code")
    case None
    then have "kvRemove net code s = Some (MutMissing, s\<lparr>ks_d := d\<rparr>)" using True d(1) by (simp add: kvRemove_def cell_def Let_def)
    then show ?thesis using None c [of d] by auto
  next
    case (Some v)
    then have "kvRemove net code s = Some (MutOK, s\<lparr>ks_d := d2, ks_cache := cacheRemove code (ks_cache s)\<rparr>)"
      using True d(1) d2(1) by (simp add: kvRemove_def cell_def Let_def)
    then show ?thesis using Some c [of d2] by auto
  qed
next
  case False
  obtain d where d: "call (kvDel net (lkey code)) s = Some (Inr (if sv_str sv (ks_d s) (lkey code) = None then 0 else 1), s\<lparr>ks_d := d\<rparr>)"
    "sv_str sv d = (sv_str sv (ks_d s))(lkey code := None)"
    using kvDel_reply [OF assms(1) False short_keys(2) [OF assms(2)]] by blast
  let ?s = "s\<lparr>ks_d := d\<rparr>"
  have l1: "kv_laws net sv ?s" "\<not> ks_layoutHash ?s" using assms(1) False by simp_all
  obtain n d2 where d2: "call (kvDel net (hkey code)) ?s = Some (Inr n, ?s\<lparr>ks_d := d2\<rparr>)"
    "sv_str sv d2 = (sv_str sv d)(hkey code := None)"
    using kvDel_reply [OF l1 short_keys(3) [OF assms(2)]] by auto
  have c: "\<forall>k. \<not> HasPrefix k ''h:'' \<longrightarrow> cell sv (s\<lparr>ks_d := x\<rparr>) k = ((cell sv s)(code := None)) k" if "x \<in> {d, d2}" for x
    using that False d(2) d2(2) by (auto simp: cell_def lkey_def hkey_def)
  show ?thesis
  proof (cases "cell sv s code")
    case None
    then have "kvRemove net code s = Some (MutMissing, s\<lparr>ks_d := d\<rparr>)" using False d(1) by (simp add: kvRemove_def cell_def Let_def)
    then show ?thesis using None c [of d] by auto
  next
    case (Some v)
    then have "kvRemove net code s = Some (MutOK, s\<lparr>ks_d := d2, ks_cache := cacheRemove code (ks_cache s)\<rparr>)"
      using False d(1) d2(1) by (simp add: kvRemove_def cell_def Let_def)
    then show ?thesis using Some c [of d2] by auto
  qed
qed

lemma kv_removed:
  assumes "kv_laws net sv s" and "kvOk now sv s" and "kvFitsCode code" and "kvRemove net code s = Some (m, s')"
  shows "kv_laws net sv s' \<and> kvOk now sv s'
    \<and> (if m = MutOK then kvView sv s code \<noteq> None \<and> kvView sv s' = (kvView sv s)(code := None) else kvView sv s' = kvView sv s)"
proof -
  let ?s = "\<lambda>d. s\<lparr>ks_d := d, ks_cache := cacheRemove code (ks_cache s)\<rparr>"
  obtain d where d: "kvRemove net code s = Some (if cell sv s code = None then (MutMissing, s\<lparr>ks_d := d\<rparr>) else (MutOK, ?s d))"
    "\<And>k. \<not> HasPrefix k ''h:'' \<Longrightarrow> cell sv (s\<lparr>ks_d := d\<rparr>) k = ((cell sv s)(code := None)) k"
    using kvRemove_cells [OF assms(1,3)] by blast
  show ?thesis
  proof (cases "cell sv s code")
    case None
    then have s': "m = MutMissing" "s' = s\<lparr>ks_d := d\<rparr>" using assms(4) d(1) by simp_all
    have "(cell sv s)(code := None) = cell sv s" using None by auto
    then have "kvView sv s' = kvView sv s" "kvOk now sv s'"
      using d(2) s'(2) assms(2) by (auto simp: kvView_def [abs_def] kvOk_def kvFitsCode_def cong: if_cong)
    then show ?thesis using s' assms(1) by simp
  next
    case (Some v)
    then have s': "m = MutOK" "s' = ?s d" using assms(4) d(1) by simp_all
    have c: "cell sv s' k = ((cell sv s)(code := None)) k" if "\<not> HasPrefix k ''h:''" for k
      using d(2) [OF that] kv_frame(3) [where s = "s\<lparr>ks_d := d\<rparr>"] s'(2) by simp
    have "kvOk now sv s'" by (rule kvOk_change [OF assms(2,3) c]) (use s'(2) in simp_all)
    moreover have "kvView sv s' = (kvView sv s)(code := None)" using kvView_write [OF c assms(3)] by (simp add: rowView_def)
    moreover have "kvView sv s code \<noteq> None" using Some kvView_None [OF assms(2,3)] by simp
    ultimately show ?thesis using s' assms(1) by (simp add: kv_laws_def)
  qed
qed

text \<open>The engine keeps the contract of the store interface in both layouts.\<close>

interpretation kv_api: store_api "kvAPI net env" "kvView sv"
  "\<lambda>s. kv_laws net sv s \<and> in_i64 (kClk env 0) \<and> kvOk (kClk env 0) sv s" kvFitsCode kvFitsURL kvFitsTTL
  "kClk env 0" "max (kClk env 0) (kClk env 1)"
  for net env sv
proof (unfold_locales, goal_cases)
  case (1 code)
  then show ?case
    by (cases code; cases "tl code") (auto simp: codeOK_def codeChar_def kvFitsCode_def HasPrefix_def less_eq_char_def)
next
  case (2 url)
  then show ?case by (simp add: kvFitsURL_def)
next
  case (3 ttl)
  then show ?case by (simp add: kvFitsTTL_def)
next
  case (4 s al url ttl)
  then show ?case using kv_alias [of net sv s "kClk env 0" al url "kClk env" ttl "kDraws env"] by (auto simp: kvAPI_def)
next
  case (5 s al url ttl)
  then show ?case using kv_alias [of net sv s "kClk env 0" al url "kClk env" ttl "kDraws env"] by (auto simp: kvAPI_def)
next
  case (6 s url ttl al code s')
  then have "kvFresh net (expiry (kClk env 0) ttl) (kClk env 0) url ttl (kDraws env) (ksCount StoreWrite s) = Some (code, s')"
    by (simp add: kvAPI_def kvShorten_def Let_def)
  then show ?case using 6(1-3) kvFresh_props [of net sv "ksCount StoreWrite s" "kClk env 0" url "kClk env 0" ttl] by (simp add: kvFitsTTL_def)
next
  case (7 s code u e)
  then show ?case using kv_resolve_live [of net sv s env code u e] by (auto simp: kvAPI_def)
next
  case (8 s code url ttl hasTTL m s')
  then show ?case using kv_updated [of net sv s "kClk env 0" code url "kClk env" ttl hasTTL m s'] by (simp add: kvAPI_def)
next
  case (9 s code m s')
  then show ?case using kv_removed [of net sv s "kClk env 0" code m s'] by (simp add: kvAPI_def)
qed

end
