(* ===== verification/KvMem.thy ===== *)
theory KvMem
  imports KvEngine
begin

text \<open>
  A RESP server in memory that keeps the laws of theory \<open>KvEngine\<close>, and an engine on it: the concrete setting
  for statements about the RESP engine.
\<close>

section \<open>A RESP server in memory\<close>

type_synonym mem = "(bytes, bytes) fmap \<times> (bytes \<times> bytes, bytes) fmap"

definition shown :: "bytes option \<Rightarrow> bytes option" where
  "shown r = Option.bind r (\<lambda>v. if short v then Some v else None)"

definition intResp :: "bool \<Rightarrow> Resp" where
  "intResp b = Resp (CHR '':'') None (if b then 1 else 0) None"

definition errResp :: Resp where
  "errResp = Resp (CHR ''-'') (Some ''ERR'') 0 None"

fun memServe :: "bytes list \<Rightarrow> mem \<Rightarrow> Resp \<times> mem" where
  "memServe (verb # k # args) (m, h) =
     (let row = shown (fmlookup m k)
      in if verb = ''GET'' then (rowReply row, (m, h))
         else if verb = ''DEL'' then (intResp (row \<noteq> None), (fmdrop k m, h))
         else
           case args of
             [] \<Rightarrow> (errResp, (m, h))
           | f # rest \<Rightarrow>
               let cell = shown (fmlookup h (k, f))
               in if verb = ''SET'' then
                    (if odd (length rest) \<and> row \<noteq> None then (rowReply None, (m, h)) else (okReply, (fmupd k f m, h)))
                  else if verb = ''HGET'' then (rowReply cell, (m, h))
                  else if verb = ''HDEL'' then (intResp (cell \<noteq> None), (m, fmdrop (k, f) h))
                  else
                    case rest of
                      [] \<Rightarrow> (errResp, (m, h))
                    | v # _ \<Rightarrow>
                        if verb = ''HSETNX'' then
                          (if cell \<noteq> None then (intResp False, (m, h)) else (intResp True, (m, fmupd (k, f) v h)))
                        else if verb = ''HSET'' then (intResp (cell = None), (m, fmupd (k, f) v h))
                        else (errResp, (m, h)))"
| "memServe args d = (errResp, d)"

definition memServer :: "mem server" where
  "memServer = \<lparr>sv_serve = memServe, sv_str = (\<lambda>d k. shown (fmlookup (fst d) k)), sv_fld = (\<lambda>d kf. shown (fmlookup (snd d) kf))\<rparr>"

lemma shown_Some [simp]: "shown (Some v) = (if short v then Some v else None)" "shown None = None"
  by (simp_all add: shown_def)

lemma memReply_ok [simp]: "resp_ok errResp" "resp_ok okReply" "resp_ok (intResp b)" "resp_ok (rowReply (shown r))"
  "resp_ok (rowReply None)"
  by (cases r; simp add: errResp_def okReply_def intResp_def rowReply_def bulk_def in_i64_def short_def)+

lemma memServe_ok: "resp_ok (fst (memServe args d))"
  by (cases "(args, d)" rule: memServe.cases) (simp_all add: Let_def split: list.split)

lemma mem_strings: "string_laws memServe (\<lambda>d k. shown (fmlookup (fst d) k))"
  unfolding string_laws_def setEffect_def by (auto simp: setArgs_def intResp_def fun_eq_iff simp del: not_None_eq)

lemma mem_hashes: "hash_laws memServe (\<lambda>d kf. shown (fmlookup (snd d) kf))"
  unfolding hash_laws_def by (auto simp: intResp_def fun_eq_iff simp del: not_None_eq)

lemma mem_laws: "kv_laws (netOf memServe) memServer s"
  using serves_netOf [of memServe, OF memServe_ok] mem_strings mem_hashes by (simp add: kv_laws_def memServer_def)

text \<open>A new engine on that server, in the hash layout.\<close>

definition demoKv :: "mem KvStore" where
  "demoKv = \<lparr>ks_d = (fmempty, fmempty), ks_cache = newKvCache 100000 5000, ks_dirty = (\<lambda>_. fmempty), ks_instance = 0,
     ks_prefix = ALPHABET ! 0, ks_layoutHash = True, ks_buckets = 1000000, ks_stopped = False, ks_counters = initMetrics 0\<rparr>"

definition demoKvEnv :: kv_env where
  "demoKvEnv = \<lparr>kRt = det_rt, kTrack = True, kClk = (\<lambda>_. 1000), kUs = 10, kDraws = [], kManyDraws = (\<lambda>_. []),
     kRetryClk = (\<lambda>_ _. 1000), kRetryDraws = (\<lambda>_. []), kFuel = 10\<rparr>"

lemma kvOk_empty:
  assumes "cell sv s = (\<lambda>_. None)" and "\<And>c. cacheEntry c (ks_cache s) = None" and "cache_ok (ks_cache s)" and "ks_prefix s \<in> set ALPHABET"
  shows "kvOk now sv s"
  using assms by (simp add: kvOk_def kvFaithful_def)

lemma demoKv_prefix: "ks_prefix demoKv \<in> set ALPHABET"
  by (simp add: demoKv_def ALPHABET_def)

lemma demoKv_ok: "kvOk now memServer demoKv" and demoKv_view: "kvView memServer demoKv c = None"
proof -
  have c: "cell memServer demoKv = (\<lambda>_. None)" by (simp add: cell_def fun_eq_iff memServer_def demoKv_def)
  show "kvOk now memServer demoKv"
    by (rule kvOk_empty [OF c]) (simp_all add: demoKv_def cache_ok_new ALPHABET_def)
  show "kvView memServer demoKv c = None" using c by (simp add: kvView_def rowView_def)
qed

end
