(* ===== verification/Engines.thy ===== *)
theory Engines
  imports Service PebbleRun KvMem
begin

text \<open>
  The HTTP handler over the two key-value engines. Both are families of instances of the store interface,
  one for each clock and source of random bytes, so what theory \<open>App\<close> shows of a family holds of them.
\<close>

section \<open>The engines as families\<close>

interpretation pebble_family: store_family "pebbleAPI db" "pbView content"
  "\<lambda>e s. pebble_laws db content \<and> in_i64 (pClk e 0) \<and> pbOk content s" "\<lambda>_. True" "\<lambda>_. True" "\<lambda>_. True"
  "\<lambda>e. pClk e 0" "\<lambda>e. max (pClk e 0) (pClk e 1)"
  for db content
  by unfold_locales

section \<open>Created links redirect, over every engine\<close>

text \<open>Beside other writers the cache of an instance may still hold what the code stood for earlier; alone it does not.\<close>

lemma kvOk_cache_silent:
  assumes "kvOk now sv s" and "kvFitsCode code" and "cell sv s code = None" and "now \<le> now'"
  shows "fst (cacheGet now' code (ks_cache s)) = None"
proof (rule ccontr)
  assume "\<not> ?thesis"
  then obtain u e where "fst (cacheGet now' code (ks_cache s)) = Some (u, e)" by force
  then obtain ent where "cacheEntry code (ks_cache s) = Some ent" "ce_e ent = 0 \<or> now' < ce_e ent" by (auto simp: cacheGet_Some)
  then have "kvView sv s code \<noteq> None" using assms(1,4) by (force simp: kvOk_def kvFaithful_def)
  then show False using assms(2,3) by (simp add: kvView_fits rowView_def)
qed

text \<open>The link of a 201 is the row on the server.\<close>

lemma kv_created:
  assumes "Handle env (kvAPI net e) ''POST'' ''/api/shorten'' body token client a = Some (r, a')" and "Status1 r = 201"
    and "kv_laws net sv (appStore a)" and "ks_prefix (appStore a) \<in> set ALPHABET" and "in_i64 (kClk e 0)"
    and "\<forall>p. unmarshalShorten env body = Some p \<longrightarrow> in_i64 (newTTL env p)"
  obtains code url ttl where "acknowledges env body r code url ttl" and "kvFitsCode code" and "kv_laws net sv (appStore a')"
    and "cell sv (appStore a) code = None" and "cell sv (appStore a') code = Some (encVal (expiry (kClk e 0) ttl) (kClk e 0) url)"
    and "ks_cache (appStore a') = ks_cache (appStore a)"
proof -
  obtain p b b' where h: "unmarshalShorten env body = Some p" "appStore b = appStore a"
    "shortenOne env (kvAPI net e) p b = Some (r, b')" "appStore b' = appStore a'"
    using Handle_created [OF assms(1,2)] by blast
  obtain url code al hasAlias where o: "rqURL p = Some url" "isValidURL env url" "r = json 201 (createdBody code)" "code \<noteq> []"
    "(al, hasAlias) = (case rqAlias p of None \<Rightarrow> ([], False) | Some al \<Rightarrow> (al, True))"
    "\<forall>x. rqAlias p = Some x \<longrightarrow> codeOK x"
    "apiShorten (kvAPI net e) url al hasAlias (newTTL env p) (appStore a) = Some (code, appStore a')"
    using shortenOne_created [OF h(3) assms(2)] h(2,4) by metis
  have al: "codeOK al" if hasAlias using o(5,6) that by (auto split: option.splits)
  then have fit: "hasAlias \<longrightarrow> kvFitsCode al" using kv_api.fits_code by blast
  have sh: "kvShorten net (kClk e) (kDraws e) url al hasAlias (newTTL env p) (appStore a) = Some (code, appStore a')"
    using o(7) by (simp add: kvAPI_def)
  have ttl: "in_i64 (newTTL env p)" using assms(6) h(1) by blast
  have "kvFitsURL url" using o(2) by (simp add: isValidURL_def kvFitsURL_def split: if_splits)
  from kvShorten_cell [OF assms(3,4) fit this assms(5) ttl sh o(4)]
  obtain d where c: "if hasAlias then code = al else length code = codeLen \<and> set code \<subseteq> set ALPHABET" "kvFitsCode code"
    "appStore a' = (ksCount StoreWrite (appStore a))\<lparr>ks_d := d\<rparr>"
    "nxWritten True (newTTL env p) code (encVal (expiry (kClk e 0) (newTTL env p)) (kClk e 0) url) (cell sv (appStore a)) (cell sv (appStore a'))"
    by blast
  have "codeOK code" using c(1) al codeOK_generated by (cases hasAlias) auto
  then have "acknowledges env body r code url (newTTL env p)" using h(1) o(1-3) by (simp add: acknowledges_def json_def)
  then show thesis by (rule that) (use c assms(3) in \<open>simp_all add: nxWritten_def\<close>)
qed

text \<open>C8. End to end over the RESP engine, in either key layout, over any server that answers its commands as
  documented, and whatever the cache holds: when \<open>POST /api/shorten\<close> answers 201 the url was valid and the body names a code
  that had no row; if nothing changes the row, then until the link expires \<open>GET /code\<close> on this instance answers 302, the code \<open>metrics\<close>
  excepted, whose path is taken. The location is the
  submitted url, unless the cache of the instance still answers for the code: \<open>Shorten\<close> does not drop it, so a code that
  was cached here, removed by another instance and created again here redirects to its old url as long as the
  cache entry lives. An instance whose cache agrees with the rows at the time of the creation, which is the
  case when nobody else writes them, always answers the submitted url.\<close>

theorem kv_shorten_then_redirect:
  assumes "Handle env (kvAPI net e) ''POST'' ''/api/shorten'' body token client a = Some (r, a')" and "Status1 r = 201"
    and "kv_laws net sv (appStore a)" and "ks_prefix (appStore a) \<in> set ALPHABET" and "in_i64 (kClk e 0)"
    and "\<forall>p. unmarshalShorten env body = Some p \<longrightarrow> in_i64 (newTTL env p)"
  shows "\<exists>code url ttl. acknowledges env body r code url ttl \<and> cell sv (appStore a) code = None
           \<and> (\<forall>e2. code \<noteq> ''metrics'' \<longrightarrow> expiry (kClk e 0) ttl = 0 \<or> kClk e2 1 < expiry (kClk e 0) ttl \<longrightarrow>
                (case fst (cacheGet (kClk e2 0) code (ks_cache (appStore a))) of
                   None \<Rightarrow> redirects (kvAPI net e2) code url (appStore a')
                 | Some (old, _) \<Rightarrow> redirects (kvAPI net e2) code old (appStore a'))
                \<and> (kvOk (kClk e 0) sv (appStore a) \<longrightarrow> kClk e 0 \<le> kClk e2 0 \<longrightarrow> redirects (kvAPI net e2) code url (appStore a')))"
proof -
  obtain code url ttl where c: "acknowledges env body r code url ttl" "kvFitsCode code" "kv_laws net sv (appStore a')"
    "cell sv (appStore a) code = None" "cell sv (appStore a') code = Some (encVal (expiry (kClk e 0) ttl) (kClk e 0) url)"
    "ks_cache (appStore a') = ks_cache (appStore a)"
    by (rule kv_created [OF assms]) (rule that)
  have ok: "codeOK code" using c(1) by (simp add: acknowledges_def)
  have v: "decVal (encVal (expiry (kClk e 0) ttl) (kClk e 0) url) = Some (expiry (kClk e 0) ttl, kClk e 0, url)"
    using assms(5) by (simp add: decVal_encVal)
  have get: "redirects (kvAPI net e2) code (case fst (cacheGet (kClk e2 0) code (ks_cache (appStore a))) of None \<Rightarrow> url | Some (u, _) \<Rightarrow> u) (appStore a')"
    if "code \<noteq> ''metrics''" "expiry (kClk e 0) ttl = 0 \<or> kClk e2 1 < expiry (kClk e 0) ttl" for e2
    using kv_resolve_row [OF c(3,2,5) v that(2)] redirects_resolved [OF _ ok that(1), of "kvAPI net e2"] c(6) by (auto simp: kvAPI_def)
  have silent: "fst (cacheGet (kClk e2 0) code (ks_cache (appStore a))) = None"
    if "kvOk (kClk e 0) sv (appStore a)" "kClk e 0 \<le> kClk e2 0" for e2
    by (rule kvOk_cache_silent [OF that(1) c(2,4) that(2)])
  have "(case fst (cacheGet (kClk e2 0) code (ks_cache (appStore a))) of
                   None \<Rightarrow> redirects (kvAPI net e2) code url (appStore a')
                 | Some (old, _) \<Rightarrow> redirects (kvAPI net e2) code old (appStore a'))
       \<and> (kvOk (kClk e 0) sv (appStore a) \<longrightarrow> kClk e 0 \<le> kClk e2 0 \<longrightarrow> redirects (kvAPI net e2) code url (appStore a'))"
    if "code \<noteq> ''metrics''" "expiry (kClk e 0) ttl = 0 \<or> kClk e2 1 < expiry (kClk e 0) ttl" for e2
    using get [OF that] silent [of e2] by (cases "fst (cacheGet (kClk e2 0) code (ks_cache (appStore a)))") auto
  with c(1,4) show ?thesis by blast
qed

text \<open>The first request to a handler over the engine in memory.\<close>

definition demoKvApp :: "mem KvStore app" where
  "demoKvApp = \<lparr>appStore = demoKv, appLimiter = newLimiter 1 2, appLimited = 0, appMetrics = initMetrics 0\<rparr>"

lemma demoKv_created:
  "\<exists>a'. Handle demoEnv (kvAPI (netOf memServe) demoKvEnv) ''POST'' ''/api/shorten'' ''http://x'' [] ''10.0.0.1'' demoKvApp
     = Some (json 201 (createdBody ''al''), a')"
proof -
  have al: "kvFitsCode ''al''" "kvFitsURL ''http://x''" by (simp_all add: kvFitsCode_def HasPrefix_def kvFitsURL_def)
  have "\<exists>s'. apiShorten (kvAPI (netOf memServe) demoKvEnv) ''http://x'' ''al'' True 60000 demoKv = Some (''al'', s')"
    using kv_alias [OF mem_laws demoKv_ok al, where clk = "kClk demoKvEnv" and ttl = 60000 and draws = "kDraws demoKvEnv"] demoKv_view
    by (auto simp: kvAPI_def demoKvEnv_def in_i64_def kvFitsTTL_def)
  then show ?thesis using Handle_demo_any [of "kvAPI (netOf memServe) demoKvEnv" demoKvApp] by (auto simp: demoKvApp_def)
qed

theorem kv_shorten_then_redirect_witness:
  "\<exists>a' r2 b'. Handle demoEnv (kvAPI (netOf memServe) demoKvEnv) ''POST'' ''/api/shorten'' ''http://x'' [] ''10.0.0.1'' demoKvApp
         = Some (json 201 (createdBody ''al''), a')
     \<and> Handle demoEnv (kvAPI (netOf memServe) demoKvEnv) ''GET'' ''/al'' [] [] [] a' = Some (r2, b') \<and> Location r2 = ''http://x''"
proof -
  let ?api = "kvAPI (netOf memServe) demoKvEnv"
  obtain a' where h: "Handle demoEnv ?api ''POST'' ''/api/shorten'' ''http://x'' [] ''10.0.0.1'' demoKvApp
      = Some (json 201 (createdBody ''al''), a')" using demoKv_created by blast
  have hyp: "kv_laws (netOf memServe) memServer (appStore demoKvApp)" "ks_prefix (appStore demoKvApp) \<in> set ALPHABET"
    "in_i64 (kClk demoKvEnv 0)" "\<forall>p. unmarshalShorten demoEnv b = Some p \<longrightarrow> in_i64 (newTTL demoEnv p)" for b
    using mem_laws demoKv_prefix by (auto simp: demoKvApp_def demoKvEnv_def demoEnv_def newTTL_def capTTL_def in_i64_def)
  have "kvOk (kClk demoKvEnv 0) memServer (appStore demoKvApp)" using demoKv_ok by (simp add: demoKvApp_def)
  with kv_shorten_then_redirect [OF h reply_status(1) hyp]
  have "redirects ?api ''al'' ''http://x'' (appStore a')"
    by (auto simp: demo_acknowledges demoKvEnv_def expiry_def i64_id in_i64_def)
  then show ?thesis using h redirects_demo by blast
qed

text \<open>C9. End to end over the embedded database: when \<open>POST /api/shorten\<close> answers 201 the body names a code, and
  until the link expires \<open>GET /code\<close> answers 302 with exactly the submitted url (the code \<open>metrics\<close> excepted, whose
  path is taken). The cache agrees with the rows, as it does in every state of a run of the engine, which is
  alone on its database.\<close>

theorem pebble_shorten_then_redirect:
  assumes "Handle env (pebbleAPI db e) ''POST'' ''/api/shorten'' body token client a = Some (r, a')" and "Status1 r = 201"
    and "pebble_laws db content" and "pbOk content (appStore a)" and "in_i64 (pClk e 0)"
  shows "\<exists>code url ttl. acknowledges env body r code url ttl
           \<and> (\<forall>e2. in_i64 (pClk e2 0) \<longrightarrow> code \<noteq> ''metrics''
                \<longrightarrow> expiry (pClk e 0) ttl = 0 \<or> max (pClk e2 0) (pClk e2 1) < expiry (pClk e 0) ttl
                \<longrightarrow> redirects (pebbleAPI db e2) code url (appStore a'))"
proof -
  have ok: "pebble_laws db content \<and> in_i64 (pClk e 0) \<and> pbOk content (appStore a)" using assms(3-5) by simp
  have ttl: "\<forall>p. unmarshalShorten env body = Some p \<longrightarrow> True" by simp
  obtain code url ttl where c: "acknowledges env body r code url ttl"
    "pebble_laws db content \<and> in_i64 (pClk e 0) \<and> pbOk content (appStore a')"
    and get: "\<And>e2. pebble_laws db content \<and> in_i64 (pClk e2 0) \<and> pbOk content (appStore a') \<Longrightarrow> code \<noteq> ''metrics''
        \<Longrightarrow> expiry (pClk e 0) ttl = 0 \<or> max (pClk e2 0) (pClk e2 1) < expiry (pClk e 0) ttl
        \<Longrightarrow> redirects (pebbleAPI db e2) code url (appStore a')"
    by (rule pebble_family.end_to_end [OF assms(1,2) ok ttl]) (rule that)
  then show ?thesis by blast
qed

definition demoPbApp :: "(bytes, bytes) fmap PebbleStore app" where
  "demoPbApp = \<lparr>appStore = the (NewPebble True (Some fmempty) 0 100000 5000 0), appLimiter = newLimiter 1 2, appLimited = 0,
     appMetrics = initMetrics 0\<rparr>"

lemma demoPbApp_ok: "pbOk fmlookup (appStore demoPbApp)" and demoPbApp_view: "pbView fmlookup (appStore demoPbApp) c = None"
proof -
  show "pbOk fmlookup (appStore demoPbApp)" unfolding demoPbApp_def
    by (simp, rule pbInv_pbOk [of _ 0], rule pbInv_new [of fmempty 0 100000 5000 0]) (simp_all add: NewPebble_def)
  show "pbView fmlookup (appStore demoPbApp) c = None" by (simp add: demoPbApp_def NewPebble_def pbView_def rowView_def)
qed

theorem pebble_shorten_then_redirect_witness:
  "\<exists>a' r2 b'. Handle demoEnv (pebbleAPI mapDB demoPbEnv) ''POST'' ''/api/shorten'' ''http://x'' [] ''10.0.0.1'' demoPbApp
         = Some (json 201 (createdBody ''al''), a')
     \<and> Handle demoEnv (pebbleAPI mapDB demoPbEnv) ''GET'' ''/al'' [] [] [] a' = Some (r2, b') \<and> Location r2 = ''http://x''"
proof -
  have clk: "in_i64 (pClk demoPbEnv 0)" by (simp add: demoPbEnv_def in_i64_def)
  have "\<exists>s'. apiShorten (pebbleAPI mapDB demoPbEnv) ''http://x'' ''al'' True 60000 (appStore demoPbApp) = Some (''al'', s')"
    using pb_alias [where clk = "pClk demoPbEnv", OF mapDB_laws demoPbApp_ok clk, of "pDraws demoPbEnv" "''http://x''" "''al''" 60000] demoPbApp_view
    by (auto simp: pebbleAPI_def)
  moreover have "appLimiter demoPbApp = newLimiter 1 2" by (simp add: demoPbApp_def)
  ultimately obtain a' where h: "Handle demoEnv (pebbleAPI mapDB demoPbEnv) ''POST'' ''/api/shorten'' ''http://x'' [] ''10.0.0.1'' demoPbApp
      = Some (json 201 (createdBody ''al''), a')"
    using Handle_demo_any [of "pebbleAPI mapDB demoPbEnv" demoPbApp] by blast
  from pebble_shorten_then_redirect [OF h reply_status(1) mapDB_laws demoPbApp_ok clk]
  have "redirects (pebbleAPI mapDB demoPbEnv) ''al'' ''http://x'' (appStore a')"
    by (auto simp: demo_acknowledges demoPbEnv_def expiry_def i64_id in_i64_def)
  then show ?thesis using h redirects_demo by blast
qed

section \<open>Several engines on one server\<close>

text \<open>C13. Instances on one RESP server cannot both create an alias, although neither knows the other: once an
  instance was given the alias, any other instance of the same layout that asks the same server gets the
  refusal, whatever its own cache holds, and the row stays the first one's.\<close>

theorem kv_alias_exclusive:
  assumes "kv_laws net sv s" and "kvFitsCode al" and "kvFitsURL url" and "in_i64 (clk 0)" and "in_i64 ttl"
    and "kvShorten net clk draws url al True ttl s = Some (code, s1)" and "code \<noteq> []"
    and "ks_d s2 = ks_d s1" and "ks_layoutHash s2 = ks_layoutHash s1" and "ks_buckets s2 = ks_buckets s1"
    and "kvFitsURL url2" and "in_i64 (clk2 0)" and "in_i64 ttl2"
  shows "\<exists>s3. kvShorten net clk2 draws2 url2 al True ttl2 s2 = Some ([], s3) \<and> cell sv s3 = cell sv s2
           \<and> cell sv s2 al = Some (encVal (expiry (clk 0) ttl) (clk 0) url)"
proof -
  let ?s = "ksCount StoreWrite s" and ?s2 = "ksCount StoreWrite s2"
  have l1: "kv_laws net sv ?s" using assms(1) by simp
  obtain st d where d: "putNX net (expiry (clk 0) ttl) (clk 0) url ttl al ?s = Some (Inr st, ?s\<lparr>ks_d := d\<rparr>)"
    "nxWritten st ttl al (encVal (expiry (clk 0) ttl) (clk 0) url) (cell sv ?s) (cell sv (?s\<lparr>ks_d := d\<rparr>))"
    using putNX_cell [OF l1 assms(2-5)] by blast
  then have s1: st "s1 = ?s\<lparr>ks_d := d\<rparr>" using assms(6,7) by (auto simp: kvShorten_def Let_def split: if_splits)
  have "cell sv s2 = cell sv s1" using assms(8-10) by (auto simp: cell_def bkey_def fun_eq_iff)
  then have c2: "cell sv ?s2 al = Some (encVal (expiry (clk 0) ttl) (clk 0) url)" using d(2) s1 by (simp add: nxWritten_def)
  have l2: "kv_laws net sv ?s2" using assms(1,9) s1(2) by (simp add: kv_laws_def ksCount_def)
  obtain st2 d2 where d2: "putNX net (expiry (clk2 0) ttl2) (clk2 0) url2 ttl2 al ?s2 = Some (Inr st2, ?s2\<lparr>ks_d := d2\<rparr>)"
    "nxWritten st2 ttl2 al (encVal (expiry (clk2 0) ttl2) (clk2 0) url2) (cell sv ?s2) (cell sv (?s2\<lparr>ks_d := d2\<rparr>))"
    using putNX_cell [OF l2 assms(2,11-13)] by blast
  then have "\<not> st2" "cell sv (?s2\<lparr>ks_d := d2\<rparr>) = cell sv ?s2" using c2 by (auto simp: nxWritten_def split: if_splits)
  then show ?thesis using c2 d2(1) by (simp add: kvShorten_def Let_def)
qed

text \<open>A second instance, on the server as the first one left it.\<close>

theorem kv_alias_exclusive_witness:
  "\<exists>s1 s3. kvShorten (netOf memServe) (\<lambda>_. 1000) [] ''http://x'' ''al'' True 60000 demoKv = Some (''al'', s1)
     \<and> kvShorten (netOf memServe) (\<lambda>_. 1001) [] ''http://y'' ''al'' True 60000 (demoKv\<lparr>ks_d := ks_d s1, ks_prefix := CHR ''1''\<rparr>)
       = Some ([], s3)"
proof -
  let ?net = "netOf memServe" and ?clk = "\<lambda>_ :: nat. 1000 :: int" and ?clk2 = "\<lambda>_ :: nat. 1001 :: int"
  have f: "kvFitsCode ''al''" "kvFitsURL ''http://x''" "kvFitsURL ''http://y''"
    by (simp_all add: kvFitsCode_def HasPrefix_def kvFitsURL_def)
  have i: "in_i64 (?clk 0)" "in_i64 (?clk2 0)" "in_i64 60000" by (simp_all add: in_i64_def)
  obtain s1 where s1: "kvShorten ?net ?clk [] ''http://x'' ''al'' True 60000 demoKv = Some (''al'', s1)"
    using kv_alias [where clk = ?clk, OF mem_laws demoKv_ok f(1,2) i(1), of 60000 "[]"] demoKv_view i(3) by (auto simp: kvFitsTTL_def)
  then have "ks_layoutHash s1 = ks_layoutHash demoKv \<and> ks_buckets s1 = ks_buckets demoKv"
    by (auto simp: kvShorten_def putNX_def call_def ksCount_def Let_def split: if_splits)
  then obtain s3 where "kvShorten ?net ?clk2 [] ''http://y'' ''al'' True 60000 (demoKv\<lparr>ks_d := ks_d s1, ks_prefix := CHR ''1''\<rparr>) = Some ([], s3)"
    using kv_alias_exclusive [where clk = ?clk and ?clk2.0 = ?clk2 and ?draws2.0 = "[]"
          and ?s2.0 = "demoKv\<lparr>ks_d := ks_d s1, ks_prefix := CHR ''1''\<rparr>",
        OF mem_laws f(1,2) i(1,3) s1 _ _ _ _ f(3) i(2,3)] by auto
  with s1 show ?thesis by blast
qed

end
