(* ===== verification/KvRun.thy ===== *)
theory KvRun
  imports Engines
begin

text \<open>
  Runs of one RESP engine while other instances and the server itself change the rows. The cache then lags
  behind, and the question is by how much. A run records every row table the engine read, with the time
  it stamped on the cache; the invariant says that what the cache holds was read at its stamp.
\<close>

section \<open>What the operations do to the cache\<close>

lemma call_frame:
  assumes "call f s = Some (r, s')"
  shows "ks_cache s' = ks_cache s" and "ks_layoutHash s' = ks_layoutHash s"
  using assms by (auto simp: call_def)

lemma putNX_frame:
  assumes "putNX net exp now url ttl code s = Some (r, s')"
  shows "ks_cache s' = ks_cache s" and "ks_layoutHash s' = ks_layoutHash s"
  using assms by (auto simp: putNX_def dest: call_frame split: if_splits)

lemma kvFresh_frame:
  assumes "kvFresh net exp now url ttl rs s = Some (c, s')"
  shows "ks_cache s' = ks_cache s \<and> ks_layoutHash s' = ks_layoutHash s"
  using assms
proof (induction rs arbitrary: s)
  case (Cons r rs)
  obtain res s1 where p: "putNX net exp now url ttl (kvRandCode r s) s = Some (res, s1)"
    using Cons(2) by (auto simp: Let_def split: bind_splits)
  note f = putNX_frame [OF p]
  show ?case
  proof (cases res)
    case (Inl e)
    then show ?thesis using Cons(2) p f by (simp add: Let_def)
  next
    case (Inr ok)
    then show ?thesis using Cons(1) [of s1] Cons(2) p f by (auto simp: Let_def split: if_splits)
  qed
qed simp

lemma kvShorten_frame:
  assumes "kvShorten net clk draws url al hasAlias ttl s = Some (c, s')"
  shows "ks_cache s' = ks_cache s \<and> ks_layoutHash s' = ks_layoutHash s"
  using assms putNX_frame kvFresh_frame
  by (fastforce simp: kvShorten_def Let_def ksCount_def split: if_splits)

text \<open>The operations below leave the cache alone, or drop the code they change.\<close>

definition cacheKept :: "'d KvStore \<Rightarrow> 'd KvStore \<Rightarrow> bool" where
  "cacheKept s s' \<longleftrightarrow> ks_layoutHash s' = ks_layoutHash s \<and> (ks_cache s' = ks_cache s \<or> (\<exists>code. ks_cache s' = cacheRemove code (ks_cache s)))"

lemma foldOpt_frame:
  assumes "foldOpt f xs st = Some st'" and "\<And>x a b. f x a = Some b \<Longrightarrow> P a b" and "\<And>a. P a a" and "\<And>a b c. P a b \<Longrightarrow> P b c \<Longrightarrow> P a c"
  shows "P st st'"
  using assms(1)
proof (induction xs arbitrary: st)
  case Nil
  then show ?case using assms(3) by simp
next
  case (Cons x xs)
  then obtain st1 where "f x st = Some st1" "foldOpt f xs st1 = Some st'" by (auto split: bind_splits)
  then show ?case using Cons(1) assms(2,4) by blast
qed

lemma kvShortenMany_frame:
  assumes "kvShortenMany net env urls ttl s = Some (codes, s')"
  shows "ks_cache s' = ks_cache s \<and> ks_layoutHash s' = ks_layoutHash s"
proof -
  let ?P = "\<lambda>(_ :: bytes list, a :: 'a KvStore) (_ :: bytes list, b). ks_cache b = ks_cache a \<and> ks_layoutHash b = ks_layoutHash a"
  obtain cmds res s1 retry codes0 where p: "call (pipe net cmds) s = Some (res, s1)"
    and f: "foldOpt (\<lambda>i (codes, s). map_option (\<lambda>(c, s). (codes[i := c], s))
        (kvShorten net (kRetryClk env i) (kRetryDraws env i) (urls ! i) [] False ttl s)) retry (codes0, s1) = Some (codes, s')"
    using assms unfolding kvShortenMany_def Let_def by (auto split: bind_splits)
  have "?P (codes0, s1) (codes, s')"
    by (rule foldOpt_frame [OF f]) (use kvShorten_frame in \<open>fastforce split: prod.splits\<close>)+
  then show ?thesis using call_frame [OF p] by simp
qed

lemma kept_same: "ks_cache s' = ks_cache s \<Longrightarrow> ks_layoutHash s' = ks_layoutHash s \<Longrightarrow> cacheKept s s'"
  by (simp add: cacheKept_def)

lemma kvFlushHits_frame:
  assumes "kvFlushHits net g s = Some (r, s')"
  shows "cacheKept s s'"
  using assms by (auto simp: kvFlushHits_def Let_def call_def cacheKept_def split: if_splits)

lemma kvSweepExpired_frame:
  assumes "kvSweepExpired fuel net now s = Some (r, s')"
  shows "cacheKept s s'"
  using assms by (auto simp: kvSweepExpired_def cacheKept_def split: bind_splits option.splits if_splits)

lemma kvGet_frame:
  "kvGet net code s = Some (r, s') \<Longrightarrow> ks_cache s' = ks_cache s \<and> ks_layoutHash s' = ks_layoutHash s"
  using call_frame by (fastforce simp: kvGet_def split: if_splits)

lemma kvUpdate_frame:
  assumes "kvUpdate net clk code url ttl hasTTL s = Some (m, s')"
  shows "cacheKept s s'"
proof -
  obtain v s1 where g: "kvGet net code s = Some (v, s1)" using assms by (auto simp: kvUpdate_def split: bind_splits)
  show ?thesis
    using assms g kvGet_frame [OF g]
    by (auto simp: kvUpdate_def Let_def call_def cacheKept_def split: sum.splits option.splits if_splits prod.splits)
qed

lemma kvRemove_frame:
  assumes "kvRemove net code s = Some (m, s')"
  shows "cacheKept s s'"
  using assms
  by (auto simp: kvRemove_def Let_def call_def cacheKept_def split: sum.splits if_splits bind_splits prod.splits)

section \<open>Runs beside other writers\<close>

text \<open>The state of a run: the tables read so far with the stamp each read put on the cache, and the engine. A
  resolution reads the server only when the cache does not answer.
  \<open>Others\<close> is anything that happens on the server, another instance's writes and the server's own
  expiry included.\<close>

type_synonym reads = "(int \<times> (bytes \<Rightarrow> (bytes \<times> int) option)) list"

definition readBy :: "'d server \<Rightarrow> kv_env \<Rightarrow> bytes \<Rightarrow> 'd KvStore \<Rightarrow> reads" where
  "readBy sv env code s = (if fst (cacheGet (kClk env 0) code (ks_cache s)) = None then [(kClk env 2, kvView sv s)] else [])"

inductive kvstep :: "'d net \<Rightarrow> 'd server \<Rightarrow> reads \<times> 'd KvStore \<Rightarrow> reads \<times> 'd KvStore \<Rightarrow> bool"
  for net sv where
  Resolve: "kvResolve net env code s = Some (r, s') \<Longrightarrow> kvFitsCode code
    \<Longrightarrow> kvstep net sv (h, s) (h @ readBy sv env code s, s')"
| Shorten: "kvShorten net clk draws url al hasAlias ttl s = Some (c, s') \<Longrightarrow> kvstep net sv (h, s) (h, s')"
| ShortenMany: "kvShortenMany net env urls ttl s = Some (cs, s') \<Longrightarrow> kvstep net sv (h, s) (h, s')"
| Update: "kvUpdate net clk code url ttl hasTTL s = Some (m, s') \<Longrightarrow> kvstep net sv (h, s) (h, s')"
| Remove: "kvRemove net code s = Some (m, s') \<Longrightarrow> kvstep net sv (h, s) (h, s')"
| FlushHits: "kvFlushHits net g s = Some (err, s') \<Longrightarrow> kvstep net sv (h, s) (h, s')"
| Sweep: "kvSweepExpired fuel net now s = Some (err, s') \<Longrightarrow> kvstep net sv (h, s) (h, s')"
| Others: "kvstep net sv (h, s) (h, s\<lparr>ks_d := d\<rparr>)"

inductive_cases kvstepE: "kvstep net sv (h, s) st"

inductive kvinit :: "'d net \<Rightarrow> 'd server \<Rightarrow> int \<Rightarrow> reads \<times> 'd KvStore \<Rightarrow> bool" for net sv ttl where
  kvinit: "kv_laws net sv s \<Longrightarrow> ks_cache s = newKvCache entries ttl \<Longrightarrow> kvinit net sv ttl ([], s)"

definition stamped :: "reads \<Rightarrow> kvCache \<Rightarrow> bool" where
  "stamped h c \<longleftrightarrow>
     (\<forall>code ent. cacheEntry code c = Some ent \<longrightarrow> (\<exists>v. (ce_at ent, v) \<in> set h \<and> v code = Some (ce_u ent, ce_e ent)))"

definition kvRunInv :: "'d net \<Rightarrow> 'd server \<Rightarrow> int \<Rightarrow> reads \<times> 'd KvStore \<Rightarrow> bool" where
  "kvRunInv net sv ttl st \<longleftrightarrow>
     kv_laws net sv (snd st) \<and> cache_ok (ks_cache (snd st)) \<and> cc_ttlMs (ks_cache (snd st)) = ttl \<and> stamped (fst st) (ks_cache (snd st))"

lemma cache_ttl [simp]:
  "cc_ttlMs (snd (cacheGet now code c)) = cc_ttlMs c" "cc_ttlMs (cachePut now code u e c) = cc_ttlMs c"
  "cc_ttlMs (cacheRemove code c) = cc_ttlMs c"
  using cacheStep_frame(2) [of "OpGet now code" c] cacheStep_frame(2) [of "OpPut now code u e" c]
    cacheStep_frame(2) [of "OpRemove code" c] by simp_all

lemma cache_ttl_new [simp]: "cc_ttlMs (newKvCache entries ttl) = ttl"
  by (simp add: newKvCache_def Let_def)

lemma stamped_sub:
  assumes "stamped h c" and "\<And>code. cacheEntry code c' \<in> {None, cacheEntry code c}"
  shows "stamped h c'"
  unfolding stamped_def
proof (intro allI impI)
  fix code ent
  assume "cacheEntry code c' = Some ent"
  then have "cacheEntry code c = Some ent" using assms(2) [of code] by auto
  then show "\<exists>v. (ce_at ent, v) \<in> set h \<and> v code = Some (ce_u ent, ce_e ent)" using assms(1) by (simp add: stamped_def)
qed

lemma stamped_more: "stamped h c \<Longrightarrow> stamped (h @ h') c"
  unfolding stamped_def by fastforce

lemma stamped_put:
  assumes "stamped h c" and "cache_ok c" and "v code = Some (u, e)"
  shows "stamped (h @ [(t, v)]) (cachePut t code u e c)"
  unfolding stamped_def
proof (intro allI impI)
  fix k ent
  assume k: "cacheEntry k (cachePut t code u e c) = Some ent"
  show "\<exists>v'. (ce_at ent, v') \<in> set (h @ [(t, v)]) \<and> v' k = Some (ce_u ent, ce_e ent)"
  proof (cases "k = code")
    case True
    then have "ent = \<lparr>ce_u = u, ce_e = e, ce_at = t\<rparr>" using k cacheEntry_put(1) [OF assms(2), of code t u e] by simp
    then show ?thesis using True assms(3) by auto
  next
    case False
    then have "cacheEntry k c = Some ent" using k cacheEntry_put(2) [OF assms(2), of k code t u e] by auto
    then show ?thesis using assms(1) by (fastforce simp: stamped_def)
  qed
qed

lemma kvRunInv_kept:
  assumes "kvRunInv net sv ttl (h, s)" and "cacheKept s s'"
  shows "kvRunInv net sv ttl (h, s')"
  using assms stamped_sub [of h "ks_cache s"] cache_ok_remove
  by (auto simp: kvRunInv_def cacheKept_def kv_laws_def cacheEntry_remove)

text \<open>A resolution answers from the cache, or from the row and fills the cache, or not at all.\<close>

lemma kvResolve_cases:
  assumes "kv_laws net sv s" and "kvFitsCode code" and "kvResolve net env code s = Some (r, s')"
  defines "c \<equiv> snd (cacheGet (kClk env 0) code (ks_cache s))"
  obtains (hit) u e where "fst (cacheGet (kClk env 0) code (ks_cache s)) = Some (u, e)" and "r = Some u" and "ks_cache s' = c"
      and "ks_layoutHash s' = ks_layoutHash s"
  | (fill) u e where "fst (cacheGet (kClk env 0) code (ks_cache s)) = None" and "kvView sv s code = Some (u, e)" and "e = 0 \<or> kClk env 1 < e" and "r = Some u"
      and "ks_cache s' = cachePut (kClk env 2) code u e c" and "ks_layoutHash s' = ks_layoutHash s"
  | (missing) "r = None" and "rowAnswer (kClk env 1) (kvView sv s code) = None" and "ks_cache s' = c" and "ks_layoutHash s' = ks_layoutHash s"
proof -
  obtain a where g: "cacheGet (kClk env 0) code (ks_cache s) = (a, c)" by (metis c_def prod.collapse)
  let ?s = "ksCount CacheMiss (s\<lparr>ks_cache := c\<rparr>)"
  have get: "kvGet net code ?s = Some (Inr (cell sv s code), ?s)"
    using kvGet_cell [of net sv ?s code] assms(1,2) by simp
  show thesis
  proof (cases a)
    case (Some x)
    then show thesis using assms(3) g by (cases x) (auto simp: kvResolve_def ksCount_def kvBump_def intro: hit split: if_splits)
  next
    case None
    show thesis
    proof (cases "rowView (cell sv s code)")
      case None
      moreover from this have "rowAnswer (kClk env 1) (kvView sv s code) = None"
        using assms(2) by (simp add: kvView_fits rowAnswer_def liveAt_def)
      ultimately have "r = None \<and> rowAnswer (kClk env 1) (kvView sv s code) = None \<and> ks_cache s' = c \<and> ks_layoutHash s' = ks_layoutHash s"
        using \<open>a = None\<close> assms(3) g get
        by (auto simp: kvResolve_def rowView_def Let_def ksCount_def split: option.splits bind_splits)
      then show thesis using missing by simp
    next
      case (Some x)
      obtain u e where x: "x = (u, e)" by (cases x)
      then obtain v cr where v: "cell sv s code = Some v" "decVal v = Some (e, cr, u)"
        using Some by (auto simp: rowView_def split: bind_splits)
      show thesis
      proof (cases "e = 0 \<or> kClk env 1 < e")
        case True
        then have "r = Some u \<and> ks_cache s' = cachePut (kClk env 2) code u e c \<and> ks_layoutHash s' = ks_layoutHash s"
          using \<open>a = None\<close> assms(3) g get v by (auto simp: kvResolve_def Let_def ksCount_def kvBump_def split: if_splits)
        moreover have "kvView sv s code = Some (u, e)" using Some x assms(2) by (simp add: kvView_fits)
        ultimately show thesis using fill True \<open>a = None\<close> g by simp
      next
        case False
        then have "r = None \<and> ks_cache s' = c \<and> ks_layoutHash s' = ks_layoutHash s"
          using \<open>a = None\<close> assms(3) g get v by (auto simp: kvResolve_def Let_def ksCount_def)
        moreover have "rowAnswer (kClk env 1) (kvView sv s code) = None"
          using False Some x assms(2) by (simp add: kvView_fits rowAnswer_def liveAt_def)
        ultimately show thesis using missing by simp
      qed
    qed
  qed
qed

lemma kvRunInv_resolve:
  assumes "kvRunInv net sv ttl (h, s)" and "kvFitsCode code" and "kvResolve net env code s = Some (r, s')"
  shows "kvRunInv net sv ttl (h @ readBy sv env code s, s')"
proof -
  let ?c = "snd (cacheGet (kClk env 0) code (ks_cache s))"
  have l: "kv_laws net sv s" and ok: "cache_ok (ks_cache s)" "stamped h (ks_cache s)" "cc_ttlMs (ks_cache s) = ttl"
    using assms(1) by (simp_all add: kvRunInv_def)
  have c: "cache_ok ?c" "stamped h ?c" using cache_ok_get [OF ok(1)] stamped_sub [OF ok(2) cacheEntry_get] by simp_all
  from l assms(2,3) show ?thesis
  proof (cases rule: kvResolve_cases)
    case (hit u e)
    then show ?thesis using c l ok(3) stamped_more by (auto simp: kvRunInv_def kv_laws_def)
  next
    case (fill u e)
    then show ?thesis using c l ok(3) cache_ok_put stamped_put [where v = "kvView sv s", OF c(2,1) fill(2)] by (auto simp: kvRunInv_def kv_laws_def readBy_def)
  next
    case missing
    then show ?thesis using c l ok(3) stamped_more by (auto simp: kvRunInv_def kv_laws_def)
  qed
qed

interpretation kv_run: invariant_system "kvinit net sv ttl" "kvstep net sv" "kvRunInv net sv ttl" for net sv ttl
proof
  fix st
  assume "kvinit net sv ttl st"
  then show "kvRunInv net sv ttl st" by cases (simp add: kvRunInv_def cache_ok_new stamped_def)
next
  fix st st'
  assume i: "kvRunInv net sv ttl st" and "kvstep net sv st st'"
  from this(2) show "kvRunInv net sv ttl st'"
  proof cases
    case (Resolve env code s r s' h)
    then show ?thesis using i kvRunInv_resolve by blast
  next
    case (Shorten clk draws url al hasAlias ttl s c s' h)
    then show ?thesis using i kvRunInv_kept kept_same kvShorten_frame by metis
  next
    case (ShortenMany env urls ttl s cs s' h)
    then show ?thesis using i kvRunInv_kept kept_same kvShortenMany_frame by metis
  next
    case (Update clk code url ttl hasTTL s m s' h)
    then show ?thesis using i kvRunInv_kept kvUpdate_frame by metis
  next
    case (Remove code s m s' h)
    then show ?thesis using i kvRunInv_kept kvRemove_frame by metis
  next
    case (FlushHits g s err s' h)
    then show ?thesis using i kvRunInv_kept kvFlushHits_frame by metis
  next
    case (Sweep fuel now s err s' h)
    then show ?thesis using i kvRunInv_kept kvSweepExpired_frame by metis
  next
    case (Others h s d)
    then show ?thesis using i by (simp add: kvRunInv_def)
  qed
qed

text \<open>C12. The staleness of a redirect over a shared server is bounded. Whatever other instances and the server do to
  the rows, an answer of \<open>Resolve\<close> is what the row says now, or what the row said at a read of this
  instance at most the configured \<open>CACHE_TTL_MS\<close> ago, and in either case the link had not
  expired; a code is called missing only if its row is missing or expired now.\<close>

theorem kv_bounded_staleness:
  assumes "kvinit net sv ttl st" and "(kvstep net sv)\<^sup>*\<^sup>* st (h, s)" and "0 < ttl" and "kvFitsCode code"
    and "kvResolve net env code s = Some (r, s')"
  shows "r = rowAnswer (kClk env 1) (kvView sv s code)
         \<or> r \<noteq> None \<and> (\<exists>t v. (t, v) \<in> set h \<and> i64 (kClk env 0 - t) \<le> ttl \<and> r = rowAnswer (kClk env 0) (v code))"
proof -
  have inv: "kvRunInv net sv ttl (h, s)" by (rule kv_run.inv_reachable [OF assms(1,2)])
  then have "kv_laws net sv s" by (simp add: kvRunInv_def)
  from this assms(4,5) show ?thesis
  proof (cases rule: kvResolve_cases)
    case (hit u e)
    then obtain ent where ent: "cacheEntry code (ks_cache s) = Some ent" "ce_u ent = u" "ce_e ent = e"
      "i64 (kClk env 0 - ce_at ent) \<le> ttl" "e = 0 \<or> kClk env 0 < e"
      using inv assms(3) by (auto simp: cacheGet_Some kvRunInv_def)
    then obtain v where v: "(ce_at ent, v) \<in> set h" "v code = Some (u, e)" using inv by (auto simp: kvRunInv_def stamped_def)
    then have "rowAnswer (kClk env 0) (v code) = Some u" using ent(5) by (auto simp: rowAnswer_def liveAt_def)
    then show ?thesis using hit(2) ent(4) v(1) by (metis option.distinct(1))
  next
    case (fill u e)
    then show ?thesis by (auto simp: rowAnswer_def liveAt_def)
  qed simp
qed

text \<open>A link is created and resolved by an engine on the server in memory.\<close>

theorem kv_bounded_staleness_witness:
  "\<exists>s s'. (kvstep (netOf memServe) memServer)\<^sup>*\<^sup>* ([], demoKv) ([], s)
     \<and> kvResolve (netOf memServe) demoKvEnv ''al'' s = Some (Some ''http://x'', s')
     \<and> rowAnswer 1000 (kvView memServer s ''al'') = Some ''http://x''"
proof -
  let ?net = "netOf memServe" and ?clk = "\<lambda>_ :: nat. 1000 :: int"
  have f: "kvFitsCode ''al''" "kvFitsURL ''http://x''" and i: "in_i64 (?clk 0)" "in_i64 60000" and e: "expiry 1000 60000 = 61000"
    by (simp_all add: kvFitsCode_def HasPrefix_def kvFitsURL_def in_i64_def expiry_def i64_id)
  obtain s where s: "kvShorten ?net ?clk [] ''http://x'' ''al'' True 60000 demoKv = Some (''al'', s)" "kvOk 1000 memServer s"
    "kvView memServer s ''al'' = Some (''http://x'', 61000)"
    using kv_alias [where clk = ?clk and now = 1000 and draws = "[]", OF mem_laws demoKv_ok f i(1), of 60000] demoKv_view e i(2) by (auto simp: kvFitsTTL_def)
  then have run: "(kvstep ?net memServer)\<^sup>*\<^sup>* ([], demoKv) ([], s)" by (blast intro: kvstep.Shorten)
  have ok: "kvOk (kClk demoKvEnv 0) memServer s" and t: "61000 = (0 :: int) \<or> max (kClk demoKvEnv 0) (kClk demoKvEnv 1) < 61000"
    using s(2) by (simp_all add: demoKvEnv_def)
  obtain s' where r: "kvResolve ?net demoKvEnv ''al'' s = Some (Some ''http://x'', s')"
    using kv_resolve_live [OF mem_laws ok f(1) s(3) t] by blast
  have "kvinit ?net memServer 5000 ([], demoKv)" by (rule kvinit.intros [OF mem_laws]) (simp add: demoKv_def)
  from kv_bounded_staleness [OF this run _ f(1) r] have "rowAnswer 1000 (kvView memServer s ''al'') = Some ''http://x''"
    by (simp add: demoKvEnv_def)
  with run r show ?thesis by blast
qed

end
