(* ===== verification/Timers.thy ===== *)
theory Timers
  imports KvRun
begin

text \<open>
  The timers that \<open>NewKV\<close> and \<open>NewPebble\<close> start: their intervals as the environment sets them, and what a tick does.
  Every tick is a step of the run relations of theories \<open>KvRun\<close> and \<open>PebbleRun\<close>, so what is shown of runs holds
  beside the timers.
\<close>

section \<open>Intervals\<close>

text \<open>\<open>time.Duration(ms) * time.Millisecond\<close>, in nanoseconds of 64 bits.\<close>

definition millis :: "int \<Rightarrow> int" where
  "millis ms = i64 (ms * 1000000)"

definition kvSweepMS :: "(bytes \<Rightarrow> bytes) \<Rightarrow> int" where
  "kvSweepMS getenv =
     (let v = getenv ''KV_SWEEP_MS''
      in if v \<noteq> [] then (case ParseInt v of (n, None) \<Rightarrow> if 50 \<le> n then n else 3600000 | _ \<Rightarrow> 3600000) else 3600000)"

text \<open>The ticker of the sweep in the hash layout; \<open>time.NewTicker\<close> panics (\<open>None\<close>) unless its interval is positive.\<close>

definition kvSweepTicker :: "(bytes \<Rightarrow> bytes) \<Rightarrow> 'd KvStore \<Rightarrow> int option option" where
  "kvSweepTicker getenv s =
     (if ks_layoutHash s
      then (let t = millis (kvSweepMS getenv) in if 0 < t then Some (Some t) else None)
      else Some None)"

definition pbSweepMS :: "(bytes \<Rightarrow> bytes) \<Rightarrow> int option" where
  "pbSweepMS getenv = (let ms = Api.envInt getenv ''PEBBLE_SWEEP_MS'' 3600000 in if 0 < ms then Some ms else None)"

text \<open>The sweep interval is never below fifty milliseconds, and the ticker starts unless the product overflows.\<close>

lemma kvSweepMS_least: "50 \<le> kvSweepMS getenv"
  by (auto simp: kvSweepMS_def Let_def split: prod.split option.split)

lemma kvSweepTicker_starts:
  assumes "kvSweepMS getenv \<le> 9223372036854"
  shows "kvSweepTicker getenv s = Some (if ks_layoutHash s then Some (kvSweepMS getenv * 1000000) else None)"
proof -
  have "in_i64 (kvSweepMS getenv * 1000000)" using assms kvSweepMS_least [of getenv] by (simp add: in_i64_def)
  then show ?thesis using kvSweepMS_least [of getenv] by (simp add: kvSweepTicker_def millis_def i64_id)
qed

text \<open>An interval of ten trillion milliseconds overflows the duration: the program panics when it starts the ticker.\<close>

lemma kvSweepTicker_overflow:
  assumes "getenv ''KV_SWEEP_MS'' = ''10000000000000''" and "ks_layoutHash s"
  shows "kvSweepTicker getenv s = None"
proof -
  have "FormatInt 10000000000000 = ''10000000000000''" by (simp add: FormatInt_def fmt_nat.simps digit_chars)
  then have "ParseInt ''10000000000000'' = (10000000000000, None)"
    using ParseInt_FormatInt [of 10000000000000] by (simp add: in_i64_def)
  then have "kvSweepMS getenv = 10000000000000" using assms(1) by (simp add: kvSweepMS_def)
  moreover have "millis 10000000000000 \<le> 0" by (simp add: millis_def i64_def)
  ultimately show ?thesis using assms(2) by (simp add: kvSweepTicker_def Let_def)
qed

section \<open>Ticks\<close>

datatype engineTick = HitsTick | SweepTick

fun kvTick :: "nat \<Rightarrow> 'd net \<Rightarrow> gort \<Rightarrow> int \<Rightarrow> engineTick \<Rightarrow> 'd KvStore \<Rightarrow> 'd KvStore option" where
  "kvTick fuel net g now HitsTick s = map_option snd (kvFlushHits net g s)"
| "kvTick fuel net g now SweepTick s =
     (if ks_layoutHash s then map_option snd (kvSweepExpired fuel net now s) else Some s)"

fun pbTick :: "'d pebble \<Rightarrow> gort \<Rightarrow> (bytes \<Rightarrow> bytes) \<Rightarrow> int \<Rightarrow> engineTick \<Rightarrow> 'd PebbleStore \<Rightarrow> 'd PebbleStore" where
  "pbTick db g getenv now HitsTick s = pbFlushHits db g s"
| "pbTick db g getenv now SweepTick s = (if pbSweepMS getenv \<noteq> None then pbSweepExpired db now s else s)"

text \<open>A tick is a step of the run relation, or changes nothing.\<close>

lemma kvTick_step: "kvTick fuel net g now t s = Some s' \<Longrightarrow> (kvstep net sv)\<^sup>=\<^sup>= (h, s) (h, s')"
  by (cases t) (auto split: if_splits intro: kvstep.FlushHits kvstep.Sweep)

lemma pbTick_step: "now \<le> now' \<Longrightarrow> now \<le> t \<Longrightarrow> t \<le> now' \<Longrightarrow> pbstep db (now, s) (now', pbTick db g getenv t k s) \<or> pbTick db g getenv t k s = s"
  by (cases k) (auto intro: pbstep.Flush pbstep.Sweep)

text \<open>The invariant of the runs of the KV engine holds after any number of ticks.\<close>

lemma kvTicks_inv:
  assumes "kvRunInv net sv ttl (h, s)" and "foldOpt (\<lambda>(now, t). kvTick fuel net g now t) ts s = Some s'"
  shows "kvRunInv net sv ttl (h, s')"
proof (rule foldOpt_inv [OF assms(2), where P = "\<lambda>s. kvRunInv net sv ttl (h, s)", OF assms(1)])
  fix x s1 s2
  assume "kvRunInv net sv ttl (h, s1)" and "(case x of (now, t) \<Rightarrow> kvTick fuel net g now t) s1 = Some s2"
  moreover from this(2) obtain now t where "kvTick fuel net g now t s1 = Some s2" by (cases x) simp
  ultimately show "kvRunInv net sv ttl (h, s2)" using kvTick_step [of fuel net g now t s1 s2 sv h] kv_run.inv_step by auto
qed

end
