(* ===== verification/KvBulk.thy ===== *)
theory KvBulk
  imports KvMem
begin

text \<open>
  \<open>ShortenMany\<close> of the RESP engine: one pipeline of conditional writes, then a retry for each code that was
  taken, be it by an older link or by an earlier url of the same batch.
\<close>

section \<open>One conditional write on the server\<close>

lemma bulkArgs_set:
  "\<not> ks_layoutHash s \<Longrightarrow> bulkArgs exp now ttl s c u = setArgs (lkey c) (encVal exp now u) ttl True"
  by (simp add: bulkArgs_def setArgs_def)

lemma bulkStored_frame [simp]: "bulkStored (s\<lparr>ks_d := d\<rparr>) = bulkStored s" "bulkArgs e t ttl (s\<lparr>ks_d := d\<rparr>) = bulkArgs e t ttl s"
  by (auto simp: bulkStored_def bulkArgs_def bkey_def fun_eq_iff)

lemma bulk_cell:
  assumes "kv_laws net sv s" and "kvFitsCode c" and "kvFitsURL u" and "in_i64 t"
  shows "\<exists>r d. sv_serve sv (bulkArgs (expiry t ttl) t ttl s c u) (ks_d s) = (r, d)
           \<and> nxWritten (bulkStored s r) ttl c (encVal (expiry t ttl) t u) (cell sv s) (cell sv (s\<lparr>ks_d := d\<rparr>))"
proof -
  let ?v = "encVal (expiry t ttl) t u"
  have v: "short ?v" using assms(3,4) by (simp add: short_encVal)
  show ?thesis
  proof (cases "ks_layoutHash s")
    case True
    then have l: "hash_laws (sv_serve sv) (sv_fld sv)" using assms(1) by (simp add: kv_laws_def)
    obtain d where d: "sv_serve sv [''HSETNX'', bkey s c, c, ?v] (ks_d s)
          = (Resp (CHR '':'') None (if sv_fld sv (ks_d s) (bkey s c, c) \<noteq> None then 0 else 1) None, d)"
        "sv_fld sv d = (if sv_fld sv (ks_d s) (bkey s c, c) \<noteq> None then sv_fld sv (ks_d s)
           else (sv_fld sv (ks_d s))((bkey s c, c) \<mapsto> ?v))"
      using hash_lawsD(2) [OF l short_keys(5,1) [OF assms(2)] v] by blast
    have "cell sv s c = sv_fld sv (ks_d s) (bkey s c, c)" using True by (simp add: cell_def)
    then have "nxWritten (cell sv s c = None) ttl c ?v (cell sv s) (cell sv (s\<lparr>ks_d := d\<rparr>))"
      using d(2) cell_write(1) [OF True] cell_keep(1) [OF True] by (cases "cell sv s c") (simp_all add: nxWritten_def)
    then show ?thesis using True d(1) \<open>cell sv s c = _\<close> by (cases "sv_fld sv (ks_d s) (bkey s c, c)") (simp_all add: bulkArgs_def bulkStored_def)
  next
    case False
    then have l: "string_laws (sv_serve sv) (sv_str sv)" using assms(1) by (simp add: kv_laws_def)
    obtain r d where d: "sv_serve sv (setArgs (lkey c) ?v ttl True) (ks_d s) = (r, d)"
        "setEffect (sv_str sv) (lkey c) ?v ttl True (ks_d s) r d"
      using string_lawsD(2) [OF l short_keys(2) [OF assms(2)] v] by blast
    have "cell sv s c = sv_str sv (ks_d s) (lkey c)" "bulkStored s r = isOK r"
      using False by (simp_all add: cell_def bulkStored_def isOK_def)
    then have "nxWritten (bulkStored s r) ttl c ?v (cell sv s) (cell sv (s\<lparr>ks_d := d\<rparr>))"
      using setEffect_cases [OF d(2)] cell_write(2) [OF False] cell_keep(2) [OF False] by (simp add: nxWritten_def split: if_splits)
    then show ?thesis using d(1) False by (auto simp: bulkArgs_set)
  qed
qed

lemma bulk_view:
  assumes "kv_laws net sv s" and "kvOk now sv s" and "kvFitsCode c" and "kvFitsURL u" and "in_i64 t"
  obtains r d where "sv_serve sv (bulkArgs (expiry t ttl) t ttl s c u) (ks_d s) = (r, d)"
    and "kvOk now sv (s\<lparr>ks_d := d\<rparr>)"
    and "nxWritten (bulkStored s r) ttl c (u, expiry t ttl) (kvView sv s) (kvView sv (s\<lparr>ks_d := d\<rparr>))"
proof -
  obtain r d where d: "sv_serve sv (bulkArgs (expiry t ttl) t ttl s c u) (ks_d s) = (r, d)"
    "nxWritten (bulkStored s r) ttl c (encVal (expiry t ttl) t u) (cell sv s) (cell sv (s\<lparr>ks_d := d\<rparr>))"
    using bulk_cell [OF assms(1,3-5)] by blast
  show thesis using that [OF d(1)] kvOk_nx [OF assms(2,3,5) d(2)] by simp
qed

lemma args_ok_bulk:
  assumes "kvFitsCode c" and "kvFitsURL u" and "in_i64 t" and "in_i64 ttl"
  shows "args_ok (bulkArgs (expiry t ttl) t ttl s c u)"
proof -
  have v: "short (encVal (expiry t ttl) t u)" using assms(2,3) by (simp add: short_encVal)
  show ?thesis
  proof (cases "ks_layoutHash s")
    case True
    then show ?thesis unfolding bulkArgs_def using short_keys [OF assms(1)] v by (auto intro!: args_ok_short)
  next
    case False
    then show ?thesis using bulkArgs_set args_ok_set [OF short_keys(2) [OF assms(1)] v assms(4)] by metis
  qed
qed

section \<open>Urls placed under fresh codes\<close>

text \<open>The urls of the indices \<open>S\<close> are stored under their codes, which are pairwise different and were free, and
  nothing else changed.\<close>

definition placed ::
  "(bytes \<Rightarrow> (bytes \<times> int) option) \<Rightarrow> bytes list \<Rightarrow> (nat \<Rightarrow> int set) \<Rightarrow> nat set \<Rightarrow> bytes list \<Rightarrow> (bytes \<Rightarrow> (bytes \<times> int) option) \<Rightarrow> bool" where
  "placed v0 urls E S codes v \<longleftrightarrow>
     length codes = length urls
     \<and> (\<forall>i \<in> S. v0 (codes ! i) = None \<and> (\<exists>e \<in> E i. v (codes ! i) = Some (urls ! i, e)))
     \<and> inj_on ((!) codes) S \<and> (\<forall>c. c \<notin> (!) codes ` S \<longrightarrow> v c = v0 c)"

lemma placed_none: "length codes = length urls \<Longrightarrow> placed v urls E {} codes v"
  by (simp add: placed_def)

lemma placed_add:
  assumes "placed v0 urls E S codes v" and "i \<notin> S" and "i < length urls" and "v c = None" and "e \<in> E i"
  shows "placed v0 urls E (insert i S) (codes[i := c]) (v(c \<mapsto> (urls ! i, e)))"
proof -
  let ?cs = "codes[i := c]"
  have l: "i < length codes" using assms(1,3) by (simp add: placed_def)
  have old: "?cs ! j = codes ! j" if "j \<in> S" for j using that assms(2) by (metis nth_list_update_neq)
  then have im: "(!) ?cs ` S = (!) codes ` S" by (rule image_cong [OF refl])
  have c: "c \<notin> (!) codes ` S" using assms(1,4) by (fastforce simp: placed_def)
  then have "v0 c = None" using assms(1,4) by (simp add: placed_def)
  moreover have "inj_on ((!) ?cs) (insert i S)"
    using assms(1,2) c l old im inj_on_cong [of S "(!) ?cs" "(!) codes"] by (auto simp: placed_def)
  moreover have "v0 (?cs ! j) = None \<and> (\<exists>x \<in> E j. (v(c \<mapsto> (urls ! i, e))) (?cs ! j) = Some (urls ! j, x))" if "j \<in> S" for j
  proof -
    have "codes ! j \<noteq> c" using that c by blast
    then show ?thesis using that assms(1) old by (simp add: placed_def)
  qed
  ultimately show ?thesis using assms(1,5) l im by (auto simp: placed_def)
qed

lemma serveAll_snoc:
  "serveAll f (cs @ [c]) d
   = (fst (serveAll f cs d) @ [fst (f c (snd (serveAll f cs d)))], snd (f c (snd (serveAll f cs d))))"
proof (induction cs arbitrary: d)
  case Nil
  then show ?case by (simp split: prod.split)
next
  case (Cons x xs)
  obtain r d1 rs d2 where e: "f x d = (r, d1)" "serveAll f xs d1 = (rs, d2)" by (meson surj_pair)
  then show ?case using Cons [of d1] by simp
qed

section \<open>The pipeline\<close>

lemma bulk_pipeline:
  assumes "kv_laws net sv s" and "kvOk now sv s" and "in_i64 t" and "length codes = length urls"
    and "\<And>c. c \<in> set codes \<Longrightarrow> kvFitsCode c" and "\<And>u. u \<in> set urls \<Longrightarrow> kvFitsURL u"
    and "\<And>i. expiry t ttl \<in> E i" and "k \<le> length urls"
  defines "srv \<equiv> serveAll (sv_serve sv) (map (\<lambda>i. bulkArgs (expiry t ttl) t ttl s (codes ! i) (urls ! i)) [0..<k]) (ks_d s)"
  shows "kvOk now sv (s\<lparr>ks_d := snd srv\<rparr>)
    \<and> placed (kvView sv s) urls E {i. i < k \<and> bulkStored s (fst srv ! i)} codes (kvView sv (s\<lparr>ks_d := snd srv\<rparr>))"
  using assms(8) unfolding srv_def
proof (induction k)
  case 0
  then show ?case using assms(2,4) placed_none by simp
next
  case (Suc k)
  let ?cmd = "\<lambda>i. bulkArgs (expiry t ttl) t ttl s (codes ! i) (urls ! i)"
  let ?srv = "serveAll (sv_serve sv) (map ?cmd [0..<k]) (ks_d s)"
  let ?s = "s\<lparr>ks_d := snd ?srv\<rparr>" and ?S = "{i. i < k \<and> bulkStored s (fst ?srv ! i)}"
  have k: "k < length codes" "k < length urls" using Suc(2) assms(4) by simp_all
  have ih: "kvOk now sv ?s" "placed (kvView sv s) urls E ?S codes (kvView sv ?s)" using Suc by simp_all
  have len: "length (fst ?srv) = k" by simp
  have l: "kv_laws net sv ?s" using assms(1) by simp
  obtain r d where d: "sv_serve sv (bulkArgs (expiry t ttl) t ttl ?s (codes ! k) (urls ! k)) (ks_d ?s) = (r, d)"
    "kvOk now sv (?s\<lparr>ks_d := d\<rparr>)"
    "nxWritten (bulkStored ?s r) ttl (codes ! k) (urls ! k, expiry t ttl) (kvView sv ?s) (kvView sv (?s\<lparr>ks_d := d\<rparr>))"
    by (rule bulk_view [OF l ih(1) assms(5) [OF nth_mem [OF k(1)]] assms(6) [OF nth_mem [OF k(2)]] assms(3)]) (rule that)
  have srv: "serveAll (sv_serve sv) (map ?cmd [0..<Suc k]) (ks_d s) = (fst ?srv @ [r], d)"
    using d(1) serveAll_snoc [of "sv_serve sv" "map ?cmd [0..<k]" "?cmd k" "ks_d s"] by simp
  have S: "{i. i < Suc k \<and> bulkStored s ((fst ?srv @ [r]) ! i)} = (if bulkStored s r then insert k ?S else ?S)"
    using len by (auto simp: nth_append less_Suc_eq split: if_splits)
  show ?case
  proof (cases "bulkStored s r")
    case True
    then have n: "kvView sv ?s (codes ! k) = None" using d(3) by (simp add: nxWritten_def)
    have "placed (kvView sv s) urls E (insert k ?S) (codes[k := codes ! k]) ((kvView sv ?s)(codes ! k \<mapsto> (urls ! k, expiry t ttl)))"
      using placed_add [OF ih(2) _ k(2) n assms(7)] by simp
    then show ?thesis using True d(2,3) srv S by (simp add: nxWritten_def fun_upd_def)
  next
    case False
    then show ?thesis using ih(2) d(2,3) srv S by (simp add: nxWritten_def)
  qed
qed

section \<open>The retries\<close>

lemma kvShorten_fresh:
  assumes "kv_laws net sv s" and "kvOk now sv s" and "kvFitsURL url" and "in_i64 (clk 0)" and "in_i64 ttl"
    and "kvShorten net clk draws url al False ttl s = Some (code, s')"
  shows "kvView sv s code = None" and "kv_laws net sv s'" and "kvOk now sv s'"
    and "kvView sv s' = (kvView sv s)(code \<mapsto> (url, expiry (clk 0) ttl))"
proof -
  have "kvFresh net (expiry (clk 0) ttl) (clk 0) url ttl draws (ksCount StoreWrite s) = Some (code, s')"
    using assms(6) by (simp add: kvShorten_def Let_def)
  from kvFresh_props [OF _ _ assms(3-5) this, of sv now] assms(1,2)
  show "kvView sv s code = None" and "kv_laws net sv s'" and "kvOk now sv s'"
    and "kvView sv s' = (kvView sv s)(code \<mapsto> (url, expiry (clk 0) ttl))" by simp_all
qed

lemma bulk_retries:
  assumes "foldOpt (\<lambda>i (codes, s). map_option (\<lambda>(c, s). (codes[i := c], s))
             (kvShorten net (clk i) (draws i) (urls ! i) [] False ttl s)) is (codes, s) = Some (codes', s')"
    and "placed v0 urls E S codes (kvView sv s)" and "kv_laws net sv s" and "kvOk now sv s"
    and "distinct is" and "set is \<inter> S = {}" and "set is \<subseteq> {..<length urls}"
    and "\<And>u. u \<in> set urls \<Longrightarrow> kvFitsURL u" and "in_i64 ttl" and "\<And>i. in_i64 (clk i 0)" and "\<And>i. expiry (clk i 0) ttl \<in> E i"
  shows "placed v0 urls E (S \<union> set is) codes' (kvView sv s') \<and> kvOk now sv s'"
  using assms(1-7)
proof (induction "is" arbitrary: codes s S)
  case (Cons i js)
  obtain c s1 where c: "kvShorten net (clk i) (draws i) (urls ! i) [] False ttl s = Some (c, s1)"
    using Cons(2) by (auto split: bind_splits)
  have i: "i < length urls" "i \<notin> S" using Cons(7,8) by auto
  note f = kvShorten_fresh [OF Cons(4,5) assms(8) [OF nth_mem [OF i(1)]] assms(10,9) c]
  have "placed v0 urls E (insert i S) (codes[i := c]) (kvView sv s1)"
    using placed_add [OF Cons(3) i(2,1) f(1) assms(11)] f(4) by simp
  then have "placed v0 urls E (insert i S \<union> set js) codes' (kvView sv s') \<and> kvOk now sv s'"
    using Cons(2,6-8) c f(2,3) by (intro Cons(1)) auto
  then show ?case by simp
qed simp

text \<open>C10. Bulk creation over the RESP engine gives every url a code of its own: the result has one code per url, in
  order, no two are equal even if the random draws of the batch collide, each was free before and now holds
  exactly its url, and no other link changed.\<close>

theorem kv_bulk_places:
  assumes "kv_laws net sv s" and "kvOk now sv s" and "kvShortenMany net env urls ttl s = Some (codes, s')"
    and "\<forall>u \<in> set urls. kvFitsURL u" and "in_i64 ttl" and "in_i64 (kClk env 0)" and "\<forall>i. in_i64 (kRetryClk env i 0)"
  shows "length codes = length urls \<and> distinct codes \<and> kvOk now sv s'
    \<and> (\<forall>i < length urls. kvView sv s (codes ! i) = None
         \<and> kvView sv s' (codes ! i) \<in> {Some (urls ! i, expiry (kClk env 0) ttl), Some (urls ! i, expiry (kRetryClk env i 0) ttl)})
    \<and> (\<forall>c. c \<notin> set codes \<longrightarrow> kvView sv s' c = kvView sv s c)"
proof -
  let ?n = "length urls" and ?t = "kClk env 0"
  let ?codes = "map (\<lambda>i. kvRandCode (kManyDraws env i) s) [0..<?n]"
  let ?cmds = "map (\<lambda>i. bulkArgs (expiry ?t ttl) ?t ttl s (?codes ! i) (urls ! i)) [0..<?n]"
  let ?srv = "serveAll (sv_serve sv) ?cmds (ks_d s)" and ?E = "\<lambda>i. {expiry ?t ttl, expiry (kRetryClk env i 0) ttl}"
  let ?s = "s\<lparr>ks_d := snd ?srv\<rparr>" and ?S = "{i. i < ?n \<and> bulkStored s (fst ?srv ! i)}"
  let ?retry = "filter (\<lambda>i. \<not> bulkStored s (fst ?srv ! i)) [0..<?n]"
  have fit: "kvFitsCode c" if "c \<in> set ?codes" for c using that randCode_fits(3) assms(2) by (auto simp: kvOk_def)
  have "list_all args_ok ?cmds"
    using fit assms(4-6) by (auto simp: list_all_iff intro!: args_ok_bulk)
  then have p: "call (pipe net ?cmds) s = Some (Inr (fst ?srv), ?s)"
    using pipe_serves [of net "sv_serve sv" ?cmds "ks_d s"] assms(1) by (simp add: call_def kv_laws_def)
  have pl: "kvOk now sv ?s \<and> placed (kvView sv s) urls ?E ?S ?codes (kvView sv ?s)"
    by (rule bulk_pipeline [OF assms(1,2,6)]) (use fit assms(4) in auto)
  have f: "foldOpt (\<lambda>i (codes, s). map_option (\<lambda>(c, s). (codes[i := c], s))
      (kvShorten net (kRetryClk env i) (kRetryDraws env i) (urls ! i) [] False ttl s)) ?retry (?codes, ?s) = Some (codes, s')"
    using assms(3) p unfolding kvShortenMany_def Let_def by simp
  have "?S \<union> set ?retry = {..<?n}" by auto
  moreover have "placed (kvView sv s) urls ?E (?S \<union> set ?retry) codes (kvView sv s') \<and> kvOk now sv s'"
    by (rule bulk_retries [OF f]) (use pl assms in auto)
  ultimately have fin: "placed (kvView sv s) urls ?E {..<?n} codes (kvView sv s')" "kvOk now sv s'" by simp_all
  then have "length codes = ?n" "inj_on ((!) codes) {..<?n}" by (simp_all add: placed_def)
  moreover from this have "distinct codes" "(!) codes ` {..<?n} = set codes"
    by (auto simp: distinct_conv_nth inj_on_def set_conv_nth)
  ultimately show ?thesis using fin by (auto simp: placed_def)
qed

theorem kv_bulk_places_witness:
  "\<exists>code s'. kvShortenMany (netOf memServe) demoKvEnv [''http://x''] 60000 demoKv = Some ([code], s')
     \<and> kvView memServer s' code = Some (''http://x'', 61000)"
proof -
  let ?c = "kvRandCode [] demoKv" and ?cmd = "bulkArgs (expiry 1000 60000) 1000 60000 demoKv (kvRandCode [] demoKv) ''http://x''"
  have f: "kvFitsCode ?c" "kvFitsURL ''http://x''" using randCode_fits(3) [OF demoKv_prefix] by (simp_all add: kvFitsURL_def)
  have i: "in_i64 1000" "in_i64 60000" by (simp_all add: in_i64_def)
  have e: "expiry 1000 60000 = 61000" by (simp add: expiry_def i64_id in_i64_def)
  obtain r d where "sv_serve memServer ?cmd (ks_d demoKv) = (r, d)" "nxWritten (bulkStored demoKv r) 60000 ?c (''http://x'', expiry 1000 60000) (kvView memServer demoKv) (kvView memServer (demoKv\<lparr>ks_d := d\<rparr>))"
    by (rule bulk_view [OF mem_laws demoKv_ok f i(1), where ttl = 60000]) (rule that)
  then have d: "memServe ?cmd (ks_d demoKv) = (r, d)" "bulkStored demoKv r" using demoKv_view
    by (simp_all add: memServer_def nxWritten_def split: if_splits)
  have "pipe (netOf memServe) [?cmd] (ks_d demoKv) = Some (Inr [r], d)"
    using pipe_serves [OF serves_netOf [of memServe, OF memServe_ok], of "[?cmd]" "ks_d demoKv"] args_ok_bulk [OF f i, of demoKv] d(1)
    by simp
  then have many: "kvShortenMany (netOf memServe) demoKvEnv [''http://x''] 60000 demoKv = Some ([?c], demoKv\<lparr>ks_d := d\<rparr>)"
    using d(2) by (simp add: kvShortenMany_def call_def demoKvEnv_def)
  from kv_bulk_places [OF mem_laws demoKv_ok this]
  have "kvView memServer (demoKv\<lparr>ks_d := d\<rparr>) ?c = Some (''http://x'', 61000)"
    using f(2) i e by (simp add: demoKvEnv_def)
  with many show ?thesis by blast
qed

end
