(* ===== verification/KvHits.thy ===== *)
theory KvHits
  imports KvEngine
begin

text \<open>
  The hit counters of the RESP engine: \<open>flushHits\<close> in both key layouts over a server whose \<open>INCRBY\<close> and \<open>HINCRBY\<close>
  add, and what happens to the pending hits when the server cannot be reached.
\<close>

section \<open>Counters on the server\<close>

text \<open>A counter is a field of a hash, or a key of its own (then the field is empty).\<close>

definition incrCmd :: "bool \<Rightarrow> bytes \<times> bytes \<Rightarrow> int \<Rightarrow> bytes list" where
  "incrCmd hash kf n = (if hash then [''HINCRBY'', fst kf, snd kf, FormatInt n] else [''INCRBY'', fst kf, FormatInt n])"

definition counter_laws :: "bool \<Rightarrow> (bytes list \<Rightarrow> 'd \<Rightarrow> Resp \<times> 'd) \<Rightarrow> ('d \<Rightarrow> bytes \<times> bytes \<Rightarrow> int) \<Rightarrow> bool" where
  "counter_laws hash serve ctr \<longleftrightarrow>
     (\<forall>d k f n. short k \<and> short f \<and> (hash \<or> f = []) \<and> in_i64 n \<and> in_i64 (ctr d (k, f) + n)
        \<longrightarrow> ctr (snd (serve (incrCmd hash (k, f) n) d)) = (ctr d)((k, f) := ctr d (k, f) + n))"

definition counterSlot :: "'d KvStore \<Rightarrow> bytes \<Rightarrow> bytes \<times> bytes" where
  "counterSlot s code = (if ks_layoutHash s then (bkey s code, hfield code) else (hkey code, []))"

lemma counterSlot_inj: "counterSlot s c = counterSlot s c' \<longleftrightarrow> c = c'"
  by (auto simp: counterSlot_def hfield_def hkey_def)

lemma incr_all:
  assumes "counter_laws hash serve ctr" and "distinct (map fst xs)"
    and "\<forall>((k, f), n) \<in> set xs. short k \<and> short f \<and> (hash \<or> f = []) \<and> in_i64 n \<and> in_i64 (ctr d (k, f) + n)"
  shows "ctr (snd (serveAll serve (map (\<lambda>(kf, n). incrCmd hash kf n) xs) d)) kf
         = ctr d kf + (case map_of xs kf of None \<Rightarrow> 0 | Some n \<Rightarrow> n)"
  using assms(2,3)
proof (induction xs arbitrary: d)
  case (Cons x xs)
  obtain k f n where x: "x = ((k, f), n)" by (metis surj_pair)
  obtain r d1 where d1: "serve (incrCmd hash (k, f) n) d = (r, d1)" by fastforce
  have "short k \<and> short f \<and> (hash \<or> f = []) \<and> in_i64 n \<and> in_i64 (ctr d (k, f) + n)" using Cons(3) x by simp
  then have "ctr (snd (serve (incrCmd hash (k, f) n) d)) = (ctr d)((k, f) := ctr d (k, f) + n)"
    using assms(1) unfolding counter_laws_def by blast
  then have c: "ctr d1 = (ctr d)((k, f) := ctr d (k, f) + n)" using d1 by simp
  have new: "(k, f) \<notin> fst ` set xs" using Cons(2) x by simp
  then have "\<forall>((k', f'), n') \<in> set xs. short k' \<and> short f' \<and> (hash \<or> f' = []) \<and> in_i64 n' \<and> in_i64 (ctr d1 (k', f') + n')"
    using Cons(3) c by (auto simp: rev_image_eqI)
  from Cons(1) [OF _ this] Cons(2)
  have "ctr (snd (serveAll serve (map (\<lambda>(kf, n). incrCmd hash kf n) xs) d1)) kf = ctr d1 kf + (case map_of xs kf of None \<Rightarrow> 0 | Some n \<Rightarrow> n)"
    by simp
  moreover have "map_of xs (k, f) = None" using new by (simp add: map_of_eq_None_iff)
  ultimately show ?case using x d1 c by (auto split: prod.splits)
qed simp

section \<open>The pending hits as a list\<close>

definition dirtyCodes :: "gort \<Rightarrow> hitTable \<Rightarrow> bytes list" where
  "dirtyCodes g d = concat (map (\<lambda>i. ordDirty g (d i)) [0..<numShards])"

lemma ordDirty_props:
  assumes "rt_ok g"
  shows "distinct (ordDirty g m)" and "c \<in> set (ordDirty g m) \<longleftrightarrow> fmlookup m c \<noteq> None"
proof -
  have o: "distinct (ordDirty g m)" "fset_of_list (ordDirty g m) = fmdom m" using assms by (auto simp: rt_ok_def iter_order_def)
  show "distinct (ordDirty g m)" by (rule o(1))
  show "c \<in> set (ordDirty g m) \<longleftrightarrow> fmlookup m c \<noteq> None" using o(2) by (metis fmdom_notD fmdom_notI fset_of_list_elem)
qed

lemma dirtyCodes_props:
  assumes "rt_ok g" and "dirty_ok d"
  shows "distinct (dirtyCodes g d)" and "c \<in> set (dirtyCodes g d) \<longleftrightarrow> fmlookup (d (shardOf c)) c \<noteq> None"
proof -
  have sh: "i = shardOf c" if "c \<in> set (ordDirty g (d i))" for i c
    using that ordDirty_props(2) [OF assms(1)] assms(2) by (simp add: dirty_ok_def)
  have "distinct (concat (map (\<lambda>i. ordDirty g (d i)) is))" if "distinct is" for "is"
    using that ordDirty_props(1) [OF assms(1)] sh by (induction "is") (auto, metis)
  then show "distinct (dirtyCodes g d)" by (simp add: dirtyCodes_def)
  show "c \<in> set (dirtyCodes g d) \<longleftrightarrow> fmlookup (d (shardOf c)) c \<noteq> None"
    using sh [of c] ordDirty_props(2) [OF assms(1)] shardOf_less [of c] by (auto simp: dirtyCodes_def)
qed

lemma lookup_dirty:
  assumes "rt_ok g" and "dirty_ok d" and "c \<in> set (ordDirty g (d i))"
  shows "fmlookup (d i) c = Some (pendingHits c d)"
proof -
  have "fmlookup (d i) c \<noteq> None" using assms ordDirty_props(2) by blast
  moreover from this have "i = shardOf c" using assms(2) by (simp add: dirty_ok_def)
  ultimately show ?thesis by (auto simp: pendingHits_def)
qed

lemma hashDeltas_list:
  assumes "rt_ok g" and "dirty_ok (ks_dirty s)"
  shows "hashDeltas g s = map (\<lambda>c. \<lparr>hi_key = bkey s c, hi_field = hfield c, hi_n = pendingHits c (ks_dirty s)\<rparr>) (dirtyCodes g (ks_dirty s))"
proof -
  let ?h = "\<lambda>c. \<lparr>hi_key = bkey s c, hi_field = hfield c, hi_n = pendingHits c (ks_dirty s)\<rparr>"
  have "concat (map (\<lambda>c. case fmlookup (ks_dirty s i) c of None \<Rightarrow> []
            | Some n \<Rightarrow> [\<lparr>hi_key = bkey s c, hi_field = hfield c, hi_n = n\<rparr>]) cs) = map ?h cs"
    if "set cs \<subseteq> set (ordDirty g (ks_dirty s i))" for i cs
    using that by (induction cs) (auto simp: lookup_dirty [OF assms])
  then have "hashDeltas g s = concat (map (\<lambda>i. map ?h (ordDirty g (ks_dirty s i))) [0..<numShards])"
    by (simp add: hashDeltas_def)
  then show ?thesis by (simp add: dirtyCodes_def map_concat comp_def)
qed

lemma fold_concat: "fold f (concat xss) s = fold (fold f) xss s"
  by (induction xss arbitrary: s) simp_all

lemma fmlookup_incr_fold:
  "distinct cs \<Longrightarrow> fmlookup (fold (\<lambda>c m. fmupd (hkey c) (i64 ((case fmlookup m (hkey c) of None \<Rightarrow> 0 | Some x \<Rightarrow> x) + p c)) m) cs m) k
   = (if \<exists>c \<in> set cs. k = hkey c then Some (i64 ((case fmlookup m k of None \<Rightarrow> 0 | Some x \<Rightarrow> x) + p (drop 2 k))) else fmlookup m k)"
proof (induction cs arbitrary: m)
  case (Cons c cs)
  have "k = hkey c \<longrightarrow> \<not> (\<exists>c' \<in> set cs. k = hkey c')" "k = hkey c \<longrightarrow> drop 2 k = c" using Cons(2) by (auto simp: hkey_def)
  then show ?case using Cons by auto
qed simp

lemma keyDeltas_lookup:
  assumes "rt_ok g" and "dirty_ok (ks_dirty s)" and "\<And>c. in_i64 (pendingHits c (ks_dirty s))"
  shows "fmlookup (keyDeltas g s) k
         = (if \<exists>c \<in> set (dirtyCodes g (ks_dirty s)). k = hkey c then Some (pendingHits (drop 2 k) (ks_dirty s)) else None)"
proof -
  let ?f = "\<lambda>c m. fmupd (hkey c) (i64 ((case fmlookup m (hkey c) of None \<Rightarrow> 0 | Some x \<Rightarrow> x) + pendingHits c (ks_dirty s))) m"
  have "fold (\<lambda>c m. case fmlookup (ks_dirty s i) c of None \<Rightarrow> m
            | Some n \<Rightarrow> fmupd (hkey c) (i64 ((case fmlookup m (hkey c) of None \<Rightarrow> 0 | Some x \<Rightarrow> x) + n)) m) (ordDirty g (ks_dirty s i)) m
        = fold ?f (ordDirty g (ks_dirty s i)) m" for i m
    by (rule List.fold_cong) (auto simp: lookup_dirty [OF assms(1,2)])
  then have "keyDeltas g s = fold (\<lambda>i. fold ?f (ordDirty g (ks_dirty s i))) [0..<numShards] fmempty"
    by (simp add: keyDeltas_def)
  also have "\<dots> = fold ?f (dirtyCodes g (ks_dirty s)) fmempty"
    by (simp add: dirtyCodes_def fold_concat fold_map comp_def)
  finally show ?thesis
    using fmlookup_incr_fold [OF dirtyCodes_props(1) [OF assms(1,2)]] assms(3) by (simp add: i64_id)
qed

section \<open>Flushing\<close>

lemma args_ok_incr:
  assumes "short k" and "short f" and "in_i64 n"
  shows "args_ok (incrCmd hash (k, f) n)"
  using assms length_FormatInt [OF assms(3)] by (intro args_ok_short) (auto simp: incrCmd_def short_def)

text \<open>A pipeline of increments, one per counter.\<close>

lemma incr_pipe:
  assumes "serves net serve" and "counter_laws hash serve ctr" and "distinct (map fst xs)"
    and ok: "\<forall>((k, f), n) \<in> set xs. short k \<and> short f \<and> (hash \<or> f = []) \<and> in_i64 n \<and> in_i64 (ctr d (k, f) + n)"
  obtains rs d' where "pipe net (map (\<lambda>(kf, n). incrCmd hash kf n) xs) d = Some (Inr rs, d')"
    and "\<And>kf. ctr d' kf = ctr d kf + (case map_of xs kf of None \<Rightarrow> 0 | Some n \<Rightarrow> n)"
proof -
  let ?cmds = "map (\<lambda>(kf, n). incrCmd hash kf n) xs"
  have "list_all args_ok ?cmds" using ok by (auto simp: list_all_iff intro: args_ok_incr)
  from pipe_serves [OF assms(1) this, of d] incr_all [OF assms(2-4)] that show thesis by blast
qed

lemma kvHIncr_pipe:
  "kvHIncrByMany net (map (\<lambda>c. \<lparr>hi_key = a c, hi_field = b c, hi_n = p c\<rparr>) cs) d
   = (if cs = [] then Some (None, d)
      else map_option (\<lambda>(r, d). (case r of Inl e \<Rightarrow> Some e | Inr _ \<Rightarrow> None, d))
             (pipe net (map (\<lambda>(kf, n). incrCmd True kf n) (map (\<lambda>c. ((a c, b c), p c)) cs)) d))"
  by (simp add: kvHIncrByMany_def incrCmd_def comp_def)

lemma kvIncr_pipe:
  "kvIncrByMany net (map (\<lambda>k. (k, p k)) ks) d
   = (if ks = [] then Some (None, d)
      else map_option (\<lambda>(r, d). (case r of Inl e \<Rightarrow> Some e | Inr _ \<Rightarrow> None, d))
             (pipe net (map (\<lambda>(kf, n). incrCmd False kf n) (map (\<lambda>k. ((k, []), p k)) ks)) d))"
  by (simp add: kvIncrByMany_def incrCmd_def comp_def)

definition storedHits :: "('d \<Rightarrow> bytes \<times> bytes \<Rightarrow> int) \<Rightarrow> 'd KvStore \<Rightarrow> bytes \<Rightarrow> int" where
  "storedHits ctr s code = ctr (ks_d s) (counterSlot s code)"

definition hits_ok :: "('d \<Rightarrow> bytes \<times> bytes \<Rightarrow> int) \<Rightarrow> 'd KvStore \<Rightarrow> bool" where
  "hits_ok ctr s \<longleftrightarrow>
     dirty_ok (ks_dirty s)
     \<and> (\<forall>c. in_i64 (pendingHits c (ks_dirty s)) \<and> in_i64 (storedHits ctr s c + pendingHits c (ks_dirty s)))
     \<and> (\<forall>c. fmlookup (ks_dirty s (shardOf c)) c \<noteq> None \<longrightarrow> kvFitsCode c)"

lemma map_of_slots:
  "inj sl \<Longrightarrow> map_of (map (\<lambda>c. (sl c, p c)) cs) (sl c) = (if c \<in> set cs then Some (p c) else None)"
  by (induction cs) (auto simp: inj_eq)

lemma flush_hash:
  assumes "serves net serve" and "counter_laws True serve ctr" and "rt_ok g" and "hits_ok ctr s" and "ks_layoutHash s"
  shows "\<exists>d'. kvFlushHits net g s = Some (None, s\<lparr>ks_dirty := (\<lambda>_. fmempty), ks_d := d'\<rparr>)
    \<and> (\<forall>c. ctr d' (counterSlot s c) = ctr (ks_d s) (counterSlot s c) + pendingHits c (ks_dirty s))"
proof -
  let ?p = "\<lambda>c. pendingHits c (ks_dirty s)" and ?cs = "dirtyCodes g (ks_dirty s)" and ?s = "s\<lparr>ks_dirty := (\<lambda>_. fmempty)\<rparr>"
  let ?xs = "map (\<lambda>c. ((bkey s c, hfield c), ?p c)) ?cs"
  have ok: "dirty_ok (ks_dirty s)" "\<And>c. in_i64 (?p c)" "\<And>c. in_i64 (ctr (ks_d s) (counterSlot s c) + ?p c)"
    "\<And>c. c \<in> set ?cs \<Longrightarrow> kvFitsCode c"
    using assms(4) dirtyCodes_props(2) [OF assms(3)] by (auto simp: hits_ok_def storedHits_def)
  have sl: "counterSlot s = (\<lambda>c. (bkey s c, hfield c))" using assms(5) by (simp add: counterSlot_def fun_eq_iff)
  have inj: "inj (counterSlot s)" by (simp add: inj_def counterSlot_inj)
  have zero: "?p c = 0" if "c \<notin> set ?cs" for c
    using that dirtyCodes_props(2) [OF assms(3) ok(1)] by (simp add: pendingHits_def)
  have "map fst ?xs = map (counterSlot s) ?cs" by (simp add: sl comp_def)
  then have "distinct (map fst ?xs)"
    using dirtyCodes_props(1) [OF assms(3) ok(1)] inj_on_subset [OF inj subset_UNIV] by (simp only: distinct_map simp_thms)
  moreover have "\<forall>((k, f), n) \<in> set ?xs. short k \<and> short f \<and> (True \<or> f = []) \<and> in_i64 n \<and> in_i64 (ctr (ks_d s) (k, f) + n)"
    using ok(2,3) short_keys(4,5) [OF ok(4)] unfolding sl by auto
  ultimately obtain rs d' where d: "pipe net (map (\<lambda>(kf, n). incrCmd True kf n) ?xs) (ks_d s) = Some (Inr rs, d')"
    "\<And>kf. ctr d' kf = ctr (ks_d s) kf + (case map_of ?xs kf of None \<Rightarrow> 0 | Some n \<Rightarrow> n)"
    by (rule incr_pipe [OF assms(1,2)]) (rule that)
  have c: "ctr d' (counterSlot s c) = ctr (ks_d s) (counterSlot s c) + ?p c" for c
    using d(2) [of "counterSlot s c"] map_of_slots [OF inj, of ?p ?cs c] zero [of c] unfolding sl by (auto split: if_splits)
  have k: "kvFlushHits net g s = call (kvHIncrByMany net (map (\<lambda>c. \<lparr>hi_key = bkey s c, hi_field = hfield c, hi_n = ?p c\<rparr>) ?cs)) ?s"
    using assms(5) by (simp add: kvFlushHits_def hashDeltas_list [OF assms(3) ok(1)])
  show ?thesis
  proof (cases "?cs = []")
    case True
    then show ?thesis using k zero by (intro exI [of _ "ks_d s"]) (simp add: call_def kvHIncrByMany_def)
  next
    case False
    then show ?thesis using k d(1) c by (intro exI [of _ d']) (simp add: call_def kvHIncr_pipe)
  qed
qed

lemma flush_keys:
  assumes "serves net serve" and "counter_laws False serve ctr" and "rt_ok g" and "hits_ok ctr s" and "\<not> ks_layoutHash s"
  shows "\<exists>d'. kvFlushHits net g s = Some (None, s\<lparr>ks_dirty := (\<lambda>_. fmempty), ks_d := d'\<rparr>)
    \<and> (\<forall>c. ctr d' (counterSlot s c) = ctr (ks_d s) (counterSlot s c) + pendingHits c (ks_dirty s))"
proof -
  let ?p = "\<lambda>c. pendingHits c (ks_dirty s)" and ?cs = "dirtyCodes g (ks_dirty s)" and ?s = "s\<lparr>ks_dirty := (\<lambda>_. fmempty)\<rparr>"
  let ?ks = "ordDirty g (keyDeltas g s)" and ?v = "\<lambda>k. case fmlookup (keyDeltas g s) k of None \<Rightarrow> 0 | Some n \<Rightarrow> n"
  let ?xs = "map (\<lambda>k. ((k, []), ?v k)) ?ks"
  have ok: "dirty_ok (ks_dirty s)" "\<And>c. in_i64 (?p c)" "\<And>c. in_i64 (ctr (ks_d s) (counterSlot s c) + ?p c)"
    "\<And>c. c \<in> set ?cs \<Longrightarrow> kvFitsCode c"
    using assms(4) dirtyCodes_props(2) [OF assms(3)] by (auto simp: hits_ok_def storedHits_def)
  have sl: "counterSlot s c = (hkey c, [])" for c using assms(5) by (simp add: counterSlot_def)
  have zero: "?p c = 0" if "c \<notin> set ?cs" for c
    using that dirtyCodes_props(2) [OF assms(3) ok(1)] by (simp add: pendingHits_def)
  note look = keyDeltas_lookup [OF assms(3) ok(1,2)]
  have ks: "k \<in> set ?ks \<longleftrightarrow> (\<exists>c \<in> set ?cs. k = hkey c)" for k using ordDirty_props(2) [OF assms(3)] look by simp
  have v: "?v (hkey c) = ?p c" for c using look [of "hkey c"] zero [of c] by (auto simp: hkey_def)
  have "distinct (map fst ?xs)" using ordDirty_props(1) [OF assms(3)] by (simp add: comp_def distinct_map inj_on_def)
  moreover have "\<forall>((k, f), n) \<in> set ?xs. short k \<and> short f \<and> (False \<or> f = []) \<and> in_i64 n \<and> in_i64 (ctr (ks_d s) (k, f) + n)"
  proof -
    have "short (hkey c) \<and> short [] \<and> in_i64 (?v (hkey c)) \<and> in_i64 (ctr (ks_d s) (hkey c, []) + ?v (hkey c))" if "c \<in> set ?cs" for c
      using ok(2) [of c] ok(3) [of c] short_keys(3) [OF ok(4) [OF that]] unfolding v sl by (simp add: short_def)
    then show ?thesis using ks by fastforce
  qed
  ultimately obtain rs d' where d: "pipe net (map (\<lambda>(kf, n). incrCmd False kf n) ?xs) (ks_d s) = Some (Inr rs, d')"
    "\<And>kf. ctr d' kf = ctr (ks_d s) kf + (case map_of ?xs kf of None \<Rightarrow> 0 | Some n \<Rightarrow> n)"
    by (rule incr_pipe [OF assms(1,2)]) (rule that)
  have "map_of ?xs (hkey c, []) = (if hkey c \<in> set ?ks then Some (?v (hkey c)) else None)" for c
    by (rule map_of_slots) (simp add: inj_def)
  moreover have "hkey c \<in> set ?ks \<longleftrightarrow> c \<in> set ?cs" for c using ks by (auto simp: hkey_def)
  ultimately have "map_of ?xs (counterSlot s c) = (if c \<in> set ?cs then Some (?p c) else None)" for c by (simp only: sl v)
  then have c: "ctr d' (counterSlot s c) = ctr (ks_d s) (counterSlot s c) + ?p c" for c
    using d(2) [of "counterSlot s c"] zero [of c] by (auto split: if_splits)
  have k: "kvFlushHits net g s = call (kvIncrByMany net (map (\<lambda>k. (k, ?v k)) ?ks)) ?s"
    using assms(5) by (simp add: kvFlushHits_def Let_def)
  show ?thesis
  proof (cases "?ks = []")
    case True
    then have "?p c = 0" for c using ks zero [of c] by auto
    then show ?thesis using k True by (intro exI [of _ "ks_d s"]) (simp add: call_def kvIncrByMany_def)
  next
    case False
    then show ?thesis using k d(1) c by (intro exI [of _ d']) (simp add: call_def kvIncr_pipe)
  qed
qed

text \<open>C35. Flushing keeps every hit: over a server whose increments add, in either key layout, a flush of the RESP engine
  succeeds, leaves nothing pending, and the counter of every code on the server grows by exactly the hits that were
  pending for it, so that stored plus pending hits stay the same.\<close>

theorem kv_hits_conserved:
  assumes "serves net serve" and "counter_laws (ks_layoutHash s) serve ctr" and "rt_ok g" and "hits_ok ctr s"
  shows "\<exists>s'. kvFlushHits net g s = Some (None, s')
    \<and> (\<forall>c. pendingHits c (ks_dirty s') = 0 \<and> storedHits ctr s' c = storedHits ctr s c + pendingHits c (ks_dirty s))"
proof -
  have "\<exists>d'. kvFlushHits net g s = Some (None, s\<lparr>ks_dirty := (\<lambda>_. fmempty), ks_d := d'\<rparr>)
      \<and> (\<forall>c. ctr d' (counterSlot s c) = ctr (ks_d s) (counterSlot s c) + pendingHits c (ks_dirty s))"
    using flush_hash [OF assms(1) _ assms(3,4)] flush_keys [OF assms(1) _ assms(3,4)] assms(2) by (cases "ks_layoutHash s") simp_all
  moreover have "counterSlot (s\<lparr>ks_dirty := x, ks_d := d\<rparr>) = counterSlot s" for x d by (simp add: counterSlot_def bkey_def fun_eq_iff)
  ultimately show ?thesis by (auto simp: storedHits_def)
qed

text \<open>A flush that cannot reach the server loses the pending hits: it reports an error, the server's counters are
  unchanged, and yet nothing is pending any more.\<close>

theorem kv_flush_loses_hits:
  assumes "\<forall>b d. net b d = None" and "rt_ok g" and "hits_ok ctr s" and "pendingHits c (ks_dirty s) \<noteq> 0"
  shows "\<exists>s'. kvFlushHits net g s = Some (Some ErrKv, s')
    \<and> pendingHits c (ks_dirty s') = 0 \<and> storedHits ctr s' c = storedHits ctr s c"
proof -
  have p: "pipe net cmds d = Some (Inl ErrKv, d)" for cmds d using assms(1) by (simp add: pipe_def Let_def)
  have ok: "dirty_ok (ks_dirty s)" "\<And>c. in_i64 (pendingHits c (ks_dirty s))" using assms(3) by (simp_all add: hits_ok_def)
  have c: "c \<in> set (dirtyCodes g (ks_dirty s))"
    using assms(4) dirtyCodes_props(2) [OF assms(2) ok(1)] by (auto simp: pendingHits_def split: option.splits)
  then have "dirtyCodes g (ks_dirty s) \<noteq> []" by auto
  moreover have "hkey c \<in> set (ordDirty g (keyDeltas g s))"
    using c keyDeltas_lookup [OF assms(2) ok] ordDirty_props(2) [OF assms(2)] by auto
  then have "ordDirty g (keyDeltas g s) \<noteq> []" by auto
  ultimately have "kvFlushHits net g s = Some (Some ErrKv, s\<lparr>ks_dirty := (\<lambda>_. fmempty)\<rparr>)"
    using p by (simp add: kvFlushHits_def call_def kvHIncrByMany_def kvIncrByMany_def hashDeltas_list [OF assms(2) ok(1)] Let_def)
  then show ?thesis by (simp add: storedHits_def counterSlot_def bkey_def)
qed

text \<open>A server that keeps counters only, and an engine with two pending hits.\<close>

definition addTo :: "bytes \<times> bytes \<Rightarrow> bytes \<Rightarrow> (bytes \<times> bytes \<Rightarrow> int) \<Rightarrow> Resp \<times> (bytes \<times> bytes \<Rightarrow> int)" where
  "addTo kf v d =
     (case ParseInt v of
        (n, None) \<Rightarrow>
          if in_i64 (d kf + n) then (Resp (CHR '':'') None (d kf + n) None, d(kf := d kf + n))
          else (Resp (CHR ''-'') (Some ''ERR'') 0 None, d)
      | _ \<Rightarrow> (Resp (CHR ''-'') (Some ''ERR'') 0 None, d))"

fun counterServe :: "bytes list \<Rightarrow> (bytes \<times> bytes \<Rightarrow> int) \<Rightarrow> Resp \<times> (bytes \<times> bytes \<Rightarrow> int)" where
  "counterServe [verb, k, v] d = (if verb = ''INCRBY'' then addTo (k, []) v d else (Resp (CHR ''-'') (Some ''ERR'') 0 None, d))"
| "counterServe [verb, k, f, v] d = (if verb = ''HINCRBY'' then addTo (k, f) v d else (Resp (CHR ''-'') (Some ''ERR'') 0 None, d))"
| "counterServe args d = (Resp (CHR ''-'') (Some ''ERR'') 0 None, d)"

lemma addTo_ok: "resp_ok (fst (addTo kf v d))"
  by (simp add: addTo_def split: prod.split option.split)

lemma counterServe_ok: "resp_ok (fst (counterServe args d))"
  by (cases "(args, d)" rule: counterServe.cases) (simp_all add: addTo_ok)

lemma counterServe_laws: "counter_laws hash counterServe (\<lambda>d. d)"
  by (auto simp: counter_laws_def incrCmd_def addTo_def ParseInt_FormatInt)

definition demoHits :: "bool \<Rightarrow> (bytes \<times> bytes \<Rightarrow> int) KvStore" where
  "demoHits hash = \<lparr>ks_d = (\<lambda>_. 5), ks_cache = newKvCache 100000 5000, ks_dirty = bumpHit ''al'' (bumpHit ''al'' (\<lambda>_. fmempty)),
     ks_instance = 0, ks_prefix = ALPHABET ! 0, ks_layoutHash = hash, ks_buckets = 1000000, ks_stopped = False,
     ks_counters = initMetrics 0\<rparr>"

lemma demoHits_ok: "hits_ok (\<lambda>d. d) (demoHits hash)" and demoHits_pending: "pendingHits ''al'' (ks_dirty (demoHits hash)) = 2"
proof -
  have p: "pendingHits c (ks_dirty (demoHits hash)) = (if c = ''al'' then 2 else 0)" for c
    by (simp add: demoHits_def i64_id in_i64_def)
  then show "pendingHits ''al'' (ks_dirty (demoHits hash)) = 2" by simp
  have "dirty_ok (ks_dirty (demoHits hash))" by (simp add: demoHits_def dirty_ok_bump)
  moreover have "fmlookup (ks_dirty (demoHits hash) (shardOf c)) c \<noteq> None \<longrightarrow> kvFitsCode c" for c
    by (auto simp: demoHits_def bumpHit_def kvFitsCode_def HasPrefix_def)
  moreover have "storedHits (\<lambda>d. d) (demoHits hash) c = 5" for c by (simp add: storedHits_def demoHits_def)
  ultimately show "hits_ok (\<lambda>d. d) (demoHits hash)" using p by (simp add: hits_ok_def in_i64_def)
qed

theorem kv_hits_conserved_witness:
  "\<exists>s'. kvFlushHits (netOf counterServe) det_rt (demoHits True) = Some (None, s') \<and> storedHits (\<lambda>d. d) s' ''al'' = 7"
proof -
  have "storedHits (\<lambda>d. d) (demoHits True) ''al'' = 5" by (simp add: storedHits_def demoHits_def)
  moreover have "counter_laws (ks_layoutHash (demoHits True)) counterServe (\<lambda>d. d)" by (rule counterServe_laws)
  ultimately show ?thesis
    using kv_hits_conserved [OF serves_netOf [of counterServe, OF counterServe_ok] _ rt_ok_det_rt demoHits_ok]
      demoHits_pending [of True] by fastforce
qed

theorem kv_flush_loses_hits_witness:
  "\<exists>s'. kvFlushHits (\<lambda>_ _. None) det_rt (demoHits False) = Some (Some ErrKv, s') \<and> pendingHits ''al'' (ks_dirty s') = 0
     \<and> storedHits (\<lambda>d. d) s' ''al'' = 5"
proof -
  have "storedHits (\<lambda>d. d) (demoHits False) ''al'' = 5" by (simp add: storedHits_def demoHits_def)
  moreover have "pendingHits ''al'' (ks_dirty (demoHits False)) \<noteq> 0" using demoHits_pending by simp
  ultimately show ?thesis
    using kv_flush_loses_hits [OF _ rt_ok_det_rt demoHits_ok, of "\<lambda>_ _. None" "''al''" False] by simp
qed

end
