(* ===== verification/Pool.thy ===== *)
theory Pool
  imports Resp
begin

text \<open>
  The connection pool of the RESP client (\<open>Kv\<close>, \<open>conn\<close>, \<open>put\<close>, \<open>drop\<close> and the phases of \<open>pipe\<close> in \<open>kv.go\<close>)
  under concurrent callers. A connection carries bytes both ways; the server executes the commands that
  arrive on any of them in any order, and a write or a read can fail at any moment. \<open>Resp.pipe\<close> is the view
  of one caller; here many callers run interleaved over one pool.
\<close>

section \<open>Connections and the pool\<close>

text \<open>\<open>kc_out\<close> holds what was written and not yet executed, \<open>kc_in\<close> the replies not yet read. \<open>kc_call\<close> is the last
  call that checked the connection out; it is not part of the program.\<close>

record kvConn =
  kc_open :: bool
  kc_out :: bytes
  kc_in :: bytes
  kc_call :: "nat option"

definition noConn :: kvConn where
  "noConn = \<lparr>kc_open = False, kc_out = [], kc_in = [], kc_call = None\<rparr>"

text \<open>The channel of idle connections, the connections by number, and the next number to dial.\<close>

record Kv =
  po_idle :: "nat list"
  po_conn :: "nat \<Rightarrow> kvConn"
  po_next :: nat

definition kvPoolSize :: nat where
  "kvPoolSize = 32"

definition newKv :: Kv where
  "newKv = \<lparr>po_idle = [], po_conn = (\<lambda>_. noConn), po_next = 0\<rparr>"

abbreviation updConn :: "nat \<Rightarrow> (kvConn \<Rightarrow> kvConn) \<Rightarrow> Kv \<Rightarrow> Kv" where
  "updConn c f p \<equiv> p\<lparr>po_conn := (po_conn p)(c := f (po_conn p c))\<rparr>"

definition conn :: "bool \<Rightarrow> Kv \<Rightarrow> nat option \<times> Kv" where
  "conn dialOK p =
     (case po_idle p of
        c # cs \<Rightarrow> (Some c, p\<lparr>po_idle := cs\<rparr>)
      | [] \<Rightarrow>
          if dialOK then (Some (po_next p), updConn (po_next p) (\<lambda>_. noConn\<lparr>kc_open := True\<rparr>) (p\<lparr>po_next := po_next p + 1\<rparr>))
          else (None, p))"

definition drop_conn :: "nat \<Rightarrow> Kv \<Rightarrow> Kv" where
  "drop_conn c p = updConn c (kc_open_update (\<lambda>_. False)) p"

definition put :: "nat \<Rightarrow> Kv \<Rightarrow> Kv" where
  "put c p = (if length (po_idle p) < kvPoolSize then p\<lparr>po_idle := po_idle p @ [c]\<rparr> else drop_conn c p)"

section \<open>Callers\<close>

text \<open>The phases of a call of \<open>pipe\<close>: about to write, reading the replies, returned.\<close>

datatype pipeCall =
    Writing "bytes list list" nat
  | Reading "bytes list list" nat "Resp list"
  | Returned "bytes list list" "kv_error + Resp list"

fun uses :: "pipeCall \<Rightarrow> nat option" where
  "uses (Writing _ c) = Some c"
| "uses (Reading _ c _) = Some c"
| "uses (Returned _ _) = None"

text \<open>The client, the server's data, the calls so far, and what the server executed for which call.\<close>

record 'd kvSys =
  sy_kv :: Kv
  sy_db :: 'd
  sy_call :: "nat \<Rightarrow> pipeCall option"
  sy_n :: nat
  sy_log :: "(nat \<times> bytes list \<times> Resp) list"

definition pipeBytes :: "bytes list list \<Rightarrow> bytes" where
  "pipeBytes cmds = fold (\<lambda>args buf. appendCmd buf args) cmds []"

abbreviation setCall :: "nat \<Rightarrow> pipeCall \<Rightarrow> 'd kvSys \<Rightarrow> 'd kvSys" where
  "setCall i k s \<equiv> s\<lparr>sy_call := (sy_call s)(i \<mapsto> k)\<rparr>"

inductive poolStep :: "(bytes list \<Rightarrow> 'd \<Rightarrow> Resp \<times> 'd) \<Rightarrow> 'd kvSys \<Rightarrow> 'd kvSys \<Rightarrow> bool" for serve where
  Checkout: "conn dialOK (sy_kv s) = (Some c, kv) \<Longrightarrow> list_all args_ok cmds
    \<Longrightarrow> poolStep serve s (setCall (sy_n s) (Writing cmds c)
          (s\<lparr>sy_kv := updConn c (kc_call_update (\<lambda>_. Some (sy_n s))) kv, sy_n := sy_n s + 1\<rparr>))"
| NoConn: "conn dialOK (sy_kv s) = (None, kv)
    \<Longrightarrow> poolStep serve s (setCall (sy_n s) (Returned cmds (Inl ErrKv)) (s\<lparr>sy_kv := kv, sy_n := sy_n s + 1\<rparr>))"
| Write: "sy_call s i = Some (Writing cmds c)
    \<Longrightarrow> poolStep serve s (setCall i (Reading cmds c [])
          (s\<lparr>sy_kv := updConn c (kc_out_update (\<lambda>b. b @ pipeBytes cmds)) (sy_kv s)\<rparr>))"
| WriteFails: "sy_call s i = Some (Writing cmds c)
    \<Longrightarrow> poolStep serve s (setCall i (Returned cmds (Inl ErrKv))
          (s\<lparr>sy_kv := drop_conn c (updConn c (kc_out_update (\<lambda>b. b @ take n (pipeBytes cmds))) (sy_kv s))\<rparr>))"
| Execute: "readResp (kc_out (po_conn (sy_kv s) c)) = RdOk x out \<Longrightarrow> serve (map strOf (arrOf x)) (sy_db s) = (r, d)
    \<Longrightarrow> kc_call (po_conn (sy_kv s) c) = Some i
    \<Longrightarrow> poolStep serve s
          (s\<lparr>sy_kv := updConn c (\<lambda>k. k\<lparr>kc_out := out, kc_in := kc_in k @ printResp r\<rparr>) (sy_kv s),
             sy_db := d, sy_log := sy_log s @ [(i, map strOf (arrOf x), r)]\<rparr>)"
| Read: "sy_call s i = Some (Reading cmds c rs) \<Longrightarrow> length rs < length cmds
    \<Longrightarrow> readResp (kc_in (po_conn (sy_kv s) c)) = RdOk x rest
    \<Longrightarrow> poolStep serve s (setCall i (Reading cmds c (rs @ [x]))
          (s\<lparr>sy_kv := updConn c (kc_in_update (\<lambda>_. rest)) (sy_kv s)\<rparr>))"
| ReadFails: "sy_call s i = Some (Reading cmds c rs) \<Longrightarrow> length rs < length cmds
    \<Longrightarrow> poolStep serve s (setCall i (Returned cmds (Inl ErrKv)) (s\<lparr>sy_kv := drop_conn c (sy_kv s)\<rparr>))"
| Return: "sy_call s i = Some (Reading cmds c rs) \<Longrightarrow> length rs = length cmds
    \<Longrightarrow> poolStep serve s (setCall i (Returned cmds (Inr rs)) (s\<lparr>sy_kv := put c (sy_kv s)\<rparr>))"

definition poolInit :: "'d kvSys \<Rightarrow> bool" where
  "poolInit s \<longleftrightarrow> sy_kv s = newKv \<and> sy_call s = (\<lambda>_. None) \<and> sy_n s = 0 \<and> sy_log s = []"

section \<open>The invariant\<close>

text \<open>What the server executed for call \<open>i\<close>, in order.\<close>

definition logOf :: "nat \<Rightarrow> (nat \<times> bytes list \<times> Resp) list \<Rightarrow> (bytes list \<times> Resp) list" where
  "logOf i log = map snd (filter (\<lambda>e. fst e = i) log)"

definition poolOk :: "Kv \<Rightarrow> bool" where
  "poolOk p \<longleftrightarrow>
     distinct (po_idle p) \<and> length (po_idle p) \<le> kvPoolSize
     \<and> (\<forall>c \<in> set (po_idle p). c < po_next p \<and> kc_open (po_conn p c) \<and> kc_out (po_conn p c) = [] \<and> kc_in (po_conn p c) = [])
     \<and> (\<forall>c \<ge> po_next p. po_conn p c = noConn)"

text \<open>A connection in use is open, not idle, and used by one call only.\<close>

definition ownOk :: "'d kvSys \<Rightarrow> bool" where
  "ownOk s \<longleftrightarrow>
     (\<forall>i k c. sy_call s i = Some k \<longrightarrow> uses k = Some c
        \<longrightarrow> c < po_next (sy_kv s) \<and> c \<notin> set (po_idle (sy_kv s)) \<and> kc_open (po_conn (sy_kv s) c)
            \<and> kc_call (po_conn (sy_kv s) c) = Some i)
     \<and> (\<forall>c c' i. kc_call (po_conn (sy_kv s) c) = Some i \<longrightarrow> kc_call (po_conn (sy_kv s) c') = Some i \<longrightarrow> c = c')
     \<and> (\<forall>c i. kc_call (po_conn (sy_kv s) c) = Some i \<longrightarrow> i < sy_n s)
     \<and> (\<forall>i \<ge> sy_n s. sy_call s i = None \<and> logOf i (sy_log s) = [])"

text \<open>What was executed, what waits and what was read of one call fit together.\<close>

fun callOk :: "(nat \<Rightarrow> kvConn) \<Rightarrow> nat \<Rightarrow> (bytes list \<times> Resp) list \<Rightarrow> pipeCall \<Rightarrow> bool" where
  "callOk pc i L (Writing cmds c) \<longleftrightarrow> list_all args_ok cmds \<and> kc_out (pc c) = [] \<and> kc_in (pc c) = [] \<and> L = []"
| "callOk pc i L (Reading cmds c rs) \<longleftrightarrow>
     (\<exists>todo. cmds = map fst L @ todo \<and> list_all args_ok todo \<and> kc_out (pc c) = pipeBytes todo)
     \<and> (\<exists>unread. map snd L = rs @ unread \<and> list_all resp_ok unread \<and> kc_in (pc c) = concat (map printResp unread))"
| "callOk pc i L (Returned cmds res) \<longleftrightarrow>
     (case res of
        Inl _ \<Rightarrow> True
      | Inr rs \<Rightarrow> L = zip cmds rs \<and> length rs = length cmds \<and> (\<forall>c. kc_call (pc c) = Some i \<longrightarrow> kc_out (pc c) = []))"

definition sysOk :: "'d kvSys \<Rightarrow> bool" where
  "sysOk s \<longleftrightarrow>
     poolOk (sy_kv s) \<and> ownOk s
     \<and> (\<forall>i k. sy_call s i = Some k \<longrightarrow> callOk (po_conn (sy_kv s)) i (logOf i (sy_log s)) k)"

lemma logOf_append [simp]: "logOf i (log @ [(j, e)]) = (if i = j then logOf i log @ [e] else logOf i log)"
  by (simp add: logOf_def)

lemma pipeBytes_simps: "pipeBytes [] = []" "pipeBytes (c # cs) = printResp (cmdResp c) @ pipeBytes cs"
  unfolding pipeBytes_def fold_appendCmd by simp_all

lemma readResp_Nil: "readResp [] \<noteq> RdOk x r"
  by (simp add: readResp_def)

text \<open>The other calls do not notice a step: it leaves alone the connections they use and the output of those they
  have returned.\<close>

lemma callOk_frame:
  assumes "callOk pc i L k" and "\<And>c. uses k = Some c \<Longrightarrow> kc_out (pc' c) = kc_out (pc c) \<and> kc_in (pc' c) = kc_in (pc c)"
    and "\<And>c. uses k = None \<Longrightarrow> kc_call (pc' c) = Some i \<Longrightarrow> kc_call (pc c) = Some i \<and> (kc_out (pc c) = [] \<longrightarrow> kc_out (pc' c) = [])"
  shows "callOk pc' i L k"
  using assms by (cases k) (auto split: sum.splits)

lemma poolOk_upd: "poolOk p \<Longrightarrow> c \<notin> set (po_idle p) \<Longrightarrow> c < po_next p \<Longrightarrow> poolOk (updConn c f p)"
  by (auto simp: poolOk_def)

lemma ownOkD:
  assumes "ownOk s" and "sy_call s i = Some k" and "uses k = Some c"
  shows "c < po_next (sy_kv s)" and "c \<notin> set (po_idle (sy_kv s))" and "kc_open (po_conn (sy_kv s) c)"
    and "kc_call (po_conn (sy_kv s) c) = Some i" and "i < sy_n s"
  using assms unfolding ownOk_def by blast+

lemma sysOkD:
  assumes "sysOk s"
  shows "poolOk (sy_kv s)" and "ownOk s" and "sy_call s i = Some k \<Longrightarrow> callOk (po_conn (sy_kv s)) i (logOf i (sy_log s)) k"
  using assms by (simp_all add: sysOk_def)

text \<open>A step of the call that uses connection \<open>c\<close>.\<close>

lemma sysOk_own_step:
  assumes s: "sysOk s" and k: "sy_call s i = Some k" "uses k = Some c"
    and kv: "poolOk kv" "po_next kv = po_next (sy_kv s)" "\<And>c'. c' \<noteq> c \<Longrightarrow> po_conn kv c' = po_conn (sy_kv s) c'"
      "kc_call (po_conn kv c) = Some i" "set (po_idle kv) \<subseteq> insert c (set (po_idle (sy_kv s)))"
    and k': "uses k' = Some c \<Longrightarrow> c \<notin> set (po_idle kv) \<and> kc_open (po_conn kv c)" "uses k' = None \<or> uses k' = Some c"
      "callOk (po_conn kv) i (logOf i (sy_log s)) k'"
  shows "sysOk (setCall i k' (s\<lparr>sy_kv := kv\<rparr>))"
proof -
  note own = sysOkD(2) [OF s] and c = ownOkD [OF sysOkD(2) [OF s] k]
  have other: "c' \<noteq> c" if "sy_call s j = Some m" "uses m = Some c'" "j \<noteq> i" for j m c'
    using ownOkD(4) [OF own that(1,2)] c(4) that(3) by auto
  have calls: "kc_call (po_conn kv c') = kc_call (po_conn (sy_kv s) c')" for c' using kv(3,4) c(4) by (cases "c' = c") auto
  have "ownOk (setCall i k' (s\<lparr>sy_kv := kv\<rparr>))"
    unfolding ownOk_def
  proof (intro conjI allI impI)
    fix j m c'
    assume "sy_call (setCall i k' (s\<lparr>sy_kv := kv\<rparr>)) j = Some m" and m: "uses m = Some c'"
    then have "if j = i then m = k' \<and> c' = c else sy_call s j = Some m" using k'(2) by (auto split: if_splits)
    then show "c' < po_next (sy_kv (setCall i k' (s\<lparr>sy_kv := kv\<rparr>)))" "c' \<notin> set (po_idle (sy_kv (setCall i k' (s\<lparr>sy_kv := kv\<rparr>))))"
      "kc_open (po_conn (sy_kv (setCall i k' (s\<lparr>sy_kv := kv\<rparr>))) c')" "kc_call (po_conn (sy_kv (setCall i k' (s\<lparr>sy_kv := kv\<rparr>))) c') = Some j"
      using m c(1) kv(2-4) k'(1) ownOkD [OF own _ m] other [OF _ m] by (auto split: if_splits dest!: subsetD [OF kv(5)])
  qed (use own calls c(5) in \<open>auto simp: ownOk_def\<close>)
  moreover have "callOk (po_conn kv) j (logOf j (sy_log s)) m" if "sy_call s j = Some m" "j \<noteq> i" for j m
  proof (rule callOk_frame [OF sysOkD(3) [OF s that(1)]])
    show "kc_out (po_conn kv c') = kc_out (po_conn (sy_kv s) c') \<and> kc_in (po_conn kv c') = kc_in (po_conn (sy_kv s) c')"
      if "uses m = Some c'" for c' using other [OF \<open>sy_call s j = Some m\<close> that \<open>j \<noteq> i\<close>] kv(3) by simp
    show "kc_call (po_conn (sy_kv s) c') = Some j \<and> (kc_out (po_conn (sy_kv s) c') = [] \<longrightarrow> kc_out (po_conn kv c') = [])"
      if "kc_call (po_conn kv c') = Some j" for c'
      using that calls [of c'] kv(3) [of c'] c(4) \<open>j \<noteq> i\<close> by (cases "c' = c") auto
  qed
  ultimately show ?thesis using kv(1) k'(3) by (auto simp: sysOk_def)
qed

lemma poolOk_put:
  assumes "poolOk p" and "c \<notin> set (po_idle p)" and "c < po_next p" and "kc_open (po_conn p c)"
    and "kc_out (po_conn p c) = []" and "kc_in (po_conn p c) = []"
  shows "poolOk (put c p)"
  using assms poolOk_upd [of p c] by (auto simp: put_def drop_conn_def poolOk_def)

lemma put_frame [simp]:
  "po_next (put c p) = po_next p" "c' \<noteq> c \<Longrightarrow> po_conn (put c p) c' = po_conn p c'"
  "kc_call (po_conn (put c p) c') = kc_call (po_conn p c')" "kc_out (po_conn (put c p) c') = kc_out (po_conn p c')"
  "set (po_idle (put c p)) \<subseteq> insert c (set (po_idle p))"
  by (auto simp: put_def drop_conn_def)

lemma sysOk_write:
  assumes "sysOk s" and "sy_call s i = Some (Writing cmds c)"
  shows "sysOk (setCall i (Reading cmds c []) (s\<lparr>sy_kv := updConn c (kc_out_update (\<lambda>b. b @ pipeBytes cmds)) (sy_kv s)\<rparr>))"
    and "sysOk (setCall i (Returned cmds (Inl ErrKv))
           (s\<lparr>sy_kv := drop_conn c (updConn c (kc_out_update (\<lambda>b. b @ take n (pipeBytes cmds))) (sy_kv s))\<rparr>))"
proof -
  note c = ownOkD [OF sysOkD(2) [OF assms(1)] assms(2) uses.simps(1)]
  note up = poolOk_upd [OF sysOkD(1) [OF assms(1)] c(2,1)]
  have k: "list_all args_ok cmds \<and> kc_out (po_conn (sy_kv s) c) = [] \<and> kc_in (po_conn (sy_kv s) c) = [] \<and> logOf i (sy_log s) = []"
    using sysOkD(3) [OF assms] by simp
  show "sysOk (setCall i (Reading cmds c []) (s\<lparr>sy_kv := updConn c (kc_out_update (\<lambda>b. b @ pipeBytes cmds)) (sy_kv s)\<rparr>))"
    by (rule sysOk_own_step [OF assms uses.simps(1) up]) (use c k in auto)
  show "sysOk (setCall i (Returned cmds (Inl ErrKv))
      (s\<lparr>sy_kv := drop_conn c (updConn c (kc_out_update (\<lambda>b. b @ take n (pipeBytes cmds))) (sy_kv s))\<rparr>))"
    by (rule sysOk_own_step [OF assms uses.simps(1)]) (use c up in \<open>auto simp: drop_conn_def\<close>)
qed

lemma sysOk_read:
  assumes "sysOk s" and "sy_call s i = Some (Reading cmds c rs)" and "readResp (kc_in (po_conn (sy_kv s) c)) = RdOk x rest"
  shows "sysOk (setCall i (Reading cmds c (rs @ [x])) (s\<lparr>sy_kv := updConn c (kc_in_update (\<lambda>_. rest)) (sy_kv s)\<rparr>))"
proof -
  note c = ownOkD [OF sysOkD(2) [OF assms(1)] assms(2) uses.simps(2)]
  note up = poolOk_upd [OF sysOkD(1) [OF assms(1)] c(2,1)]
  obtain todo unread where k: "cmds = map fst (logOf i (sy_log s)) @ todo" "list_all args_ok todo"
    "kc_out (po_conn (sy_kv s) c) = pipeBytes todo" "map snd (logOf i (sy_log s)) = rs @ unread" "list_all resp_ok unread"
    "kc_in (po_conn (sy_kv s) c) = concat (map printResp unread)"
    using sysOkD(3) [OF assms(1,2)] by auto
  obtain ys where u: "unread = x # ys" "rest = concat (map printResp ys)"
  proof (cases unread)
    case Nil
    then show thesis using assms(3) k(6) readResp_Nil by simp
  next
    case (Cons y ys)
    then show thesis using that assms(3) k(5,6) readResp_print by simp
  qed
  show ?thesis by (rule sysOk_own_step [OF assms(1,2) uses.simps(2) up]) (use c k u in auto)
qed

lemma sysOk_return:
  assumes "sysOk s" and "sy_call s i = Some (Reading cmds c rs)"
  shows "sysOk (setCall i (Returned cmds (Inl ErrKv)) (s\<lparr>sy_kv := drop_conn c (sy_kv s)\<rparr>))"
    and "length rs = length cmds \<Longrightarrow> sysOk (setCall i (Returned cmds (Inr rs)) (s\<lparr>sy_kv := put c (sy_kv s)\<rparr>))"
proof -
  note c = ownOkD [OF sysOkD(2) [OF assms(1)] assms(2) uses.simps(2)]
  note up = poolOk_upd [OF sysOkD(1) [OF assms(1)] c(2,1)]
  show "sysOk (setCall i (Returned cmds (Inl ErrKv)) (s\<lparr>sy_kv := drop_conn c (sy_kv s)\<rparr>))"
    by (rule sysOk_own_step [OF assms uses.simps(2)]) (use c up in \<open>auto simp: drop_conn_def\<close>)
  assume l: "length rs = length cmds"
  let ?L = "logOf i (sy_log s)"
  obtain todo unread where k: "cmds = map fst ?L @ todo" "kc_out (po_conn (sy_kv s) c) = pipeBytes todo"
    "map snd ?L = rs @ unread" "kc_in (po_conn (sy_kv s) c) = concat (map printResp unread)"
    using sysOkD(3) [OF assms] by auto
  have "length ?L = length rs + length unread" using k(3) by (metis length_append length_map)
  moreover have "length cmds = length ?L + length todo" using k(1) by simp
  ultimately have "todo = []" "unread = []" using l by simp_all
  with k have z: "?L = zip cmds rs" "kc_out (po_conn (sy_kv s) c) = []" "kc_in (po_conn (sy_kv s) c) = []"
    using zip_map_fst_snd [of ?L] by (simp_all add: pipeBytes_simps)
  have "kc_out (po_conn (sy_kv s) c') = []" if "kc_call (po_conn (sy_kv s) c') = Some i" for c'
  proof -
    have "c' = c" using sysOkD(2) [OF assms(1)] that c(4) unfolding ownOk_def by blast
    then show ?thesis using z(2) by simp
  qed
  then show "sysOk (setCall i (Returned cmds (Inr rs)) (s\<lparr>sy_kv := put c (sy_kv s)\<rparr>))"
    using put_frame(5)
    by (intro sysOk_own_step [OF assms uses.simps(2) poolOk_put [OF sysOkD(1) [OF assms(1)] c(2,1,3) z(2,3)]]) (use c l z in auto)
qed

lemma conn_props:
  assumes "poolOk p" and "conn dialOK p = (Some c, p')"
  shows "poolOk p'" and "c \<notin> set (po_idle p')" and "c < po_next p'" and "po_next p \<le> po_next p'" and "set (po_idle p') \<subseteq> set (po_idle p)"
    and "c' \<noteq> c \<Longrightarrow> po_conn p' c' = po_conn p c'" and "c \<in> set (po_idle p) \<or> po_next p \<le> c"
    and "kc_open (po_conn p' c)" and "kc_out (po_conn p' c) = []" and "kc_in (po_conn p' c) = []"
  using assms by (auto simp: conn_def poolOk_def noConn_def split: list.splits if_splits)

lemma sysOk_checkout:
  assumes s: "sysOk s" and kv: "conn dialOK (sy_kv s) = (Some c, kv)" and "list_all args_ok cmds"
  defines "s' \<equiv> setCall (sy_n s) (Writing cmds c)
          (s\<lparr>sy_kv := updConn c (kc_call_update (\<lambda>_. Some (sy_n s))) kv, sy_n := sy_n s + 1\<rparr>)"
  shows "sysOk s'"
proof -
  note own = sysOkD(2) [OF s] and cp = conn_props [OF sysOkD(1) [OF s] kv]
  have other: "c' \<noteq> c" if "sy_call s j = Some m" "uses m = Some c'" for j m c'
    using ownOkD [OF own that] cp(7) by auto
  have new: "logOf (sy_n s) (sy_log s) = []" using own by (simp add: ownOk_def)
  have "poolOk (sy_kv s')" using poolOk_upd [OF cp(1-3)] by (simp add: s'_def)
  moreover have "ownOk s'"
  proof -
    have call: "kc_call (po_conn (sy_kv s') c') = (if c' = c then Some (sy_n s) else kc_call (po_conn (sy_kv s) c'))" for c'
      using cp(6) by (simp add: s'_def)
    have a: "c' < po_next (sy_kv s') \<and> c' \<notin> set (po_idle (sy_kv s')) \<and> kc_open (po_conn (sy_kv s') c')
        \<and> kc_call (po_conn (sy_kv s') c') = Some j" if j: "sy_call s' j = Some m" and m: "uses m = Some c'" for j m c'
    proof (cases "j = sy_n s")
      case True
      then have "c' = c" using j m by (auto simp: s'_def)
      then show ?thesis using True call cp(2,3,8) by (simp add: s'_def)
    next
      case False
      then have "sy_call s j = Some m" using j by (simp add: s'_def)
      note o = ownOkD [OF own this m] and c' = other [OF this m]
      have "c' \<notin> set (po_idle kv)" "c' < po_next kv" using o(1,2) cp(4,5) by auto
      then show ?thesis using o(3,4) c' call cp(6) by (simp add: s'_def)
    qed
    have n': "sy_n s' = Suc (sy_n s)" by (simp add: s'_def)
    have b: "i < sy_n s" if "kc_call (po_conn (sy_kv s) c') = Some i" for c' i using own that by (simp add: ownOk_def)
    have "c1 = c2" if "kc_call (po_conn (sy_kv s') c1) = Some i" "kc_call (po_conn (sy_kv s') c2) = Some i" for c1 c2 i
      using that b own unfolding call ownOk_def by (auto split: if_splits)
    moreover have "i < sy_n s'" if "kc_call (po_conn (sy_kv s') c') = Some i" for c' i
      using that b [of c' i] n' unfolding call by (auto split: if_splits)
    moreover have "sy_call s' i = None \<and> logOf i (sy_log s') = []" if "sy_n s' \<le> i" for i
      using that own by (simp add: s'_def ownOk_def)
    ultimately show ?thesis unfolding ownOk_def using a by blast
  qed
  moreover have "callOk (po_conn (sy_kv s')) j (logOf j (sy_log s')) m" if m: "sy_call s' j = Some m" for j m
  proof (cases "j = sy_n s")
    case True
    then show ?thesis using m assms(3) cp(9,10) new by (auto simp: s'_def)
  next
    case False
    then have j: "sy_call s j = Some m" "logOf j (sy_log s') = logOf j (sy_log s)" using m by (simp_all add: s'_def)
    have same: "po_conn (sy_kv s') c' = po_conn (sy_kv s) c'" if "c' \<noteq> c" for c' using that cp(6) by (simp add: s'_def)
    have "kc_call (po_conn (sy_kv s') c) \<noteq> Some j" using False by (simp add: s'_def)
    then show ?thesis
      unfolding j(2) by (intro callOk_frame [OF sysOkD(3) [OF s j(1)]]) (use same other [OF j(1)] in metis)+
  qed
  ultimately show ?thesis by (simp add: sysOk_def)
qed

lemma sysOk_execute:
  fixes d :: 'd and s :: "'d kvSys"
  assumes s: "sysOk s" and x: "readResp (kc_out (po_conn (sy_kv s) c)) = RdOk x out" and "resp_ok r"
    and i: "kc_call (po_conn (sy_kv s) c) = Some i"
  defines "s' \<equiv> s\<lparr>sy_kv := updConn c (\<lambda>k. k\<lparr>kc_out := out, kc_in := kc_in k @ printResp r\<rparr>) (sy_kv s),
             sy_db := d, sy_log := sy_log s @ [(i, map strOf (arrOf x), r)]\<rparr>"
  shows "sysOk s'"
proof -
  note own = sysOkD(2) [OF s]
  have o: "kc_out (po_conn (sy_kv s) c) \<noteq> []" using x readResp_Nil by metis
  then have c: "c \<notin> set (po_idle (sy_kv s))" "c < po_next (sy_kv s)"
    using sysOkD(1) [OF s] i by (auto simp: poolOk_def noConn_def not_less [symmetric])
  have inj: "c' = c" if "kc_call (po_conn (sy_kv s) c') = Some i" for c'
    using own i that unfolding ownOk_def by blast
  have calls: "kc_call (po_conn (sy_kv s') c') = kc_call (po_conn (sy_kv s) c')" for c' by (simp add: s'_def)
  have "poolOk (sy_kv s')" using poolOk_upd [OF sysOkD(1) [OF s] c] by (simp add: s'_def)
  moreover have "ownOk s'"
  proof -
    have "i < sy_n s" using own i by (auto simp: ownOk_def)
    then have log: "logOf j (sy_log s') = logOf j (sy_log s)" if "sy_n s \<le> j" for j using that by (simp add: s'_def)
    have same: "kc_open (po_conn (sy_kv s') c') = kc_open (po_conn (sy_kv s) c')" "po_idle (sy_kv s') = po_idle (sy_kv s)"
      "po_next (sy_kv s') = po_next (sy_kv s)" "sy_call s' = sy_call s" "sy_n s' = sy_n s" for c' by (simp_all add: s'_def)
    show ?thesis using own log unfolding ownOk_def calls same by (intro conjI) (blast, blast, blast, simp)
  qed
  moreover have "callOk (po_conn (sy_kv s')) j (logOf j (sy_log s')) m" if m: "sy_call s j = Some m" for j m
  proof (cases "j = i")
    case True
    note k = sysOkD(3) [OF s m]
    have u: "c' = c" if "uses m = Some c'" for c' using inj ownOkD(4) [OF own m that] True by simp
    show ?thesis
    proof (cases m)
      case (Writing cmds c')
      then show ?thesis using u k o by simp
    next
      case (Reading cmds c' rs)
      then have "c' = c" using u by simp
      with k Reading obtain todo unread where k: "cmds = map fst (logOf i (sy_log s)) @ todo" "list_all args_ok todo"
        "kc_out (po_conn (sy_kv s) c) = pipeBytes todo" "map snd (logOf i (sy_log s)) = rs @ unread" "list_all resp_ok unread"
        "kc_in (po_conn (sy_kv s) c) = concat (map printResp unread)"
        using True by auto
      obtain y ys where "todo = y # ys" using o k(3) pipeBytes_simps(1) by (metis neq_Nil_conv)
      then have "todo = map strOf (arrOf x) # ys" "out = pipeBytes ys"
        using x k(2,3) readResp_print [OF resp_ok_cmd] by (auto simp: pipeBytes_simps)
      then show ?thesis using Reading \<open>c' = c\<close> True k assms(3) by (auto simp: s'_def)
    next
      case (Returned cmds res)
      then show ?thesis using k o i True by (auto split: sum.splits)
    qed
  next
    case False
    then have l: "logOf j (sy_log s') = logOf j (sy_log s)" by (simp add: s'_def)
    have same: "po_conn (sy_kv s') c' = po_conn (sy_kv s) c'" if "kc_call (po_conn (sy_kv s) c') = Some j" for c'
      using that i False by (auto simp: s'_def)
    show ?thesis
      unfolding l by (rule callOk_frame [OF sysOkD(3) [OF s m]]) (use same ownOkD(4) [OF own m] calls in auto)
  qed
  ultimately show ?thesis by (simp add: sysOk_def s'_def)
qed

lemma sysOk_no_conn:
  assumes "sysOk s" and "conn dialOK (sy_kv s) = (None, kv)"
  shows "sysOk (setCall (sy_n s) (Returned cmds (Inl ErrKv)) (s\<lparr>sy_kv := kv, sy_n := sy_n s + 1\<rparr>))"
proof -
  have "kv = sy_kv s" using assms(2) by (simp add: conn_def split: list.splits if_splits)
  then show ?thesis
    using assms(1) by (auto simp: sysOk_def ownOk_def less_Suc_eq split: if_splits)
qed

interpretation kv_pool: invariant_system poolInit "poolStep serve" "\<lambda>s. (\<forall>c d. resp_ok (fst (serve c d))) \<longrightarrow> sysOk s" for serve
proof
  fix s
  assume "poolInit s"
  then show "(\<forall>c d. resp_ok (fst (serve c d))) \<longrightarrow> sysOk s"
    by (simp add: poolInit_def sysOk_def poolOk_def ownOk_def newKv_def noConn_def logOf_def)
next
  fix s t
  assume i: "(\<forall>c d. resp_ok (fst (serve c d))) \<longrightarrow> sysOk s" and st: "poolStep serve s t"
  show "(\<forall>c d. resp_ok (fst (serve c d))) \<longrightarrow> sysOk t"
  proof
    assume r: "\<forall>c d. resp_ok (fst (serve c d))"
    then have s: "sysOk s" using i by simp
    from st show "sysOk t"
    proof cases
      case (Execute c x out rp d i)
      have "resp_ok rp" using r Execute(3) by (metis fst_conv)
      then show ?thesis using Execute sysOk_execute [OF s] by simp
    qed (use s sysOk_checkout sysOk_no_conn sysOk_write sysOk_read sysOk_return in auto)
  qed
qed

section \<open>Safety of the pool\<close>

text \<open>C11. Concurrent callers never see each other's replies: whatever the interleaving of calls, failures and the
  server's work, no two running calls use the same connection, at most \<open>kvPoolSize\<close> connections are idle, an
  idle connection has nothing written and nothing unread, and a call that returns without an error has had exactly
  its own commands executed, once each and in order, and returns exactly the server's replies to them.\<close>

theorem pool_replies_match:
  assumes "poolInit s0" and "(poolStep serve)\<^sup>*\<^sup>* s0 s" and "\<forall>c d. resp_ok (fst (serve c d))"
  shows "(\<forall>i j k m c. sy_call s i = Some k \<and> sy_call s j = Some m \<and> uses k = Some c \<and> uses m = Some c \<longrightarrow> i = j)
    \<and> length (po_idle (sy_kv s)) \<le> kvPoolSize
    \<and> (\<forall>c \<in> set (po_idle (sy_kv s)). kc_out (po_conn (sy_kv s) c) = [] \<and> kc_in (po_conn (sy_kv s) c) = [])
    \<and> (\<forall>i cmds rs. sy_call s i = Some (Returned cmds (Inr rs))
         \<longrightarrow> length rs = length cmds \<and> logOf i (sy_log s) = zip cmds rs)"
proof -
  have s: "sysOk s" using kv_pool.inv_reachable [OF assms(1,2)] assms(3) by blast
  have "i = j" if "sy_call s i = Some k" "uses k = Some c" "sy_call s j = Some m" "uses m = Some c" for i j k m c
    using ownOkD(4) [OF sysOkD(2) [OF s] that(1,2)] ownOkD(4) [OF sysOkD(2) [OF s] that(3,4)] by simp
  moreover have "length rs = length cmds \<and> logOf i (sy_log s) = zip cmds rs" if "sy_call s i = Some (Returned cmds (Inr rs))" for i cmds rs
    using sysOkD(3) [OF s that] by simp
  ultimately show ?thesis using sysOkD(1) [OF s] unfolding poolOk_def by blast
qed

definition demoSys :: "nat kvSys" where
  "demoSys = \<lparr>sy_kv = newKv, sy_db = 0, sy_call = (\<lambda>_. None), sy_n = 0, sy_log = []\<rparr>"

lemma demo_checkout:
  "conn True newKv = (Some 0, \<lparr>po_idle = [], po_conn = (\<lambda>_. noConn)(0 := noConn\<lparr>kc_open := True\<rparr>), po_next = 1\<rparr>)"
  by (simp add: conn_def newKv_def)

theorem pool_replies_match_witness:
  "\<exists>s. (poolStep countServer)\<^sup>*\<^sup>* demoSys s
     \<and> sy_call s 0 = Some (Returned [[''PING'']] (Inr [Resp (CHR '':'') None 1 None]))
     \<and> logOf 0 (sy_log s) = [([''PING''], Resp (CHR '':'') None 1 None)]"
proof -
  let ?r = "Resp (CHR '':'') None 1 None" and ?step = "poolStep countServer"
  have a: "list_all args_ok [[''PING'']]" "resp_ok (cmdResp [''PING''])" "resp_ok ?r"
    by (simp_all add: args_ok_def in_i64_def cmdResp_def bulk_def)
  obtain s1 where s1: "?step demoSys s1" "sy_call s1 0 = Some (Writing [[''PING'']] 0)" "kc_call (po_conn (sy_kv s1) 0) = Some 0"
      "kc_out (po_conn (sy_kv s1) 0) = []" "kc_in (po_conn (sy_kv s1) 0) = []" "sy_db s1 = 0"
    using poolStep.Checkout [of True demoSys 0 _ "[[''PING'']]" countServer, OF _ a(1)] demo_checkout
    by (fastforce simp: demoSys_def noConn_def)
  obtain s2 where s2: "?step s1 s2" "sy_call s2 0 = Some (Reading [[''PING'']] 0 [])" "kc_call (po_conn (sy_kv s2) 0) = Some 0"
      "kc_out (po_conn (sy_kv s2) 0) = printResp (cmdResp [''PING''])" "kc_in (po_conn (sy_kv s2) 0) = []" "sy_db s2 = 0"
    using poolStep.Write [OF s1(2), of countServer] s1(3-6) by (fastforce simp: pipeBytes_simps)
  have "readResp (kc_out (po_conn (sy_kv s2) 0)) = RdOk (cmdResp [''PING'']) []"
    using readResp_print [OF a(2), of "[]"] s2(4) by simp
  moreover have "countServer (map strOf (arrOf (cmdResp [''PING'']))) (sy_db s2) = (?r, 1)"
    using s2(6) by (simp add: countServer_def i64_id in_i64_def)
  ultimately obtain s3 where s3: "?step s2 s3" "sy_call s3 0 = Some (Reading [[''PING'']] 0 [])" "kc_in (po_conn (sy_kv s3) 0) = printResp ?r"
    using poolStep.Execute [of s2 0 _ _ countServer _ _ 0] s2(2,3,5) by fastforce
  have "readResp (kc_in (po_conn (sy_kv s3) 0)) = RdOk ?r []" using readResp_print [OF a(3), of "[]"] s3(3) by simp
  then obtain s4 where s4: "?step s3 s4" "sy_call s4 0 = Some (Reading [[''PING'']] 0 [?r])"
    using poolStep.Read [OF s3(2), of ?r "[]" countServer] by fastforce
  obtain s5 where s5: "?step s4 s5" "sy_call s5 0 = Some (Returned [[''PING'']] (Inr [?r]))"
    using poolStep.Return [OF s4(2), of countServer] by fastforce
  have run: "?step\<^sup>*\<^sup>* demoSys s5" using s1(1) s2(1) s3(1) s4(1) s5(1) by (meson converse_rtranclp_into_rtranclp rtranclp.rtrancl_refl)
  have "poolInit demoSys" by (simp add: poolInit_def demoSys_def)
  moreover have "\<forall>c d. resp_ok (fst (countServer c d))" by (simp add: countServer_def)
  ultimately show ?thesis using pool_replies_match [OF _ run] run s5(2) by fastforce
qed

text \<open>The number of open connections is not bounded by the pool: a call that finds no idle connection dials one.\<close>

lemma pool_unbounded:
  "\<exists>s. (poolStep serve)\<^sup>*\<^sup>* (demoSys\<lparr>sy_db := d\<rparr>) s \<and> card {c. kc_open (po_conn (sy_kv s) c)} = n"
proof -
  have "\<exists>s. (poolStep serve)\<^sup>*\<^sup>* (demoSys\<lparr>sy_db := d\<rparr>) s \<and> po_idle (sy_kv s) = [] \<and> po_next (sy_kv s) = n
      \<and> {c. kc_open (po_conn (sy_kv s) c)} = {..<n}"
  proof (induction n)
    case 0
    show ?case by (rule exI [of _ "demoSys\<lparr>sy_db := d\<rparr>"]) (simp add: demoSys_def newKv_def noConn_def)
  next
    case (Suc n)
    then obtain s where s: "(poolStep serve)\<^sup>*\<^sup>* (demoSys\<lparr>sy_db := d\<rparr>) s" "po_idle (sy_kv s) = []" "po_next (sy_kv s) = n"
      "{c. kc_open (po_conn (sy_kv s) c)} = {..<n}" by blast
    let ?kv = "updConn n (\<lambda>_. noConn\<lparr>kc_open := True\<rparr>) ((sy_kv s)\<lparr>po_next := n + 1\<rparr>)"
    let ?s = "setCall (sy_n s) (Writing [] n) (s\<lparr>sy_kv := updConn n (kc_call_update (\<lambda>_. Some (sy_n s))) ?kv, sy_n := sy_n s + 1\<rparr>)"
    have "conn True (sy_kv s) = (Some n, ?kv)" using s(2,3) by (simp add: conn_def)
    then have "poolStep serve s ?s" by (rule poolStep.Checkout) simp
    then have "(poolStep serve)\<^sup>*\<^sup>* (demoSys\<lparr>sy_db := d\<rparr>) ?s" using s(1) by (rule rtranclp.rtrancl_into_rtrancl [rotated])
    moreover have "{c. kc_open (po_conn (sy_kv ?s) c)} = insert n {c. kc_open (po_conn (sy_kv s) c)}" by (rule set_eqI) simp
    ultimately show ?case using s(2,4) by (intro exI [of _ ?s]) (simp add: lessThan_Suc)
  qed
  then show ?thesis by (metis card_lessThan)
qed

end
