(* ===== verification/Transport.thy ===== *)
theory Transport
  imports App "HOL-Library.AList"
begin

text \<open>
  The two frontends of \<open>internal/app\<close>: \<open>fast.go\<close> (fasthttp) and \<open>std.go\<close> (net/http). What a frontend library
  hands over is a record of values; what it is told to send is a status, a list of header fields and a
  body. Header names in this code are constants in lower case, so \<open>Set\<close> replaces by equality of names.
\<close>

section \<open>Settings\<close>

definition envInt64 :: "(bytes \<Rightarrow> bytes) \<Rightarrow> bytes \<Rightarrow> int \<Rightarrow> int" where
  "envInt64 getenv k dflt =
     (let v = getenv k
      in if v \<noteq> [] then (case ParseInt v of (n, None) \<Rightarrow> n | _ \<Rightarrow> dflt) else dflt)"

definition envStr :: "(bytes \<Rightarrow> bytes) \<Rightarrow> bytes \<Rightarrow> bytes \<Rightarrow> bytes" where
  "envStr getenv k dflt = (let v = getenv k in if v \<noteq> [] then v else dflt)"

text \<open>The package variables the frontends and the handler read.\<close>

definition linkTTL :: "(bytes \<Rightarrow> bytes) \<Rightarrow> int" where
  "linkTTL getenv = envInt64 getenv ''LINK_TTL_MS'' 86400000"

definition CORSOrigin :: "(bytes \<Rightarrow> bytes) \<Rightarrow> bytes" where
  "CORSOrigin getenv = envStr getenv ''CORS_ORIGIN'' ''*''"

definition trustProxy :: "(bytes \<Rightarrow> bytes) \<Rightarrow> bool" where
  "trustProxy getenv \<longleftrightarrow> getenv ''TRUST_PROXY'' \<noteq> []"

section \<open>Responses\<close>

record httpResp =
  hrStatus :: int
  hrHeader :: "(bytes \<times> bytes) list"
  hrBody :: bytes

definition setHeader :: "bytes \<Rightarrow> bytes \<Rightarrow> (bytes \<times> bytes) list \<Rightarrow> (bytes \<times> bytes) list" where
  "setHeader k v h = AList.update k v h"

definition corsHeaders :: "(bytes \<times> bytes) list" where
  "corsHeaders =
     [(''access-control-allow-methods'', ''GET,POST,PATCH,DELETE,OPTIONS''),
      (''access-control-allow-headers'', ''content-type''),
      (''access-control-max-age'', ''86400'')]"

definition tooLarge :: Reply where
  "tooLarge = json 413 ''{\"error\":\"body too large\"}''"

definition respond :: "bytes \<Rightarrow> Reply \<Rightarrow> httpResp \<Rightarrow> httpResp" where
  "respond origin r resp =
     (let resp = resp\<lparr>hrStatus := Status1 r\<rparr>;
          h = setHeader ''access-control-allow-origin'' origin (hrHeader resp);
          h = fold (\<lambda>(k, v). setHeader k v) corsHeaders h
      in if Location r \<noteq> [] then resp\<lparr>hrHeader := setHeader ''location'' (Location r) h\<rparr>
         else
           let h = (if CType r \<noteq> [] then setHeader ''content-type'' (CType r) h
                    else setHeader ''content-type'' ''application/json'' h)
           in resp\<lparr>hrHeader := h, hrBody := Body r\<rparr>)"

text \<open>The writer of net/http: the first \<open>WriteHeader\<close> fixes the status, \<open>Write\<close> appends.\<close>

record stdWriter = httpResp +
  swWrote :: bool

definition WriteHeader :: "int \<Rightarrow> stdWriter \<Rightarrow> stdWriter" where
  "WriteHeader st w = (if swWrote w then w else w\<lparr>hrStatus := st, swWrote := True\<rparr>)"

definition Write :: "bytes \<Rightarrow> stdWriter \<Rightarrow> stdWriter" where
  "Write b w = (WriteHeader 200 w)\<lparr>hrBody := hrBody w @ b\<rparr>"

definition writeStd :: "bytes \<Rightarrow> Reply \<Rightarrow> stdWriter \<Rightarrow> stdWriter" where
  "writeStd origin r w =
     (let h = setHeader ''access-control-allow-origin'' origin (hrHeader w);
          h = fold (\<lambda>(k, v). setHeader k v) corsHeaders h
      in if Location r \<noteq> [] then WriteHeader (Status1 r) (w\<lparr>hrHeader := setHeader ''location'' (Location r) h\<rparr>)
         else
           let h = (if CType r \<noteq> [] then setHeader ''content-type'' (CType r) h
                    else setHeader ''content-type'' ''application/json'' h)
           in Write (Body r) (WriteHeader (Status1 r) (w\<lparr>hrHeader := h\<rparr>)))"

section \<open>The peer's address\<close>

text \<open>\<open>net.SplitHostPort\<close>, as far as its host and its error are used.\<close>

definition LastIndexByte :: "bytes \<Rightarrow> char \<Rightarrow> nat option" where
  "LastIndexByte s c = map_option (\<lambda>i. length s - 1 - i) (IndexByte (rev s) c)"

definition SplitHostPort :: "bytes \<Rightarrow> bytes option" where
  "SplitHostPort hp =
     Option.bind (LastIndexByte hp (CHR '':'')) (\<lambda>i.
       Option.bind
         (if hp ! 0 = CHR ''['' then
            (case IndexByte hp (CHR '']'') of
               None \<Rightarrow> None
             | Some e \<Rightarrow> if e + 1 = i then Some (drop 1 (take e hp), 1, e + 1) else None)
          else if IndexByte (take i hp) (CHR '':'') \<noteq> None then None
          else Some (take i hp, 0, 0))
         (\<lambda>(host, j, k).
            if IndexByte (drop j hp) (CHR ''['') \<noteq> None \<or> IndexByte (drop k hp) (CHR '']'') \<noteq> None then None
            else Some host))"

definition firstHop :: "bytes \<Rightarrow> bytes" where
  "firstHop xff = (case IndexByte xff (CHR '','') of Some i \<Rightarrow> TrimSpace (take i xff) | None \<Rightarrow> TrimSpace xff)"

section \<open>The frontends\<close>

record fastCtx =
  fcMethod :: bytes
  fcURI :: bytes
  fcBody :: bytes
  fcPeek :: "bytes \<Rightarrow> bytes"
  fcRemoteIP :: bytes

record stdReq =
  sqMethod :: bytes
  sqURI :: bytes
  sqBody :: bytes
  sqBodyErr :: bool
  sqGet :: "bytes \<Rightarrow> bytes"
  sqRemoteAddr :: bytes

definition clientIP :: "bool \<Rightarrow> fastCtx \<Rightarrow> bytes" where
  "clientIP trust ctx =
     (let xff = fcPeek ctx ''x-forwarded-for''
      in if trust \<and> xff \<noteq> [] then firstHop xff else fcRemoteIP ctx)"

definition clientIPStd :: "bool \<Rightarrow> stdReq \<Rightarrow> bytes" where
  "clientIPStd trust r =
     (let xff = sqGet r ''x-forwarded-for''
      in if trust \<and> xff \<noteq> [] then firstHop xff
         else case SplitHostPort (sqRemoteAddr r) of None \<Rightarrow> sqRemoteAddr r | Some host \<Rightarrow> host)"

definition bodyLimit :: "bytes \<Rightarrow> nat" where
  "bodyLimit path = (if fst (splitPath path) = ''/api/shorten/bulk'' then MaxBulkBody else MaxBody)"

definition FastHandler ::
  "app_env \<Rightarrow> bytes \<Rightarrow> bool \<Rightarrow> 's API \<Rightarrow> fastCtx \<Rightarrow> 's app \<Rightarrow> (httpResp \<times> 's app) option" where
  "FastHandler env origin trust api ctx a =
     (let fresh = \<lparr>hrStatus = 200, hrHeader = [], hrBody = []\<rparr>;
          hasBody = (fcMethod ctx = ''POST'' \<or> fcMethod ctx = ''PATCH'');
          body = (if hasBody then fcBody ctx else [])
      in if hasBody \<and> bodyLimit (fcURI ctx) < length body then Some (respond origin tooLarge fresh, a)
         else map_option (\<lambda>(r, a). (respond origin r fresh, a))
                (Handle env api (fcMethod ctx) (fcURI ctx) body (fcPeek ctx ''x-admin-token'') (clientIP trust ctx) a))"

text \<open>\<open>io.ReadAll\<close> of a body that delivers \<open>sqBody\<close> and then ends or fails, through a \<open>LimitReader\<close>.\<close>

definition readLimited :: "nat \<Rightarrow> stdReq \<Rightarrow> bytes option" where
  "readLimited n r =
     (if n \<le> length (sqBody r) then Some (take n (sqBody r)) else if sqBodyErr r then None else Some (sqBody r))"

definition StdHandler ::
  "app_env \<Rightarrow> bytes \<Rightarrow> bool \<Rightarrow> 's API \<Rightarrow> stdReq \<Rightarrow> 's app \<Rightarrow> (stdWriter \<times> 's app) option" where
  "StdHandler env origin trust api r a =
     (let w = \<lparr>hrStatus = 200, hrHeader = [], hrBody = [], swWrote = False\<rparr>;
          limit = bodyLimit (sqURI r);
          run = (\<lambda>body. map_option (\<lambda>(rp, a). (writeStd origin rp w, a))
                   (Handle env api (sqMethod r) (sqURI r) body (sqGet r ''x-admin-token'') (clientIPStd trust r) a))
      in if sqMethod r = ''POST'' \<or> sqMethod r = ''PATCH'' then
           (case readLimited (limit + 1) r of
              None \<Rightarrow> Some (WriteHeader 400 w, a)
            | Some b \<Rightarrow> if limit < length b then Some (writeStd origin tooLarge w, a) else run b)
         else run [])"

section \<open>The frontends agree\<close>

text \<open>The address of a peer as net/http reports it.\<close>

definition JoinHostPort :: "bytes \<Rightarrow> bytes \<Rightarrow> bytes" where
  "JoinHostPort host port =
     (if CHR '':'' \<in> set host then CHR ''['' # host @ '']:'' @ port else host @ CHR '':'' # port)"

lemma LastIndexByte_split: "c \<notin> set t \<Longrightarrow> LastIndexByte (s @ c # t) c = Some (length s)"
  using IndexByte_split [of c "rev t" "rev s"] by (simp add: LastIndexByte_def)

lemma SplitHostPort_Join:
  assumes "set host \<inter> {CHR ''['', CHR '']''} = {}" and "set port \<inter> {CHR '':'', CHR ''['', CHR '']''} = {}"
  shows "SplitHostPort (JoinHostPort host port) = Some host"
proof (cases "CHR '':'' \<in> set host")
  case True
  let ?hp = "CHR ''['' # host @ CHR '']'' # CHR '':'' # port"
  have "LastIndexByte ((CHR ''['' # host @ [CHR '']'']) @ CHR '':'' # port) (CHR '':'') = Some (length host + 2)"
    using assms(2) by (subst LastIndexByte_split) simp_all
  moreover have "IndexByte (host @ CHR '']'' # CHR '':'' # port) (CHR '']'') = Some (length host)"
    using assms(1) by (intro IndexByte_split) auto
  ultimately show ?thesis using True assms by (auto simp: SplitHostPort_def JoinHostPort_def)
next
  case False
  have "LastIndexByte (host @ CHR '':'' # port) (CHR '':'') = Some (length host)"
    using assms(2) by (intro LastIndexByte_split) simp
  moreover have "(host @ CHR '':'' # port) ! 0 \<noteq> CHR ''[''" using assms(1) by (cases host) auto
  ultimately show ?thesis using False assms by (auto simp: SplitHostPort_def JoinHostPort_def)
qed

lemma writeStd_respond:
  "httpResp.truncate (writeStd origin r \<lparr>hrStatus = 200, hrHeader = [], hrBody = [], swWrote = False\<rparr>)
   = respond origin r \<lparr>hrStatus = 200, hrHeader = [], hrBody = []\<rparr>"
  by (simp add: writeStd_def respond_def WriteHeader_def Write_def httpResp.defs Let_def)

text \<open>One request as both libraries present it.\<close>

definition sameRequest :: "fastCtx \<Rightarrow> stdReq \<Rightarrow> bytes \<Rightarrow> bool" where
  "sameRequest ctx r port \<longleftrightarrow>
     sqMethod r = fcMethod ctx \<and> sqURI r = fcURI ctx \<and> sqBody r = fcBody ctx \<and> \<not> sqBodyErr r \<and> sqGet r = fcPeek ctx
     \<and> sqRemoteAddr r = JoinHostPort (fcRemoteIP ctx) port
     \<and> set (fcRemoteIP ctx) \<inter> {CHR ''['', CHR '']''} = {} \<and> set port \<inter> {CHR '':'', CHR ''['', CHR '']''} = {}"

lemma sameRequest_client: "sameRequest ctx r port \<Longrightarrow> clientIPStd trust r = clientIP trust ctx"
  using SplitHostPort_Join [of "fcRemoteIP ctx" port] by (auto simp: sameRequest_def clientIPStd_def clientIP_def Let_def)

text \<open>C14. The choice of the frontend cannot be observed: for one request, as fasthttp and as net/http present it,
  both frontends send the same status, the same header fields and the same body, and leave the same
  state of store, limiter and counters, or both panic.\<close>

theorem frontends_agree:
  assumes "sameRequest ctx r port"
  shows "FastHandler env origin trust api ctx a
         = map_option (\<lambda>(w, a). (httpResp.truncate w, a)) (StdHandler env origin trust api r a)"
proof -
  note c = sameRequest_client [OF assms, of trust]
  have r: "sqMethod r = fcMethod ctx" "sqURI r = fcURI ctx" "sqBody r = fcBody ctx" "\<not> sqBodyErr r" "sqGet r = fcPeek ctx"
    using assms by (simp_all add: sameRequest_def)
  show ?thesis
  proof (cases "(fcMethod ctx = ''POST'' \<or> fcMethod ctx = ''PATCH'') \<and> bodyLimit (fcURI ctx) < length (fcBody ctx)")
    case True
    then have "readLimited (bodyLimit (fcURI ctx) + 1) r = Some (take (bodyLimit (fcURI ctx) + 1) (fcBody ctx))"
      using r by (simp add: readLimited_def)
    then show ?thesis using True r by (auto simp: FastHandler_def StdHandler_def writeStd_respond Let_def)
  next
    case False
    then have "readLimited (bodyLimit (fcURI ctx) + 1) r = Some (fcBody ctx)"
      if "fcMethod ctx = ''POST'' \<or> fcMethod ctx = ''PATCH''"
      using r that by (auto simp: readLimited_def)
    then show ?thesis
      using False r c by (auto simp: FastHandler_def StdHandler_def writeStd_respond Let_def option.map_comp comp_def case_prod_beta')
  qed
qed

text \<open>A request to create a link, from an IPv6 peer.\<close>

definition demoCtx :: fastCtx where
  "demoCtx = \<lparr>fcMethod = ''POST'', fcURI = ''/api/shorten'', fcBody = ''http://x'', fcPeek = (\<lambda>_. []), fcRemoteIP = ''::1''\<rparr>"

definition demoReq :: stdReq where
  "demoReq = \<lparr>sqMethod = ''POST'', sqURI = ''/api/shorten'', sqBody = ''http://x'', sqBodyErr = False, sqGet = (\<lambda>_. []),
     sqRemoteAddr = ''[::1]:4711''\<rparr>"

lemma demo_sameRequest: "sameRequest demoCtx demoReq ''4711''"
  by (simp add: sameRequest_def demoCtx_def demoReq_def JoinHostPort_def)

theorem frontends_agree_witness:
  "FastHandler demoEnv ''*'' False (aofAPI demoAof) demoCtx demoApp
   = map_option (\<lambda>(w, a). (httpResp.truncate w, a)) (StdHandler demoEnv ''*'' False (aofAPI demoAof) demoReq demoApp)"
  by (rule frontends_agree [OF demo_sameRequest])

section \<open>Refusals before the handler\<close>

lemma respond_status [simp]: "hrStatus (respond origin r resp) = Status1 r"
  by (simp add: respond_def Let_def)

lemma writeStd_status: "\<not> swWrote w \<Longrightarrow> hrStatus (writeStd origin r w) = Status1 r"
  by (simp add: writeStd_def WriteHeader_def Write_def Let_def)

text \<open>A frontend never lets an oversized or broken body reach the handler: a \<open>POST\<close> or \<open>PATCH\<close> whose body is longer
  than the limit of its path is answered 413 by both frontends, one whose body cannot be read is answered
  400 by net/http, and store, limiter and counters are untouched. What is handed on is at most the limit.\<close>

theorem body_refused:
  assumes "m = ''POST'' \<or> m = ''PATCH''" and "fcMethod ctx = m" and "sqMethod r = m"
  shows "(bodyLimit (fcURI ctx) < length (fcBody ctx)
            \<longrightarrow> (\<exists>resp. FastHandler env origin trust api ctx a = Some (resp, a) \<and> hrStatus resp = 413))
         \<and> (bodyLimit (sqURI r) < length (sqBody r)
            \<longrightarrow> (\<exists>w. StdHandler env origin trust api r a = Some (w, a) \<and> hrStatus w = 413))
         \<and> (length (sqBody r) \<le> bodyLimit (sqURI r) \<and> sqBodyErr r
            \<longrightarrow> (\<exists>w. StdHandler env origin trust api r a = Some (w, a) \<and> hrStatus w = 400))"
  using assms
  by (auto simp: FastHandler_def StdHandler_def readLimited_def tooLarge_def json_def writeStd_status WriteHeader_def Let_def)

theorem body_refused_witness:
  "(\<exists>resp. FastHandler demoEnv ''*'' False (aofAPI demoAof) (demoCtx\<lparr>fcBody := replicate 4097 (CHR ''x'')\<rparr>) demoApp = Some (resp, demoApp)
       \<and> hrStatus resp = 413)
   \<and> (\<exists>w. StdHandler demoEnv ''*'' False (aofAPI demoAof) (demoReq\<lparr>sqBodyErr := True\<rparr>) demoApp = Some (w, demoApp) \<and> hrStatus w = 400)"
proof -
  have "splitPath ''/api/shorten'' = (''/api/shorten'', [])" by (simp add: splitPath_def)
  then have l: "bodyLimit ''/api/shorten'' = 4096" by (simp add: bodyLimit_def MaxBody_def)
  have "fcMethod (demoCtx\<lparr>fcBody := replicate 4097 (CHR ''x'')\<rparr>) = ''POST''" "sqMethod (demoReq\<lparr>sqBodyErr := True\<rparr>) = ''POST''"
    by (simp_all add: demoCtx_def demoReq_def)
  from body_refused [OF disjI1 [OF refl] this, of demoEnv "''*''" False "aofAPI demoAof" demoApp]
  show ?thesis by (simp add: demoCtx_def demoReq_def l)
qed

end
