(* ===== verification/StoreSteps.thy ===== *)
theory StoreSteps
  imports Links
begin

text \<open>
  The operations of one instance of the AOF engine as steps of its store, over a directory that other
  instances change at will and whose system calls may fail. What no operation ever changes: the
  instance id and with it the first character of the codes the instance generates; and only \<open>Close\<close>
  closes the store.
\<close>

inductive storeStep :: "Store \<Rightarrow> Store \<Rightarrow> bool" where
  Shorten: "Shorten draws now url al hasAlias ttl fs s = Some (code, s', fs') \<Longrightarrow> storeStep s s'"
| ShortenMany: "ShortenMany rnd draws now urls ttl fs s = Some (codes, s', fs') \<Longrightarrow> storeStep s s'"
| Update: "Update now code url ttl hasTTL s = (r, s') \<Longrightarrow> storeStep s s'"
| Remove: "Remove code s = (r, s') \<Longrightarrow> storeStep s s'"
| Resolve: "Resolve g track clk code fs s = Some (r, s') \<Longrightarrow> storeStep s s'"
| PollTails: "PollTails g now fs s = Some s' \<Longrightarrow> storeStep s s'"
| Flush: "Flush g fs s = (s', fs') \<Longrightarrow> storeStep s s'"
| Sync: "syncTick fs s = (s', fs') \<Longrightarrow> storeStep s s'"
| Compact: "Compact g createOK writes renameOK truncOK fs s = (s', fs') \<Longrightarrow> storeStep s s'"

definition core :: "Store \<Rightarrow> int \<times> char \<times> bool" where
  "core s = (sinstance s, sprefix s, closed s)"

lemma core_simps [simp]:
  "core (putEntry c e s) = core s" "core (delEntry c s) = core s" "core (bumpDirty c s) = core s"
  "core (pushLine l s) = core s" "core (insertRow c u now x s) = core s" "core (addTail n s) = core s"
  "core (s\<lparr>aof := a\<rparr>) = core s" "core (s\<lparr>tails := t\<rparr>) = core s" "core (s\<lparr>lastPoll := p\<rparr>) = core s"
  "core (s\<lparr>shards := sh\<rparr>) = core s"
  by (simp_all add: core_def insertRow_def pushLine_def delEntry_def bumpDirty_def addTail_def Let_def split: option.split)

lemma core_fold: "(\<And>x s. core (f x s) = core s) \<Longrightarrow> core (fold f xs s) = core s"
  by (induction xs arbitrary: s) simp_all

lemma core_foldOpt: "foldOpt f xs s = Some t \<Longrightarrow> (\<And>x s t. f x s = Some t \<Longrightarrow> core t = core s) \<Longrightarrow> core t = core s"
  by (rule foldOpt_inv [where P = "\<lambda>t. core t = core s"]) auto

lemma core_applyLine: "applyLine g b s = Some t \<Longrightarrow> core t = core s"
  by (simp add: core_def apply_line_frame(2,3,7))

lemma core_flushIfLarge: "flushIfLarge s fs = (s', fs') \<Longrightarrow> core s' = core s"
  by (auto simp: flushIfLarge_def split: option.splits prod.splits if_splits)

lemma core_many: "shortenManyLoop rnd draws now x i us s = Some (cs, s') \<Longrightarrow> core s' = core s"
proof (induction us arbitrary: i s cs)
  case (Cons u us)
  then obtain code cs' where "shortenManyLoop rnd draws now x (Suc i) us (insertRow code u now x s) = Some (cs', s')"
    by (auto split: option.splits)
  from Cons(1) [OF this] show ?case by simp
qed simp

lemma core_flushShard [simp]: "core (flushShard g i s) = core s"
  unfolding flushShard_def Let_def by (simp add: core_fold split: option.split)

lemma core_flushes:
  "Flush g fs s = (s', fs') \<Longrightarrow> core s' = core s" "flushLocked g fs s = (s', fs') \<Longrightarrow> core s' = core s"
proof -
  have "core (fold (\<lambda>i s. if 0 < maplen (sh_dirty (shards s i)) then flushShard g i s else s) is s) = core s"
    "core (fold (flushShard g) is s) = core s" for "is" by (simp_all add: core_fold)
  then show "Flush g fs s = (s', fs') \<Longrightarrow> core s' = core s" "flushLocked g fs s = (s', fs') \<Longrightarrow> core s' = core s"
    by (auto simp: Flush_def flushLocked_def Let_def split: option.splits prod.splits)
qed

lemma core_Compact: "Compact g createOK writes renameOK truncOK fs s = (s', fs') \<Longrightarrow> core s' = core s"
  by (auto simp: Compact_def Let_def split: option.splits prod.splits if_splits dest!: core_flushes(2))

lemma core_ReplayFile: "ReplayFile p (applyLine g) fs s = Some t \<Longrightarrow> core t = core s"
  by (auto simp: ReplayFile_def split: option.splits dest!: core_foldOpt [OF _ core_applyLine])

lemma core_readTail: "readTail g fs n s = Some t \<Longrightarrow> core t = core s"
  by (auto simp: readTail_def ReadNew_def Let_def split: option.splits if_splits prod.splits
      dest!: core_foldOpt [OF _ core_applyLine])

lemma core_PollTails: "PollTails g now fs s = Some t \<Longrightarrow> core t = core s"
  by (auto simp: PollTails_def Let_def core_fold split: option.splits dest!: core_foldOpt [OF _ core_readTail])

lemma core_findEntry: "findEntry g clk code fs s = Some (e, t) \<Longrightarrow> core t = core s"
  by (auto simp: findEntry_def tailOwner_def lazyPoll_def Let_def bind_eq_Some_conv
      split: if_splits list.splits dest!: core_readTail core_PollTails)

lemma core_Shorten: "Shorten draws now url al hasAlias ttl fs s = Some (code, s', fs') \<Longrightarrow> core s' = core s"
  using core_flushIfLarge by (fastforce simp: Shorten_def Let_def split: if_splits prod.splits)

lemma storeStep_core:
  assumes "storeStep s s'"
  shows "core s' = core s"
  using assms
proof cases
  case (Shorten draws now url al hasAlias ttl fs code fs')
  then show ?thesis by (rule core_Shorten)
next
  case (ShortenMany rnd draws now urls ttl fs codes fs')
  then show ?thesis by (auto simp: ShortenMany_def split: prod.splits dest!: core_many core_flushIfLarge)
next
  case (Update now code url ttl hasTTL r)
  then show ?thesis by (auto simp: Update_def Let_def split: option.splits if_splits)
next
  case (Remove code r)
  then show ?thesis by (auto simp: Remove_def split: option.splits if_splits)
next
  case (Resolve g track clk code fs r)
  then show ?thesis
    by (auto simp: Resolve_def countHit_def bind_eq_Some_conv split: option.splits if_splits dest!: core_findEntry)
next
  case (Sync fs fs')
  then show ?thesis by (auto simp: syncTick_def split: option.splits prod.splits)
qed (auto dest: core_PollTails core_flushes(1) core_Compact)

lemma storeSteps_core: "storeStep\<^sup>*\<^sup>* s s' \<Longrightarrow> core s' = core s"
  by (induction rule: rtranclp_induct) (simp_all add: storeStep_core)

section \<open>Generated codes\<close>

text \<open>A code that a store generates: for one link, or for one of many.\<close>

inductive generates :: "Store \<Rightarrow> bytes \<Rightarrow> bool" for s where
  one: "Shorten draws now url al False ttl fs s = Some (code, s', fs') \<Longrightarrow> generates s code"
| many: "ShortenMany rnd draws now urls ttl fs s = Some (codes, s', fs') \<Longrightarrow> code \<in> set codes \<Longrightarrow> generates s code"

lemma many_prefix:
  assumes "shortenManyLoop rnd draws now x i us s = Some (codes, s')" and "code \<in> set codes"
  shows "hd code = sprefix s"
  using assms
proof (induction us arbitrary: i s codes)
  case (Cons u us)
  then obtain c codes' where c: "freshCode s (drop (i * (codeLen - 1)) rnd # draws i) = Some c" "codes = c # codes'"
    "shortenManyLoop rnd draws now x (Suc i) us (insertRow c u now x s) = Some (codes', s')"
    by (auto simp del: freshCode.simps split: option.splits)
  have "hd c = sprefix s" using freshCode_shape [OF c(1)] by auto
  then show ?case using Cons.IH [OF c(3)] Cons.prems(2) c(2) by auto
qed simp

lemma generates_prefix: "generates s code \<Longrightarrow> hd code = sprefix s"
  by (induction rule: generates.induct) (auto simp: ShortenMany_def Shorten_prefix dest: many_prefix split: prod.splits)

text \<open>Two instances with different characters never generate the same code, whatever happened to their stores.\<close>

lemma prefixes_disjoint:
  assumes "sprefix s1 \<noteq> sprefix s2" and "storeStep\<^sup>*\<^sup>* s1 t1" and "storeStep\<^sup>*\<^sup>* s2 t2"
    and "generates t1 code1" and "generates t2 code2"
  shows "code1 \<noteq> code2"
  using generates_prefix [OF assms(4)] generates_prefix [OF assms(5)] assms(1)
    storeSteps_core [OF assms(2)] storeSteps_core [OF assms(3)] by (auto simp: core_def)

end
