(* ===== verification/Siblings.thy ===== *)
theory Siblings
  imports Durability StoreSteps
begin

text \<open>
  Several instances over one data directory: claiming of ids, the disjoint code spaces of live
  instances, convergence of an instance with the log of a sibling, arrival of hit deltas and rows
  in either order.
\<close>

section \<open>Instance ids\<close>

lemma ClaimInstance_spec:
  assumes "ClaimInstance locks alive pid fs = (Inr i, fs')"
  obtains lk where "locks = Some lk" and "claimable lk alive fs i" and "i < 1024" and "\<And>j. j < i \<Longrightarrow> \<not> claimable lk alive fs j"
    and "fmlookup fs' (lockName i) = fmlookup (lockedBy lk pid i fs) (lockName i)"
    and "\<And>n. n \<noteq> lockName i \<Longrightarrow> \<not> staleLock alive fs n \<Longrightarrow> fmlookup fs' n = fmlookup fs n"
proof -
  obtain lk where lk: "locks = Some lk" "claimLoop lk alive pid [0..<1024] fs = (Some i, fs')"
    using assms by (auto simp: ClaimInstance_def split: prod.splits option.splits)
  note sp = claimLoop_spec [OF lk(2) distinct_upt]
  obtain k where "k < 1024" "claimable lk alive fs ([0..<1024] ! k)" "i = [0..<1024] ! k"
    "\<forall>j < k. \<not> claimable lk alive fs ([0..<1024] ! j)"
    using sp(1) [symmetric] unfolding find_Some_iff by auto
  then show thesis using that [OF lk(1)] sp(2,3) by auto
qed

lemma claim_order: "[0..<1024] = 0 # 1 # [Suc 1..<1024]"
  using upt_conv_Cons [of 0 1024] upt_conv_Cons [of "Suc 0" 1024] by (simp only: One_nat_def)

lemma claim_first: "ClaimInstance (Some goodLocks) alive pid fmempty = (Inr 0, lockedBy goodLocks pid 0 fmempty)"
proof -
  have "claimable goodLocks alive fmempty 0" by (simp add: claimable_def)
  from claimLoop_claims [OF this, of pid] show ?thesis unfolding ClaimInstance_def claim_order by simp
qed

lemma claim_second:
  assumes "in_i64 p" and "alive p"
  shows "ClaimInstance (Some goodLocks) alive pid (lockedBy goodLocks p 0 fmempty)
         = (Inr 1, lockedBy goodLocks pid 1 (lockedBy goodLocks p 0 fmempty))"
proof -
  let ?fs = "lockedBy goodLocks p 0 fmempty"
  obtain f where f: "fmlookup ?fs (lockName 0) = Some f" "lockPid f = Some p"
    using lockPid_lockedBy [OF assms(1), of goodLocks 0 fmempty] by auto
  then have "\<not> claimable goodLocks alive ?fs 0" "\<not> staleLock alive ?fs (lockName 0)"
    using assms(2) by (auto simp: claimable_def staleLock_def)
  then have "claimLoop goodLocks alive pid (0 # is) ?fs = claimLoop goodLocks alive pid is ?fs" for "is"
    by (metis claimLoop_next)
  moreover have "claimable goodLocks alive ?fs 1" by (simp add: claimable_def lockedBy_def lockName_inj)
  ultimately show ?thesis
    using claimLoop_claims [of goodLocks alive ?fs 1 pid "[Suc 1..<1024]"] unfolding ClaimInstance_def claim_order by simp
qed

text \<open>C24. An automatic claim takes the lowest id whose lock can be created, being absent or held by a dead process,
  and records the claiming process in it (unless the write of its number into the new lock file fails); a lock
  naming a live process is never taken. The system calls on the lock files may fail at will.\<close>

theorem ClaimInstance_safe:
  assumes "ClaimInstance (Some lk) alive pid fs = (Inr i, fs')" and "in_i64 pid"
  shows "claimable lk alive fs i \<and> (\<forall>j < i. \<not> claimable lk alive fs j)
         \<and> (lk_short lk (lockName i) = None \<longrightarrow> (\<exists>f. fmlookup fs' (lockName i) = Some f \<and> lockPid f = Some pid))
         \<and> (\<forall>j f p. fmlookup fs (lockName j) = Some f \<and> lockPid f = Some p \<and> alive p \<longrightarrow>
               j \<noteq> i \<and> fmlookup fs' (lockName j) = Some f)"
proof -
  obtain lk' where "Some lk = Some lk'" and c: "claimable lk' alive fs i" "\<And>j. j < i \<Longrightarrow> \<not> claimable lk' alive fs j"
    "fmlookup fs' (lockName i) = fmlookup (lockedBy lk' pid i fs) (lockName i)"
    "\<And>n. n \<noteq> lockName i \<Longrightarrow> \<not> staleLock alive fs n \<Longrightarrow> fmlookup fs' n = fmlookup fs n"
    by (rule ClaimInstance_spec [OF assms(1)]) (rule that)
  then have lk: "lk' = lk" by simp
  have "j \<noteq> i \<and> fmlookup fs' (lockName j) = Some f"
    if "fmlookup fs (lockName j) = Some f" "lockPid f = Some p" "alive p" for j f p
  proof -
    have "j \<noteq> i" using c(1) that by (auto simp: claimable_def)
    moreover have "\<not> staleLock alive fs (lockName j)" using that by (simp add: staleLock_def)
    ultimately show ?thesis using c(4) [of "lockName j"] that(1) by (simp add: lockName_inj)
  qed
  with c(1-3) lockPid_lockedBy [OF assms(2), of lk i fs] show ?thesis unfolding lk by metis
qed

theorem ClaimInstance_safe_witness:
  "\<not> claimable goodLocks (\<lambda>p. p = 7) (lockedBy goodLocks 7 0 fmempty) 0
   \<and> (\<exists>f. fmlookup (lockedBy goodLocks 9 1 (lockedBy goodLocks 7 0 fmempty)) (lockName 1) = Some f \<and> lockPid f = Some 9)"
proof -
  have "ClaimInstance (Some goodLocks) (\<lambda>p. p = 7) 9 (lockedBy goodLocks 7 0 fmempty)
      = (Inr 1, lockedBy goodLocks 9 1 (lockedBy goodLocks 7 0 fmempty))"
    by (rule claim_second) (simp_all add: in_i64_def)
  from ClaimInstance_safe [OF this] show ?thesis by (simp add: in_i64_def)
qed

text \<open>The id a claimed store carries, and its lock.\<close>

lemma New_claimed:
  assumes "New g locks handle alive pid dir inst fs = Some (Inr s, fs')" and "inst < 0"
    and "dir \<noteq> '':memory:''"
  obtains lk i where "locks = Some lk" and "sinstance s = int i" and "i < 62" and "claimable lk alive fs i"
    and "fmlookup fs' (lockName i) = fmlookup (lockedBy lk pid i fs) (lockName i)"
    and "sprefix s = ALPHABET ! i"
proof -
  obtain i fs1 where c: "ClaimInstance locks alive pid fs = (Inr i, fs1)"
    "openInstance g handle (int i) (emptyStore\<lparr>release := Some (lockName i)\<rparr>) fs1 = Some (Inr s, fs')"
    using assms by (auto simp: New_def split: prod.splits sum.splits)
  obtain lk where sp: "locks = Some lk" "claimable lk alive fs i"
    "fmlookup fs1 (lockName i) = fmlookup (lockedBy lk pid i fs) (lockName i)"
    by (rule ClaimInstance_spec [OF c(1)]) (rule that)
  have i: "sinstance s = int i" "i < 62"
    using openInstance_instance(1) [OF c(2)] openInstance_id [OF c(2)] by simp_all
  have "lockName i \<noteq> logName (int i)" using lockName_not_data [of i] logName_shape(1) [of "int i"] by metis
  then have "fmlookup fs' (lockName i) = fmlookup fs1 (lockName i)"
    using c(2) by (auto simp: openInstance_def aofNew_def Let_def
        split: if_splits sum.splits prod.splits option.splits)
  moreover have "sprefix s = ALPHABET ! i" using openInstance_instance(2) [OF c(2)] by simp
  ultimately show thesis using that i sp by simp
qed

text \<open>Opening the claimed id in a directory that holds lock files only.\<close>

lemma New_claim_fresh:
  assumes "ClaimInstance (Some goodLocks) alive pid fs = (Inr i, fs1)" and "i < 62" and "dir \<noteq> '':memory:''"
    and "\<And>n. HasPrefix n ''data-'' \<Longrightarrow> fmlookup fs1 n = None"
  shows "New g (Some goodLocks) (Some goodIO) alive pid dir (-1) fs
         = Some (Inr (bareStore (int i) (Some (lockName i))), withLog (int i) fs1)"
proof -
  have "alone (int i) fs1" "fileBytes fs1 (snapName (int i)) = []" "fileBytes fs1 (logName (int i)) = []"
    using assms(4) by (auto simp: alone_def fileBytes_def)
  then show ?thesis
    using openInstance_replay [of "int i" fs1 "[]" "[]" "[]" g "Some (lockName i)"] assms(1-3)
    by (simp add: New_def)
qed

text \<open>C25. Two processes that claim their ids automatically, the second at a time when the lock file of the first,
  who is still alive, is in place as it was written, get different ids, and no code the one generates in any later state
  of its store is a code the other generates. (Two processes that find the same stale lock at the same time can both get
  its id; the claims here are one after the other.)\<close>

theorem instances_disjoint_codes:
  assumes "New g1 (Some lk1) handle1 alive pid1 dir (-1) fs = Some (Inr s1, fs1)" and "dir \<noteq> '':memory:''"
    and "in_i64 pid1" and "alive pid1" and "lk_short lk1 (lockName (nat (sinstance s1))) = None"
    and "fmlookup fs2 (lockName (nat (sinstance s1))) = fmlookup fs1 (lockName (nat (sinstance s1)))"
    and "New g2 locks2 handle2 alive pid2 dir (-1) fs2 = Some (Inr s2, fs3)"
    and "storeStep\<^sup>*\<^sup>* s1 t1" and "generates t1 code1" and "storeStep\<^sup>*\<^sup>* s2 t2" and "generates t2 code2"
  shows "sinstance s1 \<noteq> sinstance s2 \<and> code1 \<noteq> code2"
proof -
  obtain lk i where "Some lk1 = Some lk" and i: "sinstance s1 = int i" "i < 62" "sprefix s1 = ALPHABET ! i"
    "fmlookup fs1 (lockName i) = fmlookup (lockedBy lk pid1 i fs) (lockName i)"
    by (rule New_claimed [OF assms(1) _ assms(2)]) (auto intro: that)
  then have lk: "lk = lk1" by simp
  obtain lk2 j where j: "sinstance s2 = int j" "j < 62" "claimable lk2 alive fs2 j" "sprefix s2 = ALPHABET ! j"
    by (rule New_claimed [OF assms(7) _ assms(2)]) (auto intro: that)
  obtain f where "fmlookup fs2 (lockName i) = Some f" "lockPid f = Some pid1"
    using lockPid_lockedBy [OF assms(3), of lk1 i fs] assms(5,6) i lk by auto
  then have "\<not> claimable lk2 alive fs2 i" using assms(4) by (simp add: claimable_def)
  then have "i \<noteq> j" using j(3) by blast
  then have "sprefix s1 \<noteq> sprefix s2" using i j ALPHABET_nth_eq by simp
  from prefixes_disjoint [OF this assms(8,10,9,11)] show ?thesis using \<open>i \<noteq> j\<close> i(1) j(1) by simp
qed

lemma bareStore_generates: "generates (bareStore i rel) (ALPHABET ! nat i # randSuffix d)"
proof -
  have "\<exists>t' fs'. Shorten [d] 5 ''http://x'' [] False 0 fmempty (bareStore i rel) = Some (ALPHABET ! nat i # randSuffix d, t', fs')"
    by (simp add: Shorten_def split: prod.split)
  then show ?thesis by (blast intro: generates.one)
qed

text \<open>Process 7 claims id 0 in an empty directory, process 9 claims id 1 beside it.\<close>

theorem instances_disjoint_codes_witness:
  "\<exists>s1 fs1 s2 fs2. New det_rt (Some goodLocks) (Some goodIO) (\<lambda>p. p = 7) 7 ''data'' (-1) fmempty = Some (Inr s1, fs1)
     \<and> New det_rt (Some goodLocks) (Some goodIO) (\<lambda>p. p = 7) 9 ''data'' (-1) (lockedBy goodLocks 7 0 fmempty) = Some (Inr s2, fs2)
     \<and> sinstance s1 \<noteq> sinstance s2
     \<and> generates s1 (CHR ''0'' # randSuffix ''abcdefg'') \<and> generates s2 (CHR ''1'' # randSuffix ''abcdefg'')
     \<and> CHR ''0'' # randSuffix ''abcdefg'' \<noteq> CHR ''1'' # randSuffix ''abcdefg''"
proof -
  let ?fs1 = "lockedBy goodLocks 7 0 fmempty" and ?s1 = "bareStore 0 (Some (lockName 0))" and ?s2 = "bareStore 1 (Some (lockName 1))"
  have d: "fmlookup ?fs1 n = None" "fmlookup (lockedBy goodLocks 9 1 ?fs1) n = None" if "HasPrefix n ''data-''" for n
    using that by (auto simp: lockedBy_def)
  have n1: "New det_rt (Some goodLocks) (Some goodIO) (\<lambda>p. p = 7) 7 ''data'' (-1) fmempty = Some (Inr ?s1, withLog 0 ?fs1)"
    using New_claim_fresh [OF claim_first [of "\<lambda>p. p = 7" 7] _ _ d(1), of "''data''" det_rt] by simp
  have c2: "ClaimInstance (Some goodLocks) (\<lambda>p. p = 7) 9 ?fs1 = (Inr 1, lockedBy goodLocks 9 1 ?fs1)"
    by (rule claim_second) (simp_all add: in_i64_def)
  have n2: "New det_rt (Some goodLocks) (Some goodIO) (\<lambda>p. p = 7) 9 ''data'' (-1) ?fs1
      = Some (Inr ?s2, withLog 1 (lockedBy goodLocks 9 1 ?fs1))"
    using New_claim_fresh [OF c2 _ _ d(2), of "''data''" det_rt] by simp
  have "logName 0 \<noteq> lockName 0" using lockName_not_data [of 0] logName_shape(1) [of 0] by metis
  then have lock: "fmlookup ?fs1 (lockName (nat (sinstance ?s1))) = fmlookup (withLog 0 ?fs1) (lockName (nat (sinstance ?s1)))"
    by (auto simp: withLog_def split: option.split)
  have g: "generates ?s1 (CHR ''0'' # randSuffix ''abcdefg'')" "generates ?s2 (CHR ''1'' # randSuffix ''abcdefg'')"
    using bareStore_generates [of 0 "Some (lockName 0)" "''abcdefg''"] bareStore_generates [of 1 "Some (lockName 1)" "''abcdefg''"]
    by (simp_all add: ALPHABET_def)
  have r: "storeStep\<^sup>*\<^sup>* ?s1 ?s1" "storeStep\<^sup>*\<^sup>* ?s2 ?s2" by simp_all
  show ?thesis
    using instances_disjoint_codes [OF n1 _ _ _ _ lock n2 r(1) g(1) r(2) g(2)] n1 n2 g by (auto simp: in_i64_def)
qed

section \<open>Catching up with a sibling's log\<close>

lemma fold_rowStep_local: "m c = m' c \<Longrightarrow> fold rowStep rs m c = fold rowStep rs m' c"
proof (induction rs arbitrary: m m')
  case (Cons r rs)
  have "rowStep r m c = rowStep r m' c" using Cons.prems by (cases r) simp_all
  from Cons.IH [of "rowStep r m" "rowStep r m'", OF this] show ?case by simp
qed simp

text \<open>A reader that has consumed \<open>seen\<close> of a log that now holds \<open>rs\<close>, of which \<open>seen\<close> completes the
  first \<open>n\<close> records, is handed the other records.\<close>

lemma rest_of_log:
  assumes "recs_ok j rs" and "logBytes lineOf rs = seen @ new"
    and "seen = logBytes lineOf (take n rs) @ t" and "NL \<notin> set t"
  shows "replayLines (tornTail seen @ new) = map lineOf (drop n rs)"
proof -
  have ok: "rec_ok r" if "r \<in> set rs" for r using recs_ok_rec [OF assms(1) that] .
  have "replayLines (logBytes lineOf rs) = map lineOf rs"
    using store_log.replayLines_log [of rs "[]"] ok by simp
  moreover have "replayLines seen = map lineOf (take n rs)"
    unfolding assms(3) by (rule store_log.replayLines_log [OF _ assms(4)]) (use ok in_set_takeD in fast)
  ultimately have "map lineOf (take n rs) @ replayLines (tornTail seen @ new)
      = map lineOf (take n rs) @ map lineOf (drop n rs)"
    using replayLines_append [of seen new] assms(2)
    by (metis append_take_drop_id map_append)
  then show ?thesis by simp
qed

lemma readTail_catches_up:
  assumes "recs_ok j rs" and "fmlookup fs p = Some f" and "fbytes f = logBytes lineOf rs"
    and "fmlookup (tails s) p = Some t" and "tPath t = p"
    and "tail_at t seen" and "fbytes f = seen @ new"
    and "seen = logBytes lineOf (take n rs) @ x" and "NL \<notin> set x"
  shows "\<exists>t'. readTail g fs p s = Some ((fold (applyRec g) (drop n rs) s)\<lparr>tails := fmupd p t' (tails s)\<rparr>)
              \<and> tail_at t' (fbytes f)"
proof -
  have "replayLines (tornTail seen @ new) = map lineOf (drop n rs)"
    by (rule rest_of_log [OF assms(1) _ assms(8,9)]) (use assms(3,7) in simp)
  moreover have "foldOpt (applyLine g) (map lineOf (drop n rs)) s = Some (fold (applyRec g) (drop n rs) s)"
    by (rule store_log.fold_lines) (use recs_ok_rec [OF assms(1)] in_set_dropD in fast)
  ultimately show ?thesis
    using ReadNew_grow [OF assms(6) _ assms(7), of fs "applyLine g" s] assms(2,4,5,7)
    by (intro exI [of _ "t\<lparr>toffset := length (seen @ new), tleftover := tornTail (seen @ new)\<rparr>"])
       (simp add: readTail_def tail_at_def)
qed

text \<open>What an instance has read of a sibling's log \<open>rs\<close>: the bytes \<open>seen\<close>, which complete its first
  \<open>n\<close> records; \<open>code\<close> stands in its index as those records left it.\<close>

definition following :: "int \<Rightarrow> logrec list \<Rightarrow> nat \<Rightarrow> bytes \<Rightarrow> Store \<Rightarrow> bool" where
  "following j rs n code s \<longleftrightarrow>
     (\<exists>seen x. seen = logBytes lineOf (take n rs) @ x \<and> NL \<notin> set x
        \<and> (\<exists>new. logBytes lineOf rs = seen @ new)
        \<and> (case fmlookup (tails s) (logName j) of
             None \<Rightarrow> seen = []
           | Some t \<Rightarrow> tPath t = logName j \<and> tail_at t seen)
        \<and> rows s code = tableOf (take n rs) code)"

text \<open>C26. A code missing from the index is looked up in the log of the instance whose character it
  starts with: if that instance has written its row, \<open>Resolve\<close> answers what the owner's log says, no
  matter how much of the log had been read before.\<close>

theorem Resolve_catches_up:
  assumes "code = c # cs" and "alphaIdx c = j" and "0 \<le> j" and "j \<noteq> sinstance s" and "aof s \<noteq> None"
    and "recs_ok j rs" and "fmlookup fs (logName j) = Some f" and "fbytes f = logBytes lineOf rs"
    and "following j rs n code s" and "getEntry code s = None" and "tableOf rs code \<noteq> None"
  shows "\<exists>s'. Resolve g track clk code fs s = Some (tableResolve (clk 2) code (tableOf rs), s')"
proof -
  let ?p = "logName j" and ?s = "addTail (logName j) s"
  obtain seen x new where fo: "seen = logBytes lineOf (take n rs) @ x" "NL \<notin> set x"
    "logBytes lineOf rs = seen @ new"
    "case fmlookup (tails s) ?p of None \<Rightarrow> seen = [] | Some t \<Rightarrow> tPath t = ?p \<and> tail_at t seen"
    "rows s code = tableOf (take n rs) code"
    using assms(9) unfolding following_def by blast
  obtain t where t: "fmlookup (tails ?s) ?p = Some t" "tPath t = ?p" "tail_at t seen"
    using fo(4) tail_at_start [of ?p] by (auto simp: addTail_def TailFromStart_def split: option.splits)
  have "\<exists>t'. readTail g fs ?p ?s
      = Some ((fold (applyRec g) (drop n rs) ?s)\<lparr>tails := fmupd ?p t' (tails ?s)\<rparr>) \<and> tail_at t' (fbytes f)"
    by (rule readTail_catches_up [OF assms(6-8) t _ fo(1,2)]) (use fo(3) assms(8) in simp)
  then obtain t' where rt: "readTail g fs ?p ?s
      = Some ((fold (applyRec g) (drop n rs) ?s)\<lparr>tails := fmupd ?p t' (tails ?s)\<rparr>)" by blast
  let ?u = "(fold (applyRec g) (drop n rs) ?s)\<lparr>tails := fmupd ?p t' (tails ?s)\<rparr>"
  have "recs_ok j (drop n rs)"
    using assms(6) by (auto simp: recs_ok_def list_all_iff dest: in_set_dropD)
  then have "rows ?u = fold rowStep (drop n rs) (rows ?s)" by (simp add: rows_fold_applyRec)
  moreover have "rows ?s = rows s" by (simp add: addTail_def split: option.split)
  ultimately have "rows ?u code = fold rowStep (drop n rs) (tableOf (take n rs)) code"
    using fold_rowStep_local fo(5) by metis
  also have "\<dots> = tableOf rs code" by (metis append_take_drop_id tableOf_append)
  finally have u: "rows ?u code = tableOf rs code" .
  then obtain e where e: "getEntry code ?u = Some e" using assms(11) by (auto simp: rows_def)
  have "tailOwner g code fs s = Some ?u" using rt assms(1-5) by (auto simp: tailOwner_def Let_def)
  then have "findEntry g clk code fs s = Some (Some e, ?u)"
    using assms(5,10) e by (simp add: findEntry_def)
  moreover have "tableResolve (clk 2) code (tableOf rs) = (if expired (clk 2) e then None else Some (e_u e))"
    using u e by (simp add: tableResolve_def rows_Some rowOf_def expired_def flip: u)
  ultimately show ?thesis by (simp add: Resolve_def)
qed

theorem Resolve_catches_up_witness:
  "\<exists>s'. Resolve det_rt True (\<lambda>_. 9) ''0abcdefg''
      (fmupd (logName 0) \<lparr>fbytes = logBytes lineOf [Row ''0abcdefg'' ''http://x'' 5 0 0 0], fsynced = 0\<rparr> fmempty)
      (bareStore 1 None) = Some (Some ''http://x'', s')"
proof -
  let ?rs = "[Row ''0abcdefg'' ''http://x'' 5 0 0 0]"
  have "alphaIdx CHR ''0'' = 0" using alphaIdx_nth [of 0] by (simp add: ALPHABET_def)
  moreover have "following 0 ?rs 0 ''0abcdefg'' (bareStore 1 None)"
    by (simp add: following_def tableOf_def)
  moreover have "recs_ok 0 ?rs" by (simp add: code_ok_def plain_def in_i64_def in_i32_def)
  ultimately show ?thesis
    using Resolve_catches_up [of "''0abcdefg''" "CHR ''0''" "''abcdefg''" 0 "bareStore 1 None" ?rs
        "fmupd (logName 0) \<lparr>fbytes = logBytes lineOf ?rs, fsynced = 0\<rparr> fmempty" _ 0 det_rt True "\<lambda>_. 9"]
    by (simp add: tableOf_def tableResolve_def)
qed

section \<open>Hits and rows in either order\<close>

text \<open>The log of one instance may deliver hits on a code before the log of another delivers the
  code's row: the entry ends up with the same counters as if the row had come first, as long as
  the table of stray hits is not full.\<close>

theorem hit_before_row:
  assumes "code_ok c" and "in_i32 i" and "getEntry c s = None" and "fmlookup (strayHits s) c = None"
    and "maplen (strayHits s) < maxStrayHits"
  shows "getEntry c (applyRec g (Row c u a e i n) (applyRec g (Hit c d j) s))
         = getEntry c (applyRec g (Hit c d j) (applyRec g (Row c u a e i n) s))"
proof -
  have "strayOf c (applyRec g (Hit c d j) s) = \<lparr>st_t = i64 d, st_o = (if sinstance s = j then i64 d else 0)\<rparr>"
    using assms by (auto simp: strayOf_def applyRec_def apply_op_def applyHit_def op_zero_def code_ok_def)
  moreover have "strayOf c s = \<lparr>st_t = 0, st_o = 0\<rparr>" using assms(4) by (simp add: strayOf_def)
  ultimately show ?thesis using assms(1,2) by (simp add: getEntry_applyRec)
qed

theorem hit_before_row_witness:
  "map_option e_h (getEntry ''al'' (applyRec det_rt (Row ''al'' ''http://x'' 5 0 0 1)
     (applyRec det_rt (Hit ''al'' 2 1) emptyStore))) = Some 3"
proof -
  have "maplen (strayHits emptyStore) < maxStrayHits" by (simp add: maplen_def fcard_fempty maxStrayHits_def)
  moreover have ok: "code_ok ''al''" "in_i32 0" by (simp_all add: code_ok_def plain_def in_i32_def)
  moreover have "map_option e_h (getEntry ''al'' (applyRec det_rt (Hit ''al'' 2 1)
      (applyRec det_rt (Row ''al'' ''http://x'' 5 0 0 1) emptyStore))) = Some 3"
    using ok by (simp add: getEntry_applyRec strayOf_def i64_id in_i64_def)
  ultimately show ?thesis
    using hit_before_row [of "''al''" 0 emptyStore det_rt "''http://x''" 5 0 1 2 1] by simp
qed

text \<open>However many lines of whatever content are replayed or tailed, the number of stray hits
  never exceeds \<open>maxStrayHits\<close>.\<close>

theorem stray_bounded:
  assumes "rt_ok g" and "maplen (strayHits s) \<le> maxStrayHits"
    and "foldOpt (applyLine g) lines s = Some s'"
  shows "maplen (strayHits s') \<le> maxStrayHits"
  by (rule foldOpt_inv [OF assms(3), where P = "\<lambda>s. maplen (strayHits s) \<le> maxStrayHits"])
     (use assms(2) in \<open>auto simp: applyLine_def split: parse_result.splits
        intro: stray_bound_apply [OF assms(1)]\<close>)

theorem stray_bounded_witness:
  "maplen (strayHits (applyRec det_rt (Hit ''al'' 2 1) emptyStore)) \<le> maxStrayHits"
proof -
  have "rec_ok (Hit ''al'' 2 1)" by (simp add: code_ok_def plain_def in_i64_def)
  then have "foldOpt (applyLine det_rt) [hitLine ''al'' 2 1] emptyStore
      = Some (applyRec det_rt (Hit ''al'' 2 1) emptyStore)"
    using store_log.cb_line [of "Hit ''al'' 2 1" det_rt emptyStore] by simp
  then show ?thesis by (rule stray_bounded [OF rt_ok_det_rt, rotated]) (simp add: maplen_def fcard_fempty)
qed

end
