(* ===== verification/Process.thy ===== *)
theory Process
  imports Transport Siblings
begin

text \<open>
  The server process of \<open>cmd/shrt/main.go\<close>: its settings, the decision between supervising and serving, the
  environment of the workers, and seeding. What a process does is the list of its actions; sockets,
  signals and waiting for children are not modelled. An environment is a list of variables: \<open>Getenv\<close>
  reads the first of a name, and \<open>exec.Cmd\<close> passes on the last of a name.
\<close>

type_synonym environ = "(bytes \<times> bytes) list"

definition Getenv :: "environ \<Rightarrow> bytes \<Rightarrow> bytes" where
  "Getenv env k = (case map_of env k of None \<Rightarrow> [] | Some v \<Rightarrow> v)"

fun dedupEnv :: "environ \<Rightarrow> environ" where
  "dedupEnv [] = []"
| "dedupEnv ((k, v) # env) = (if k \<in> fst ` set env then dedupEnv env else (k, v) # dedupEnv env)"

section \<open>Settings\<close>

definition mainEnvInt :: "(bytes \<Rightarrow> bytes) \<Rightarrow> bytes \<Rightarrow> int \<Rightarrow> int" where
  "mainEnvInt getenv k dflt =
     (let v = getenv k
      in if v \<noteq> [] then (case Atoi v of (n, None) \<Rightarrow> n | _ \<Rightarrow> dflt) else dflt)"

definition mainEnvStr :: "(bytes \<Rightarrow> bytes) \<Rightarrow> bytes \<Rightarrow> bytes \<Rightarrow> bytes" where
  "mainEnvStr getenv k dflt = (let v = getenv k in if v \<noteq> [] then v else dflt)"

record settings =
  se_port :: int
  se_dataDir :: bytes
  se_workers :: int
  se_seedN :: int
  se_server :: bytes
  se_instance :: int

definition loadSettings :: "(bytes \<Rightarrow> bytes) \<Rightarrow> settings" where
  "loadSettings getenv =
     \<lparr>se_port = mainEnvInt getenv ''PORT'' 3000, se_dataDir = mainEnvStr getenv ''DATA_DIR'' ''data'',
      se_workers = mainEnvInt getenv ''WORKERS'' 1, se_seedN = mainEnvInt getenv ''SEED'' 0,
      se_server = mainEnvStr getenv ''SERVER'' ''fast'', se_instance = mainEnvInt getenv ''INSTANCE'' (-1)\<rparr>"

section \<open>Actions\<close>

datatype frontend = FastFrontend | StdFrontend

datatype action =
    SeedStore engine int
  | Spawn nat environ
  | Serve engine int frontend

definition seedUrls :: "nat \<Rightarrow> bytes list" where
  "seedUrls n = map (\<lambda>i. ''https://example.com/'' @ Itoa (int i)) [0..<n]"

text \<open>\<open>seed\<close> on an engine that was opened.\<close>

definition seed :: "'s API \<Rightarrow> nat \<Rightarrow> 's \<Rightarrow> 's option" where
  "seed api n s =
     Option.bind (apiIsEmpty api s) (\<lambda>empty.
       Option.bind (if empty then map_option snd (apiSeed api (seedUrls n) s) else Some s) (apiClose api))"

definition childEnv :: "environ \<Rightarrow> nat \<Rightarrow> environ" where
  "childEnv env i =
     dedupEnv (env @ [(''SHRT_CHILD'', ''1''), (''INSTANCE'', Itoa (int i)), (''WORKERS'', ''1''), (''SEED'', ''0'')])"

definition runSupervisor :: "environ \<Rightarrow> settings \<Rightarrow> action list" where
  "runSupervisor env se =
     (if 0 < se_seedN se then [SeedStore (NewFromEnv (Getenv env) (se_dataDir se) 0) (se_seedN se)] else [])
     @ map (\<lambda>i. Spawn i (childEnv env i)) [0..<nat (se_workers se)]"

definition serve :: "environ \<Rightarrow> settings \<Rightarrow> action list" where
  "serve env se =
     [Serve (NewFromEnv (Getenv env) (se_dataDir se) (se_instance se)) (se_port se)
        (if se_server se = ''std'' then StdFrontend else FastFrontend)]"

definition shrtMain :: "environ \<Rightarrow> action list" where
  "shrtMain env =
     (let se = loadSettings (Getenv env)
      in if 1 < se_workers se \<and> Getenv env ''SHRT_CHILD'' = [] then runSupervisor env se
         else (if 0 < se_seedN se then [SeedStore (NewFromEnv (Getenv env) (se_dataDir se) 0) (se_seedN se)] else [])
              @ serve env se)"

section \<open>Workers\<close>

lemma fst_dedupEnv [simp]: "fst ` set (dedupEnv env) = fst ` set env"
  by (induction env rule: dedupEnv.induct) auto

lemma map_of_dedupEnv: "map_of (dedupEnv env) k = map_of (rev env) k"
proof (induction env rule: dedupEnv.induct)
  case (2 k' v env)
  have "map_of (rev env) k = None \<longleftrightarrow> k \<notin> fst ` set env" by (simp add: map_of_eq_None_iff)
  moreover have "map_of (dedupEnv env) k = map_of (rev env) k" using 2 by blast
  ultimately show ?case by (cases "map_of (rev env) k") (auto simp: map_add_def simp del: fst_dedupEnv)
qed simp

lemma ParseInt_digits: "ParseInt ''1'' = (1, None)" "ParseInt ''0'' = (0, None)"
  using ParseInt_FormatInt [of 1] ParseInt_FormatInt [of 0]
  by (simp_all add: FormatInt_def fmt_nat.simps digit_chars in_i64_def)

lemma Getenv_child:
  assumes "distinct (map fst env)"
  shows "Getenv (childEnv env i) k
    = (if k = ''SHRT_CHILD'' \<or> k = ''WORKERS'' then ''1'' else if k = ''INSTANCE'' then Itoa (int i)
       else if k = ''SEED'' then ''0'' else Getenv env k)"
proof -
  have "map_of (rev env) = map_of env"
    using assms by (simp add: map_of_inject_set rev_map [symmetric])
  then show ?thesis by (simp add: Getenv_def childEnv_def map_of_dedupEnv)
qed

lemma child_serves:
  assumes "distinct (map fst env)" and "Spawn i cenv \<in> set (shrtMain env)" and "in_i64 (int i)"
  shows "shrtMain cenv
         = (let se = loadSettings (Getenv env)
            in [Serve (NewFromEnv (Getenv env) (se_dataDir se) (int i)) (se_port se)
                  (if se_server se = ''std'' then StdFrontend else FastFrontend)])"
proof -
  have c: "cenv = childEnv env i"
    using assms(2) by (auto simp: shrtMain_def runSupervisor_def serve_def Let_def split: if_splits)
  note g = Getenv_child [OF assms(1), of i]
  have inst: "mainEnvInt (Getenv cenv) ''INSTANCE'' d = int i" for d
    using assms(3) FormatInt_not_Nil by (simp add: mainEnvInt_def c g ParseInt_FormatInt)
  have n: "mainEnvInt (Getenv cenv) ''WORKERS'' d = 1" "mainEnvInt (Getenv cenv) ''SEED'' d = 0" for d
    by (simp_all add: mainEnvInt_def c g ParseInt_digits)
  have e: "Getenv cenv ''STORE'' = Getenv env ''STORE''" "Getenv cenv ''CACHE'' = Getenv env ''CACHE''"
    "Getenv cenv ''CACHE_TTL_MS'' = Getenv env ''CACHE_TTL_MS''" "Getenv cenv ''PEBBLE_PATH'' = Getenv env ''PEBBLE_PATH''"
    "Getenv cenv ''DRAGONFLY_ADDR'' = Getenv env ''DRAGONFLY_ADDR''" "Getenv cenv ''KV_ADDR'' = Getenv env ''KV_ADDR''"
    by (simp_all add: c g)
  have "NewFromEnv (Getenv cenv) dir inst = NewFromEnv (Getenv env) dir inst" for dir inst
    unfolding NewFromEnv_def Api.envInt_def e ..
  moreover have "mainEnvInt (Getenv cenv) ''PORT'' 3000 = mainEnvInt (Getenv env) ''PORT'' 3000"
    by (simp add: mainEnvInt_def c g)
  moreover have "mainEnvStr (Getenv cenv) k d = mainEnvStr (Getenv env) k d" if "k = ''DATA_DIR'' \<or> k = ''SERVER''" for k d
    using that by (auto simp: mainEnvStr_def c g)
  ultimately show ?thesis using inst n by (simp add: shrtMain_def serve_def loadSettings_def Let_def)
qed

lemma serves_own_id:
  assumes "distinct (map fst env)" and "Spawn i cenv \<in> set (shrtMain env)" and "in_i64 (int i)"
    and "Serve (AofEngine dir inst) port front \<in> set (shrtMain cenv)"
  shows "inst = int i \<and> dir = se_dataDir (loadSettings (Getenv env))"
  using child_serves [OF assms(1-3)] assms(4) by (auto simp: NewFromEnv_def Let_def split: if_splits)

text \<open>A worker does what its supervisor decided and nothing more: in the environment the supervisor gives its
  \<open>i\<close>-th worker, the program neither supervises nor seeds, and serves with instance id \<open>i\<close>, on the
  port, the data directory, the engine and the frontend of the supervisor's own environment.\<close>

theorem worker_only_serves:
  assumes "distinct (map fst env)" and "Spawn i cenv \<in> set (shrtMain env)" and "in_i64 (int i)"
  shows "shrtMain cenv
         = (let se = loadSettings (Getenv env)
            in [Serve (NewFromEnv (Getenv env) (se_dataDir se) (int i)) (se_port se)
                  (if se_server se = ''std'' then StdFrontend else FastFrontend)])"
  by (rule child_serves [OF assms])

text \<open>A supervisor of three workers that seeds first.\<close>

definition demoEnviron :: environ where
  "demoEnviron = [(''SEED'', ''3''), (''WORKERS'', ''3''), (''HOME'', ''/root'')]"

lemma demo_workers: "mainEnvInt (Getenv demoEnviron) ''WORKERS'' 1 = 3" "Getenv demoEnviron ''SHRT_CHILD'' = []"
  using ParseInt_FormatInt [of 3]
  by (simp_all add: mainEnvInt_def Getenv_def demoEnviron_def FormatInt_def fmt_nat.simps digit_chars in_i64_def)

lemma demo_spawn: "i < 3 \<Longrightarrow> Spawn i (childEnv demoEnviron i) \<in> set (shrtMain demoEnviron)"
  using demo_workers by (simp add: shrtMain_def loadSettings_def runSupervisor_def Let_def)

theorem worker_only_serves_witness:
  "shrtMain (childEnv demoEnviron 2) = [Serve (AofEngine ''data'' 2) 3000 FastFrontend]"
proof -
  have "distinct (map fst demoEnviron)" by (simp add: demoEnviron_def)
  from worker_only_serves [OF this demo_spawn, of 2] show ?thesis
    by (simp add: in_i64_def loadSettings_def mainEnvInt_def mainEnvStr_def Getenv_def demoEnviron_def NewFromEnv_def)
qed

text \<open>C15. Over the log engine in a data directory (not \<open>:memory:\<close>, where every worker is instance 0) the workers of one
  supervisor never hand out the same generated code: two different workers open the engine under their own
  instance ids, and no code generated by the one, in any later state of its store, is a code generated by the
  other.\<close>

theorem workers_disjoint_codes:
  assumes "distinct (map fst env)" and "i \<noteq> j" and "in_i64 (int i)" and "in_i64 (int j)"
    and "Spawn i envI \<in> set (shrtMain env)" and "Spawn j envJ \<in> set (shrtMain env)"
    and "Serve (AofEngine dirI idI) portI frontI \<in> set (shrtMain envI)"
    and "Serve (AofEngine dirJ idJ) portJ frontJ \<in> set (shrtMain envJ)" and "dirI \<noteq> '':memory:''"
    and "New g1 locks1 handle1 alive1 pid1 dirI idI fs1 = Some (Inr s1, fs1')"
    and "New g2 locks2 handle2 alive2 pid2 dirJ idJ fs2 = Some (Inr s2, fs2')"
    and "storeStep\<^sup>*\<^sup>* s1 t1" and "generates t1 code1" and "storeStep\<^sup>*\<^sup>* s2 t2" and "generates t2 code2"
  shows "sinstance s1 = int i \<and> sinstance s2 = int j \<and> code1 \<noteq> code2"
proof -
  note own = serves_own_id [OF assms(1)]
  have "idI = int i" "idJ = int j" "dirJ = dirI"
    using own [OF assms(5,3,7)] own [OF assms(6,4,8)] by simp_all
  then have o: "openInstance g1 handle1 (int i) emptyStore fs1 = Some (Inr s1, fs1')"
    "openInstance g2 handle2 (int j) emptyStore fs2 = Some (Inr s2, fs2')"
    using assms(9-11) by (simp_all add: New_def)
  have p: "sprefix s1 = ALPHABET ! i" "i < 62" "sprefix s2 = ALPHABET ! j" "j < 62"
    using openInstance_instance(2) [OF o(1)] openInstance_id [OF o(1)] openInstance_instance(2) [OF o(2)] openInstance_id [OF o(2)] by simp_all
  then have "sprefix s1 \<noteq> sprefix s2" using assms(2) ALPHABET_nth_eq by simp
  from prefixes_disjoint [OF this assms(12,14,13,15)] show ?thesis
    using openInstance_instance(1) [OF o(1)] openInstance_instance(1) [OF o(2)] by simp
qed

lemma New_fresh:
  assumes "i < 62"
  shows "New g locks (Some goodIO) alive pid ''data'' (int i) fmempty = Some (Inr (bareStore (int i) None), withLog (int i) fmempty)"
proof -
  have "emptyStore\<lparr>release := None\<rparr> = emptyStore" by (simp add: emptyStore_def)
  then show ?thesis
    using openInstance_replay [of "int i" fmempty "[]" "[]" "[]" g None] assms
    by (simp add: New_def alone_def fileBytes_def recs_ok_def)
qed

text \<open>The first two of three workers.\<close>

theorem workers_disjoint_codes_witness:
  "\<exists>s1 fs1 s2 fs2. Spawn 0 (childEnv demoEnviron 0) \<in> set (shrtMain demoEnviron) \<and> Spawn 1 (childEnv demoEnviron 1) \<in> set (shrtMain demoEnviron)
     \<and> New det_rt (Some goodLocks) (Some goodIO) (\<lambda>_. True) 7 ''data'' 0 fmempty = Some (Inr s1, fs1)
     \<and> New det_rt (Some goodLocks) (Some goodIO) (\<lambda>_. True) 8 ''data'' 1 fmempty = Some (Inr s2, fs2)
     \<and> generates s1 (CHR ''0'' # randSuffix ''abcdefg'') \<and> generates s2 (CHR ''1'' # randSuffix ''abcdefg'')
     \<and> CHR ''0'' # randSuffix ''abcdefg'' \<noteq> CHR ''1'' # randSuffix ''abcdefg''"
proof -
  let ?s1 = "bareStore 0 None" and ?s2 = "bareStore 1 None"
  have d: "distinct (map fst demoEnviron)" by (simp add: demoEnviron_def)
  have sp: "Spawn 0 (childEnv demoEnviron 0) \<in> set (shrtMain demoEnviron)" "Spawn 1 (childEnv demoEnviron 1) \<in> set (shrtMain demoEnviron)"
    by (simp_all add: demo_spawn)
  have w: "Serve (AofEngine ''data'' (int i)) 3000 FastFrontend \<in> set (shrtMain (childEnv demoEnviron i))" if "i < 3" for i
    using child_serves [OF d demo_spawn [OF that]] that
    by (simp add: in_i64_def loadSettings_def mainEnvInt_def mainEnvStr_def Getenv_def demoEnviron_def NewFromEnv_def)
  have n: "New det_rt (Some goodLocks) (Some goodIO) (\<lambda>_. True) 7 ''data'' (int 0) fmempty = Some (Inr ?s1, withLog 0 fmempty)"
    "New det_rt (Some goodLocks) (Some goodIO) (\<lambda>_. True) 8 ''data'' (int 1) fmempty = Some (Inr ?s2, withLog 1 fmempty)"
    using New_fresh [of 0] New_fresh [of 1] by simp_all
  have g: "generates ?s1 (CHR ''0'' # randSuffix ''abcdefg'')" "generates ?s2 (CHR ''1'' # randSuffix ''abcdefg'')"
    using bareStore_generates [of 0 None "''abcdefg''"] bareStore_generates [of 1 None "''abcdefg''"] by (simp_all add: ALPHABET_def)
  have r: "storeStep\<^sup>*\<^sup>* ?s1 ?s1" "storeStep\<^sup>*\<^sup>* ?s2 ?s2" and lt: "(0 :: nat) < 3" "(1 :: nat) < 3" by simp_all
  from workers_disjoint_codes [OF d _ _ _ sp w [OF lt(1)] w [OF lt(2)] _ n r(1) g(1) r(2) g(2)]
  show ?thesis using sp n g by (auto simp: in_i64_def)
qed

end
