(* ===== verification/Shutdown.thy ===== *)
theory Shutdown
  imports Process Service
begin

text \<open>
  The life of a serving process over the log engine, from \<open>serve\<close> of \<open>cmd/shrt/main.go\<close> and the timers of
  \<open>store.New\<close>: opening the store, binding the port, serving, the signal, closing the store and leaving. \<open>Serve\<close>
  of both servers returns as soon as the listener is closed, while requests that are being handled go on; so a
  request can be answered in every phase until the process has gone.
\<close>

section \<open>Operations leave the store open\<close>

lemma closed_New: "New g locks handle alive pid dir inst fs = Some (Inr s, fs') \<Longrightarrow> \<not> closed s"
proof -
  have l: "core t = core s" if "loadAll g fs s = Some t" for fs s t
  proof -
    have "core t = core s2" if "foldOpt (loadSibling g fs) xs s2 = Some t" for xs s2
      using that by (rule core_foldOpt) (auto simp: loadSibling_def Let_def dest: core_ReplayFile)
    then show ?thesis using that by (auto simp: loadAll_def bind_eq_Some_conv dest!: core_ReplayFile)
  qed
  have o: "closed t = closed s0" if "openInstance g handle i s0 fs = Some (Inr t, fs')" for i s0 fs fs' t
    using that by (auto simp: openInstance_def Let_def core_def split: if_splits prod.splits sum.splits dest!: l)
  assume "New g locks handle alive pid dir inst fs = Some (Inr s, fs')"
  then show ?thesis by (auto simp: New_def emptyStore_def split: if_splits prod.splits sum.splits dest!: o)
qed

lemma sstep_closed:
  assumes "sstep i (d, s, fs, h) (d', s', fs', h')" and "\<not> closed s"
  shows "\<not> closed s'"
proof -
  from assms(1) consider "storeStep s s'" | "\<not> closed s'"
    by (cases rule: sstep_cases) (auto intro: storeStep.intros dest: closed_New)
  then show ?thesis using assms(2) storeStep_core by cases (auto simp: core_def)
qed

section \<open>The life of a process\<close>

text \<open>The tickers that \<open>New\<close> starts; \<open>tailMS\<close> is zero unless \<open>TAIL_MS\<close> is set.\<close>

datatype tick = FlushTick | SyncTick | TailTick

fun timerTick :: "gort \<Rightarrow> int \<Rightarrow> int \<Rightarrow> tick \<Rightarrow> Store \<times> fsys \<Rightarrow> (Store \<times> fsys) option" where
  "timerTick g tailMS now FlushTick (s, fs) = Some (Flush g fs s)"
| "timerTick g tailMS now SyncTick (s, fs) = Some (syncTick fs s)"
| "timerTick g tailMS now TailTick (s, fs) =
     (if aof s \<noteq> None \<and> 0 < tailMS then map_option (\<lambda>s. (s, fs)) (PollTails g now fs s) else Some (s, fs))"

datatype life =
    Booting fsys
  | Binding "(Store \<times> fsys) app"
  | Serving "(Store \<times> fsys) app"
  | Draining "(Store \<times> fsys) app"
  | Stopped "(Store \<times> fsys) app"
  | Exited fsys

fun ticking :: "life \<Rightarrow> (Store \<times> fsys) app option" where
  "ticking (Binding a) = Some a"
| "ticking (Serving a) = Some a"
| "ticking (Draining a) = Some a"
| "ticking _ = None"

fun handling :: "life \<Rightarrow> (Store \<times> fsys) app option" where
  "handling (Serving a) = Some a"
| "handling (Draining a) = Some a"
| "handling (Stopped a) = Some a"
| "handling _ = None"

fun withApp :: "life \<Rightarrow> (Store \<times> fsys) app \<Rightarrow> life" where
  "withApp (Binding _) a = Binding a"
| "withApp (Serving _) a = Serving a"
| "withApp (Draining _) a = Draining a"
| "withApp (Stopped _) a = Stopped a"
| "withApp l a = l"

text \<open>
  One step of a life. Requests come with settings and clocks of their own; the instance id is explicit or, when \<open>inst\<close> is negative,
  claimed. The writes and fsyncs on the log succeed.
\<close>

inductive lifeStep :: "(Store \<times> fsys) app \<Rightarrow> bytes \<Rightarrow> int \<Rightarrow> life \<Rightarrow> life \<Rightarrow> bool" for a0 dir inst where
  Open: "New g locks (Some goodIO) alive pid dir inst fs = Some (Inr s, fs')
    \<Longrightarrow> lifeStep a0 dir inst (Booting fs) (Binding (a0\<lparr>appStore := (s, fs')\<rparr>))"
| OpenFails: "New g locks handle alive pid dir inst fs = Some (Inl e, fs') \<Longrightarrow> lifeStep a0 dir inst (Booting fs) (Exited fs')"
| Bind: "lifeStep a0 dir inst (Binding a) (Serving a)"
| BindFails: "lifeStep a0 dir inst (Binding a) (Exited (snd (appStore a)))"
| Request: "handling l = Some a \<Longrightarrow> Handle env (aofAPI e) method path body token client a = Some (r, a') \<Longrightarrow> in_i64 (eClk e 0)
    \<Longrightarrow> lifeStep a0 dir inst l (withApp l a')"
| Tick: "ticking l = Some a \<Longrightarrow> timerTick g tailMS now t (appStore a) = Some st
    \<Longrightarrow> lifeStep a0 dir inst l (withApp l (a\<lparr>appStore := st\<rparr>))"
| Signal: "lifeStep a0 dir inst (Serving a) (Draining a)"
| CloseStore: "appStore a = (s, fs)
    \<Longrightarrow> lifeStep a0 dir inst (Draining a) (Stopped (a\<lparr>appStore := Close g fs s\<rparr>))"
| Leave: "lifeStep a0 dir inst (Stopped a) (Exited (snd (appStore a)))"

inductive_cases stoppingE: "lifeStep a0 dir inst (Draining a) (Stopped b)"

text \<open>A directory without logs, and without a snapshot of the id that is opened: the explicit one, or any when the id is
  claimed (\<open>inst\<close> negative).\<close>

definition freshDir :: "int \<Rightarrow> fsys \<Rightarrow> bool" where
  "freshDir inst fs \<longleftrightarrow>
     (\<forall>n. HasPrefix n ''data-'' \<and> HasSuffix n ''.log'' \<longrightarrow> fmlookup fs n = None)
     \<and> (\<forall>i. i = inst \<or> inst < 0 \<longrightarrow> fmlookup fs (snapName i) = None)"

definition lifeInit :: "bytes \<Rightarrow> int \<Rightarrow> life \<Rightarrow> bool" where
  "lifeInit dir inst l \<longleftrightarrow> dir \<noteq> '':memory:'' \<and> (\<exists>fs. l = Booting fs \<and> freshDir inst fs)"

definition inRun :: "(Store \<times> fsys) app \<Rightarrow> bool" where
  "inRun a \<longleftrightarrow>
     (\<exists>i st d s fs h. appStore a = (s, fs) \<and> sinit i st \<and> (sstep i)\<^sup>*\<^sup>* st (d, s, fs, h) \<and> \<not> closed s)"

definition lifeInv :: "bytes \<Rightarrow> int \<Rightarrow> life \<Rightarrow> bool" where
  "lifeInv dir inst l \<longleftrightarrow>
     dir \<noteq> '':memory:'' \<and> (\<forall>fs. l = Booting fs \<longrightarrow> freshDir inst fs) \<and> (\<forall>a. ticking l = Some a \<longrightarrow> inRun a)"

lemma inRun_step:
  assumes "inRun a" and "appStore a = (s, fs)" and "\<And>i d h. \<exists>d' h'. (sstep i)\<^sup>=\<^sup>= (d, s, fs, h) (d', s', fs', h')"
    and "appStore b = (s', fs')"
  shows "inRun b"
proof -
  obtain i st d h where r: "sinit i st" "(sstep i)\<^sup>*\<^sup>* st (d, s, fs, h)" "\<not> closed s"
    using assms(1,2) by (auto simp: inRun_def)
  obtain d' h' where step: "(sstep i)\<^sup>=\<^sup>= (d, s, fs, h) (d', s', fs', h')" using assms(3) by blast
  then have "(sstep i)\<^sup>*\<^sup>* st (d', s', fs', h')" using r(2) by (auto intro: rtranclp.rtrancl_into_rtrancl)
  moreover have "\<not> closed s'" using step r(3) sstep_closed by auto
  ultimately show ?thesis using r(1) assms(4) unfolding inRun_def by blast
qed

lemma inRun_request:
  assumes "inRun a" and "Handle env (aofAPI e) method path body token client a = Some (r, a')" and "in_i64 (eClk e 0)"
  shows "inRun a'"
proof -
  obtain s fs s' fs' where st: "appStore a = (s, fs)" "appStore a' = (s', fs')" by (meson surj_pair)
  then have "api_call env (aofAPI e) token (s, fs) (s', fs')" using Handle_call [OF assms(2)] by simp
  from api_call_step [OF this assms(3)] show ?thesis by (intro inRun_step [OF assms(1) st(1) _ st(2)]) blast
qed

lemma inRun_tick:
  assumes "inRun a" and "timerTick g tailMS now t (appStore a) = Some st"
  shows "inRun (a\<lparr>appStore := st\<rparr>)"
proof -
  obtain s fs s' fs' where s: "appStore a = (s, fs)" "st = (s', fs')" by (meson surj_pair)
  have "\<exists>d' h'. (sstep i)\<^sup>=\<^sup>= (d, s, fs, h) (d', s', fs', h')" for i d h
  proof (cases t)
    case FlushTick
    then show ?thesis using assms(2) s sstep.Flush by (simp, blast)
  next
    case SyncTick
    then show ?thesis using assms(2) s sstep.Sync by (simp, blast)
  next
    case TailTick
    then show ?thesis using assms(2) s sstep.PollTails by (auto split: if_splits) blast+
  qed
  then show ?thesis by (intro inRun_step [OF assms(1) s(1)]) (use s(2) in auto)
qed

lemma inRun_open:
  assumes "New g locks (Some goodIO) alive pid dir inst fs = Some (Inr s, fs')" and "dir \<noteq> '':memory:''" and "freshDir inst fs"
  shows "inRun (a0\<lparr>appStore := (s, fs')\<rparr>)"
proof -
  let ?i = "sinstance s"
  have "?i = inst \<or> inst < 0" using assms(1,2) openInstance_instance(1) by (fastforce simp: New_def split: if_splits)
  then have f: "fmlookup fs (snapName ?i) = None" "alone ?i fs" "fmlookup fs (logName ?i) = None"
    using assms(3) by (auto simp: freshDir_def alone_def)
  then have "sinit ?i (0, s, fs', [])" using assms(1,2) by (intro sinit.intros) simp_all
  then show ?thesis using closed_New [OF assms(1)] unfolding inRun_def by force
qed

interpretation process_life: invariant_system "lifeInit dir inst" "lifeStep a0 dir inst" "lifeInv dir inst" for a0 dir inst
proof
  fix l
  assume "lifeInit dir inst l"
  then show "lifeInv dir inst l" by (auto simp: lifeInit_def lifeInv_def)
next
  fix l l'
  assume inv: "lifeInv dir inst l" and "lifeStep a0 dir inst l l'"
  from this(2) show "lifeInv dir inst l'"
  proof cases
    case (Open g locks alive pid fs s fs')
    then show ?thesis using inv inRun_open [OF Open(3)] by (simp add: lifeInv_def)
  next
    case (Request a env e mth path body token client r a')
    then show ?thesis using inv inRun_request by (cases l) (auto simp: lifeInv_def)
  next
    case (Tick a g tailMS now t st)
    then show ?thesis using inv inRun_tick by (cases l) (auto simp: lifeInv_def)
  qed (use inv in \<open>auto simp: lifeInv_def\<close>)
qed

lemma draining_in_run:
  assumes "lifeInit dir inst l0" and "(lifeStep a0 dir inst)\<^sup>*\<^sup>* l0 (Draining a)" and "appStore a = (s, fs)"
  obtains d h where "sinv (sinstance s) d s fs h" and "\<not> closed s" and "dir \<noteq> '':memory:''"
proof -
  have "lifeInv dir inst (Draining a)" by (rule process_life.inv_reachable [OF assms(1,2)])
  then obtain i st d h where r: "sinit i st" "(sstep i)\<^sup>*\<^sup>* st (d, s, fs, h)" "\<not> closed s" "dir \<noteq> '':memory:''"
    using assms(3) by (auto simp: lifeInv_def inRun_def)
  have inv: "sinv i d s fs h" by (rule reachable_inv [OF r(1,2)])
  then have "sinstance s = i" by (simp add: sinv_def opened_def)
  then show thesis using that inv r(3,4) by blast
qed

text \<open>What \<open>Close\<close> leaves in memory: the same links, and a log that takes no more lines.\<close>

lemma Close_keeps:
  assumes inv: "sinv i d s fs h" and "\<not> closed s" and cl: "Close g fs s = (s1, fs1)"
  shows "rows s1 = rows s" and "sprefix s1 = sprefix s" and "\<exists>a. aof s1 = Some a \<and> \<not> aopen a"
proof -
  obtain s3 fs3 where f: "Flush g fs (s\<lparr>closed := True, tails := fmempty\<rparr>) = (s3, fs3)" by fastforce
  have inv3: "sinv i d s3 fs3 h" using sinv_Flush [OF sinv_no_tails [OF inv] f] .
  then obtain a where a: "aof s3 = Some a" by (auto simp: sinv_def opened_def)
  obtain a4 fs4 a5 fs5 where sy: "Sync a fs3 = (a4, fs4)" "aofClose a4 fs4 = (a5, fs5)" by (meson surj_pair)
  have s1: "s1 = s3\<lparr>aof := Some a5\<rparr>" using cl assms(2) f a sy by (simp add: Close_def)
  have "\<not> aopen a5" using sy(2) by (auto simp: aofClose_def split: prod.splits)
  then show "\<exists>a. aof s1 = Some a \<and> \<not> aopen a" using s1 by simp
  show "rows s1 = rows s" "sprefix s1 = sprefix s"
    using inv inv3 s1 by (simp_all add: sinv_def opened_def rows_def getEntry_def)
qed

lemma flushIfLarge_shut: "aof s = Some a \<Longrightarrow> \<not> aopen a \<Longrightarrow> flushIfLarge s fs = (s', fs') \<Longrightarrow> fs' = fs"
  by (auto simp: flushIfLarge_def aofFlush_def aofFlushLocked_def writeLog_def split: if_splits option.splits)

lemma Shorten_shut:
  assumes "Shorten draws now url al hasAlias ttl fs s = Some (code, s', fs')" and "aof s = Some a" and "\<not> aopen a"
  shows "fs' = fs"
proof -
  have "fs2 = fs" if "flushIfLarge (insertRow c url now x s) fs = (s2, fs2)" for c x s2 fs2
    by (rule flushIfLarge_shut [OF _ _ that, of "Push (rowLine c url now x (sinstance s) 0) a"])
       (use assms(2,3) in \<open>simp_all add: insertRow_def pushLine_def Push_def\<close>)
  then show ?thesis using assms(1) by (auto simp: Shorten_def Let_def split: if_splits prod.splits)
qed

section \<open>Stopping\<close>

text \<open>A process that starts on an empty directory and is told to stop, with or without a request before.\<close>

lemma demo_serving:
  "(lifeStep demoApp ''data'' 0)\<^sup>*\<^sup>* (Booting fmempty) (Serving (demoApp\<lparr>appStore := (demoStart, demoFs)\<rparr>))"
proof -
  have "New det_rt (Some goodLocks) (Some goodIO) (\<lambda>_. True) 7 ''data'' 0 fmempty = Some (Inr demoStart, demoFs)"
    using New_fresh [of 0 det_rt "Some goodLocks" "\<lambda>_. True" 7] by simp
  from lifeStep.Open [OF this] lifeStep.Bind show ?thesis
    by (meson converse_rtranclp_into_rtranclp rtranclp.rtrancl_refl)
qed

lemma demo_lifeInit: "lifeInit ''data'' 0 (Booting fmempty)"
  by (simp add: lifeInit_def freshDir_def alone_def)

text \<open>C6. A clean stop loses nothing: whatever requests were served and whatever the timers did since the process
  started on a fresh directory, with an explicit id or one it claimed, when it closes its store and leaves, the directory
  opens again, and a process that opens it under the same id redirects every link that was live, to the same url (the code
  \<open>metrics\<close> excepted). The system calls on the log are taken to succeed.\<close>

theorem shutdown_keeps_links:
  assumes "lifeInit dir inst l0" and "(lifeStep a0 dir inst)\<^sup>*\<^sup>* l0 (Draining a)" and "lifeStep a0 dir inst (Draining a) (Stopped b)"
  shows "(\<exists>s' fs'. New g locks (Some goodIO) alive pid dir (sinstance (fst (appStore a))) (snd (appStore b)) = Some (Inr s', fs')
            \<and> sinstance s' = sinstance (fst (appStore a)))
    \<and> (\<forall>g locks alive pid inst2 s' fs'. New g locks (Some goodIO) alive pid dir inst2 (snd (appStore b)) = Some (Inr s', fs')
         \<longrightarrow> sinstance s' = sinstance (fst (appStore a))
         \<longrightarrow> (\<forall>e code url x. aofView (appStore a) code = Some (url, x) \<longrightarrow> codeOK code \<longrightarrow> code \<noteq> ''metrics''
                \<longrightarrow> x = 0 \<or> eClk e 2 < x \<longrightarrow> redirects (aofAPI e) code url (s', fs')))"
proof -
  obtain s fs gc where b: "appStore a = (s, fs)" "b = a\<lparr>appStore := Close gc fs s\<rparr>"
    using assms(3) by (cases rule: stoppingE) (auto elim: withApp.elims)
  let ?i = "sinstance s"
  obtain d h where r: "sinv ?i d s fs h" "\<not> closed s" "dir \<noteq> '':memory:''"
    by (rule draining_in_run [OF assms(1,2) b(1)]) (rule that)
  obtain s1 fs1 where c: "Close gc fs s = (s1, fs1)" by fastforce
  have "redirects (aofAPI e) code url (s', fs')"
    if n: "New g locks (Some goodIO) alive pid dir inst2 fs1 = Some (Inr s', fs')" "sinstance s' = ?i"
      and v: "aofView (s, fs) code = Some (url, x)" "codeOK code" "code \<noteq> ''metrics''" "x = 0 \<or> eClk e 2 < x"
    for g locks alive pid inst2 s' fs' e code url x
  proof -
    have inv': "sinv ?i (length h) s' fs' h" by (rule sinv_restart [OF r(1,2) c n(1) r(3) n(2)])
    then have ok: "aofOk (s', fs')" by (auto simp: aofOk_def sinv_def opened_def)
    have "rows s' code = rows s code" using inv' r(1) by (simp add: sinv_def)
    then have "aofView (s', fs') code = Some (url, x)" using v(1) by (auto simp: rows_def rowOf_def aofView_def)
    from aof_api.redirect_live [OF ok this v(4,2,3)] show ?thesis .
  qed
  moreover have "\<exists>s' fs'. New g locks (Some goodIO) alive pid dir ?i fs1 = Some (Inr s', fs') \<and> sinstance s' = ?i"
    using New_after_Close [OF r(1,2) c r(3)] by blast
  ultimately show ?thesis using b c by simp
qed

theorem shutdown_keeps_links_witness:
  "\<exists>a b s' fs'. (lifeStep demoApp ''data'' 0)\<^sup>*\<^sup>* (Booting fmempty) (Draining a)
     \<and> lifeStep demoApp ''data'' 0 (Draining a) (Stopped b)
     \<and> New det_rt (Some goodLocks) (Some goodIO) (\<lambda>_. True) 7 ''data'' 0 (snd (appStore b)) = Some (Inr s', fs')
     \<and> redirects (aofAPI demoAof) ''al'' ''http://x'' (s', fs')"
proof -
  let ?a = "demoApp\<lparr>appStore := (demoStart, demoFs)\<rparr>" and ?step = "lifeStep demoApp ''data'' 0"
  obtain a where h: "Handle demoEnv (aofAPI demoAof) ''POST'' ''/api/shorten'' ''http://x'' [] ''10.0.0.1'' ?a
      = Some (json 201 (createdBody ''al''), a)"
    using Handle_demo [OF demoStart_free] by blast
  have clk: "in_i64 (eClk demoAof 0)" by (simp add: demoAof_def in_i64_def)
  have "?step (Serving ?a) (Serving a)" using lifeStep.Request [OF _ h clk, of "Serving ?a" demoApp "''data''" 0] by simp
  then have run: "?step\<^sup>*\<^sup>* (Booting fmempty) (Draining a)"
    using demo_serving lifeStep.Signal by (meson rtranclp.rtrancl_into_rtrancl)
  obtain s fs where st: "appStore a = (s, fs)" by fastforce
  note close = lifeStep.CloseStore [OF st, of demoApp "''data''" 0 det_rt]
  have ok: "aofOk (appStore ?a)" by (simp add: aofOk_def bareStore_def emptyStore_def ALPHABET_def)
  obtain code url ttl al hasAlias where c: "acknowledges demoEnv ''http://x'' (json 201 (createdBody ''al'')) code url ttl"
      "aofView (appStore a) = (aofView (appStore ?a))(code \<mapsto> (url, expiry (eClk demoAof 0) ttl))"
      "apiShorten (aofAPI demoAof) url al hasAlias ttl (appStore ?a) = Some (code, appStore a)"
    by (rule aof_api.created_link [OF h reply_status(1) ok TrueI]) (rule that)
  have "core s = core demoStart" using c(3) st core_Shorten by (auto simp: aofAPI_def)
  then have id: "sinstance s = 0" by (simp add: core_def)
  have view: "aofView (appStore a) ''al'' = Some (''http://x'', 61000)"
    using c(1,2) by (simp add: demo_acknowledges demoAof_def expiry_def i64_id in_i64_def)
  have "codeOK code" "code = ''al''" using c(1) demo_acknowledges by (simp add: acknowledges_def, blast)
  then have "codeOK ''al''" by simp
  moreover have "(61000 :: int) = 0 \<or> eClk demoAof 2 < 61000" by (simp add: demoAof_def)
  ultimately obtain s' fs' where "redirects (aofAPI demoAof) ''al'' ''http://x'' (s', fs')"
    "New det_rt (Some goodLocks) (Some goodIO) (\<lambda>_. True) 7 ''data'' 0 (snd (appStore (a\<lparr>appStore := Close det_rt fs s\<rparr>))) = Some (Inr s', fs')"
    using shutdown_keeps_links [OF demo_lifeInit run close, of det_rt "Some goodLocks" "\<lambda>_. True" 7] view id st by fastforce
  then show ?thesis using run close by blast
qed

text \<open>C29. A request that is still being handled when the store is closed is acknowledged and lost: after \<open>Close\<close> a
  201 from \<open>POST /api/shorten\<close> names a code that the next process, under the same id, does not know.\<close>

theorem late_link_lost:
  assumes "lifeInit dir inst l0" and "(lifeStep a0 dir inst)\<^sup>*\<^sup>* l0 (Draining a)" and "lifeStep a0 dir inst (Draining a) (Stopped b)"
    and "Handle env (aofAPI e) ''POST'' ''/api/shorten'' body token client b = Some (r, b')" and "Status1 r = 201"
  shows "\<exists>code url ttl s' fs'. acknowledges env body r code url ttl
    \<and> New g locks (Some goodIO) alive pid dir (sinstance (fst (appStore a))) (snd (appStore b')) = Some (Inr s', fs')
    \<and> aofView (s', fs') code = None"
proof -
  obtain s fs gc where b: "appStore a = (s, fs)" "b = a\<lparr>appStore := Close gc fs s\<rparr>"
    using assms(3) by (cases rule: stoppingE) (auto elim: withApp.elims)
  obtain d h where r: "sinv (sinstance s) d s fs h" "\<not> closed s" "dir \<noteq> '':memory:''"
    by (rule draining_in_run [OF assms(1,2) b(1)]) (rule that)
  obtain s1 fs1 where c: "Close gc fs s = (s1, fs1)" by fastforce
  note k = Close_keeps [OF r(1,2) c]
  have ok: "aofOk (appStore b)" using k(2) r(1) b(2) c by (auto simp: aofOk_def sinv_def opened_def)
  obtain code url ttl al hasAlias where h: "acknowledges env body r code url ttl" "code \<noteq> []"
    "apiShorten (aofAPI e) url al hasAlias ttl (appStore b) = Some (code, appStore b')" "aofView (appStore b) code = None"
    by (rule aof_api.created_link [OF assms(4,5) ok TrueI], rule that)
  obtain s2 fs2 where b': "appStore b' = (s2, fs2)" by fastforce
  have "Shorten (eDraws e) (eClk e 0) url al hasAlias ttl fs1 s1 = Some (code, s2, fs2)"
    using h(3) b(2) c b' by (simp add: aofAPI_def)
  then have fs2: "fs2 = fs1" using k(3) Shorten_shut by blast
  obtain s' fs' where n: "New g locks (Some goodIO) alive pid dir (sinstance s) fs1 = Some (Inr s', fs')" "rows s' = rows s"
    using New_after_Close [OF r(1,2) c r(3)] by blast
  have "rows s' code = rows s1 code" using n(2) k(1) by simp
  then have "rows s' code = None" using h(4) b(2) c by (simp add: rows_def aofView_def)
  then show ?thesis using h(1) n(1) b(1) b' fs2 by (auto simp: rows_def aofView_def)
qed

theorem late_link_lost_witness:
  "\<exists>a b b' s' fs'. (lifeStep demoApp ''data'' 0)\<^sup>*\<^sup>* (Booting fmempty) (Draining a)
     \<and> lifeStep demoApp ''data'' 0 (Draining a) (Stopped b)
     \<and> Handle demoEnv (aofAPI demoAof) ''POST'' ''/api/shorten'' ''http://x'' [] ''10.0.0.1'' b
         = Some (json 201 (createdBody ''al''), b')
     \<and> New det_rt (Some goodLocks) (Some goodIO) (\<lambda>_. True) 7 ''data'' 0 (snd (appStore b')) = Some (Inr s', fs')
     \<and> aofView (s', fs') ''al'' = None"
proof -
  let ?a = "demoApp\<lparr>appStore := (demoStart, demoFs)\<rparr>" and ?step = "lifeStep demoApp ''data'' 0"
  let ?b = "demoApp\<lparr>appStore := Close det_rt demoFs demoStart\<rparr>"
  have run: "?step\<^sup>*\<^sup>* (Booting fmempty) (Draining ?a)"
    using demo_serving lifeStep.Signal by (meson rtranclp.rtrancl_into_rtrancl)
  have close: "?step (Draining ?a) (Stopped ?b)"
    using lifeStep.CloseStore [of ?a demoStart demoFs demoApp "''data''" 0 det_rt] by simp
  obtain s1 fs1 where c: "Close det_rt demoFs demoStart = (s1, fs1)" by fastforce
  obtain d h where "sinv (sinstance demoStart) d demoStart demoFs h" "\<not> closed demoStart"
    by (rule draining_in_run [OF demo_lifeInit run, of demoStart demoFs]) simp
  from Close_keeps(1) [OF this c] have "aofView (s1, fs1) ''al'' = None"
    using demoStart_free [of "''al''"] by (simp add: rows_def aofView_def fun_eq_iff)
  then obtain b' where h: "Handle demoEnv (aofAPI demoAof) ''POST'' ''/api/shorten'' ''http://x'' [] ''10.0.0.1'' ?b
      = Some (json 201 (createdBody ''al''), b')"
    using Handle_demo [of "(s1, fs1)"] c by auto
  show ?thesis
    using late_link_lost [OF demo_lifeInit run close h reply_status(1), of det_rt "Some goodLocks" "\<lambda>_. True" 7] run close h
    by (fastforce simp: demo_acknowledges)
qed

end
