(* ===== verification/Bench.thy ===== *)
theory Bench
  imports Process
begin

text \<open>
  The load generator \<open>cmd/bench/main.go\<close>: its reader of HTTP responses, the loop of one connection, the sums over
  all connections, its request templates and the environments of the servers it starts. A connection is the
  sequence of bytes the peer sends before it closes, together with which writes succeed; the clock is the
  number of rounds begun before the deadline and the duration of each. Floating-point results are rational
  numbers rounded by an argument \<open>rnd\<close>. Printing, health checks and the children's life are not modelled.
\<close>

section \<open>Reading a response\<close>

text \<open>\<open>ReadString('\n')\<close>: the line with its end, or an error after the rest of the stream has been consumed.\<close>

definition ReadString :: "bytes \<Rightarrow> bytes option \<times> bytes" where
  "ReadString r = (case IndexByte r NL of None \<Rightarrow> (None, []) | Some i \<Rightarrow> (Some (take (i + 1) r), drop (i + 1) r))"

text \<open>\<open>io.CopyN\<close> to \<open>io.Discard\<close>: a negative count copies nothing and is no error.\<close>

definition discardN :: "int \<Rightarrow> bytes \<Rightarrow> bool \<times> bytes" where
  "discardN n r = (int (length r) \<ge> n, drop (nat n) r)"

text \<open>The second of \<open>strings.SplitN(line, " ", 3)\<close>, if there is one.\<close>

definition secondField :: "bytes \<Rightarrow> bytes option" where
  "secondField line =
     (case IndexByte line (CHR '' '') of
        None \<Rightarrow> None
      | Some i \<Rightarrow>
          (let rest = drop (i + 1) line
           in Some (case IndexByte rest (CHR '' '') of None \<Rightarrow> rest | Some j \<Rightarrow> take j rest)))"

text \<open>\<open>strings.EqualFold\<close> of arbitrary bytes with an ASCII string: besides the two cases of a letter, the long s and
  the Kelvin sign fold to ASCII letters.\<close>

fun foldsTo :: "bytes \<Rightarrow> bytes \<Rightarrow> bool" where
  "foldsTo s [] \<longleftrightarrow> s = []"
| "foldsTo s (t # ts) \<longleftrightarrow>
     (case s of
        [] \<Rightarrow> False
      | c # cs \<Rightarrow>
          lowerASCII c = lowerASCII t \<and> foldsTo cs ts
          \<or> lowerASCII t = CHR ''s'' \<and> HasPrefix s [CHR 0xC5, CHR 0xBF] \<and> foldsTo (drop 2 s) ts
          \<or> lowerASCII t = CHR ''k'' \<and> HasPrefix s [CHR 0xE2, CHR 0x84, CHR 0xAA] \<and> foldsTo (drop 3 s) ts)"

text \<open>\<open>ParseInt(s, 16, 64)\<close>.\<close>

definition ParseHex :: "bytes \<Rightarrow> int \<times> num_err option" where
  "ParseHex s =
     (if s = [] then (0, Some ErrSyntax)
      else
        let neg = (hd s = CHR ''-'');
            ds = (if hd s = CHR ''+'' \<or> neg then tl s else s);
            (un, err) = ParseUint ds 16 64
        in if err = Some ErrSyntax then (0, err)
           else if \<not> neg \<and> 2 ^ 63 \<le> un then (2 ^ 63 - 1, Some ErrRange)
           else if neg \<and> 2 ^ 63 < un then (- (2 ^ 63), Some ErrRange)
           else (if neg then - int un else int un, None))"

definition headerStep :: "bytes \<Rightarrow> int \<times> bool \<Rightarrow> int \<times> bool" where
  "headerStep h st =
     (case st of (cl, chunked) \<Rightarrow>
        (case IndexByte h (CHR '':'') of
           None \<Rightarrow> (cl, chunked)
         | Some i \<Rightarrow>
             (let k = take i h; v = TrimSpace (drop (i + 1) h)
              in if foldsTo k ''content-length'' then (fst (Atoi v), chunked)
                 else if foldsTo k ''transfer-encoding'' \<and> Contains v ''chunked'' then (cl, True)
                 else (cl, chunked))))"

lemma ReadString_shorter: "ReadString r = (Some l, r') \<Longrightarrow> length r' < length r"
  by (auto simp: ReadString_def dest: IndexByte_SomeD split: option.splits)

function readHeaders :: "int \<times> bool \<Rightarrow> bytes \<Rightarrow> (int \<times> bool) option \<times> bytes" where
  "readHeaders st r =
     (case ReadString r of
        (None, r) \<Rightarrow> (None, r)
      | (Some h, r) \<Rightarrow>
          if h = [CHR 0x0D, NL] \<or> h = [NL] then (Some st, r) else readHeaders (headerStep h st) r)"
  by pat_completeness auto
termination
  by (relation "measure (\<lambda>(st, r). length r)") (auto dest: ReadString_shorter [OF sym])

function readChunks :: "bytes \<Rightarrow> bool \<times> bytes" where
  "readChunks r =
     (case ReadString r of
        (None, r) \<Rightarrow> (False, r)
      | (Some sz, r) \<Rightarrow>
          (case ParseHex (TrimSpace sz) of
             (_, Some _) \<Rightarrow> (False, r)
           | (n, None) \<Rightarrow>
               if n = 0 then (True, snd (ReadString r))
               else case discardN (i64 (n + 2)) r of (ok, r) \<Rightarrow> if ok then readChunks r else (False, r)))"
  by pat_completeness auto
termination
  by (relation "measure length") (auto simp: discardN_def dest!: ReadString_shorter [OF sym])

declare readHeaders.simps [simp del] readChunks.simps [simp del] foldsTo.simps [simp del]

text \<open>\<open>readResp\<close>: the status code, or an error, and the unread rest of the stream.\<close>

definition readHTTP :: "bytes \<Rightarrow> int option \<times> bytes" where
  "readHTTP r =
     (case ReadString r of
        (None, r) \<Rightarrow> (None, r)
      | (Some line, r) \<Rightarrow>
          (case secondField line of
             None \<Rightarrow> (None, r)
           | Some f \<Rightarrow>
               (case Atoi f of
                  (_, Some _) \<Rightarrow> (None, r)
                | (code, None) \<Rightarrow>
                    (case readHeaders (0, False) r of
                       (None, r) \<Rightarrow> (None, r)
                     | (Some (cl, chunked), r) \<Rightarrow>
                         if chunked then (case readChunks r of (ok, r) \<Rightarrow> (if ok then Some code else None, r))
                         else if 0 < cl then (case discardN cl r of (ok, r) \<Rightarrow> (if ok then Some code else None, r))
                         else (Some code, r)))))"

section \<open>One connection\<close>

text \<open>What the world gives one connection: which writes succeed, the bytes that arrive until it is closed, and
  the duration in microseconds of each round begun before the deadline.\<close>

record link =
  lk_write :: "nat \<Rightarrow> bool"
  lk_in :: bytes
  lk_rounds :: "int list"

record connState =
  cn_i :: nat
  cn_writes :: nat
  cn_rest :: bytes
  cn_total :: int
  cn_non2xx :: int
  cn_errs :: int
  cn_latSum :: int
  cn_lat :: "rat list"

definition getReq :: "bytes \<Rightarrow> bytes" where
  "getReq path = ''GET '' @ path @ '' HTTP/1.1'' @ [CHR 0x0D, NL] @ ''Host: x'' @ [CHR 0x0D, NL, CHR 0x0D, NL]"

definition postReq :: "bytes \<Rightarrow> bytes \<Rightarrow> bytes" where
  "postReq path body =
     ''POST '' @ path @ '' HTTP/1.1'' @ [CHR 0x0D, NL] @ ''Host: x'' @ [CHR 0x0D, NL]
     @ ''content-type: application/json'' @ [CHR 0x0D, NL] @ ''content-length: '' @ Itoa (int (length body))
     @ [CHR 0x0D, NL, CHR 0x0D, NL] @ body"

text \<open>Writing up to \<open>n\<close> requests after \<open>p\<close> of the round: the number written in all, \<open>batch\<close>.\<close>

fun writeLoop :: "(nat \<Rightarrow> bool) \<Rightarrow> nat \<Rightarrow> nat \<Rightarrow> nat \<Rightarrow> connState \<Rightarrow> nat \<times> connState" where
  "writeLoop ok len 0 p c = (p, c)"
| "writeLoop ok len (Suc n) p c =
     (let w = cn_writes c; c = c\<lparr>cn_writes := w + 1\<rparr>
      in if ok w then writeLoop ok len n (p + 1) (c\<lparr>cn_i := (cn_i c + 1) mod len\<rparr>)
         else (p, c\<lparr>cn_errs := cn_errs c + 1\<rparr>))"

text \<open>Reading up to \<open>n\<close> responses after \<open>got\<close> of the round.\<close>

fun readLoop :: "nat \<Rightarrow> nat \<Rightarrow> connState \<Rightarrow> nat \<times> connState" where
  "readLoop 0 got c = (got, c)"
| "readLoop (Suc n) got c =
     (case readHTTP (cn_rest c) of
        (None, r) \<Rightarrow> (got, c\<lparr>cn_rest := r, cn_errs := cn_errs c + 1\<rparr>)
      | (Some code, r) \<Rightarrow>
          readLoop n (got + 1)
            (c\<lparr>cn_rest := r, cn_non2xx := (if code < 200 \<or> 400 \<le> code then cn_non2xx c + 1 else cn_non2xx c)\<rparr>))"

definition truncRat :: "rat \<Rightarrow> int" where
  "truncRat x = (if 0 \<le> x then \<lfloor>x\<rfloor> else \<lceil>x\<rceil>)"

fun connLoop :: "(rat \<Rightarrow> rat) \<Rightarrow> (nat \<Rightarrow> bool) \<Rightarrow> nat \<Rightarrow> nat \<Rightarrow> int list \<Rightarrow> connState \<Rightarrow> connState" where
  "connLoop rnd ok len pipe [] c = c"
| "connLoop rnd ok len pipe (us # uss) c =
     (case writeLoop ok len pipe 0 c of (batch, c) \<Rightarrow>
        if batch = 0 then c
        else case readLoop batch 0 c of (got, c) \<Rightarrow>
          if got = 0 then c
          else
            let el = rnd (rnd (rnd (of_int us) / 1000) / rnd (of_nat got))
            in connLoop rnd ok len pipe uss
                 (c\<lparr>cn_latSum := cn_latSum c + truncRat (rnd (el * 1000)), cn_total := cn_total c + int got,
                    cn_lat := cn_lat c @ [el]\<rparr>))"

section \<open>The whole blast\<close>

record result =
  rs_reqs :: int
  rs_non2xx :: int
  rs_errs :: int
  rs_latSum :: rat
  rs_latVals :: "rat list"

definition newConn :: "nat \<Rightarrow> bytes \<Rightarrow> connState" where
  "newConn i r =
     \<lparr>cn_i = i, cn_writes = 0, cn_rest = r, cn_total = 0, cn_non2xx = 0, cn_errs = 0, cn_latSum = 0, cn_lat = []\<rparr>"

text \<open>The goroutine of connection \<open>n\<close>. Without requests the modulus panics.\<close>

definition worker :: "(rat \<Rightarrow> rat) \<Rightarrow> bytes list \<Rightarrow> nat \<Rightarrow> nat \<Rightarrow> link option \<Rightarrow> connState option" where
  "worker rnd reqs pipe n l =
     (case l of
        None \<Rightarrow> Some ((newConn 0 [])\<lparr>cn_errs := 1\<rparr>)
      | Some l \<Rightarrow>
          if reqs = [] then None
          else Some (connLoop rnd (lk_write l) (length reqs) pipe (lk_rounds l) (newConn (n mod length reqs) (lk_in l))))"

text \<open>\<open>blast\<close> over what each dialled connection (\<open>None\<close>: refused) gives. The counters are shared atomics, so only
  their sums matter; the latencies are sorted, so the order in which the goroutines append them does not.\<close>

definition summary :: "(rat \<Rightarrow> rat) \<Rightarrow> connState list \<Rightarrow> result option" where
  "summary rnd cs =
     (let total = i64 (sum_list (map cn_total cs)); latSum = i64 (sum_list (map cn_latSum cs));
          lats = sort (concat (map cn_lat cs)); n = length lats;
          k = truncRat (rnd (rnd (of_nat n) * rnd (99 / 100)));
          avg = (if 0 < total then rnd (rnd (rnd (of_int latSum) / 1000) / rnd (of_int total)) else 0)
      in if 0 < n \<and> \<not> (0 \<le> k \<and> k < int n) then None
         else Some \<lparr>rs_reqs = total, rs_non2xx = i64 (sum_list (map cn_non2xx cs)), rs_errs = i64 (sum_list (map cn_errs cs)),
                    rs_latSum = avg, rs_latVals = [avg, if 0 < n then lats ! nat k else 0]\<rparr>)"

definition blast :: "(rat \<Rightarrow> rat) \<Rightarrow> bytes list \<Rightarrow> nat \<Rightarrow> link option list \<Rightarrow> result option" where
  "blast rnd reqs pipe links =
     Option.bind (foldOpt (\<lambda>(n, l) cs. map_option (\<lambda>c. cs @ [c]) (worker rnd reqs pipe n l))
       (enumerate 0 links) []) (summary rnd)"

section \<open>Responses on the wire\<close>

text \<open>What a server sends: a status line, header fields, and a body with its length or in chunks.\<close>

datatype framing = Sized bytes | Chunked "bytes list"

datatype wire = Wire (wStatus: int) (wReason: bytes) (wHeaders: "(bytes \<times> bytes) list") (wBody: framing)

abbreviation EOL :: bytes where
  "EOL \<equiv> [CHR 0x0D, NL]"

definition hexDigit :: "nat \<Rightarrow> char" where
  "hexDigit d = (if d < 10 then char_of (48 + d) else char_of (87 + d))"

fun fmtHex :: "nat \<Rightarrow> bytes" where
  "fmtHex n = (if n < 16 then [hexDigit n] else fmtHex (n div 16) @ [hexDigit (n mod 16)])"

declare fmtHex.simps [simp del]

definition printField :: "bytes \<times> bytes \<Rightarrow> bytes" where
  "printField kv = fst kv @ '': '' @ snd kv @ EOL"

definition printChunk :: "bytes \<Rightarrow> bytes" where
  "printChunk b = fmtHex (length b) @ EOL @ b @ EOL"

fun printBody :: "framing \<Rightarrow> bytes" where
  "printBody (Sized b) = printField (''Content-Length'', Itoa (int (length b))) @ EOL @ b"
| "printBody (Chunked bs) =
     printField (''Transfer-Encoding'', ''chunked'') @ EOL @ concat (map printChunk bs) @ fmtHex 0 @ EOL @ EOL"

definition printWire :: "wire \<Rightarrow> bytes" where
  "printWire w =
     ''HTTP/1.1 '' @ Itoa (wStatus w) @ '' '' @ wReason w @ EOL @ concat (map printField (wHeaders w)) @ printBody (wBody w)"

definition wire_ok :: "wire \<Rightarrow> bool" where
  "wire_ok w \<longleftrightarrow>
     in_i64 (wStatus w) \<and> NL \<notin> set (wReason w)
     \<and> (\<forall>(k, v) \<in> set (wHeaders w). NL \<notin> set k \<and> CHR '':'' \<notin> set k \<and> NL \<notin> set v
          \<and> \<not> foldsTo k ''content-length'' \<and> \<not> foldsTo k ''transfer-encoding'')
     \<and> (case wBody w of Sized b \<Rightarrow> int (length b) < 2 ^ 63
        | Chunked bs \<Rightarrow> \<forall>b \<in> set bs. b \<noteq> [] \<and> int (length b) < 2 ^ 63 - 2)"

lemma ReadString_line: "NL \<notin> set l \<Longrightarrow> ReadString (l @ NL # r) = (Some (l @ [NL]), r)"
  by (simp add: ReadString_def IndexByte_split)

text \<open>Trimming between visible characters.\<close>

definition visible :: "char \<Rightarrow> bool" where
  "visible c \<longleftrightarrow> 32 < (of_char c :: nat) \<and> (of_char c :: nat) < 127"

lemma spaceSeqs_visible:
  "w \<in> set spaceSeqs \<Longrightarrow> \<not> visible (hd w)" "w \<in> set (map rev spaceSeqs) \<Longrightarrow> \<not> visible (hd w)"
proof -
  have "list_all (\<lambda>w. \<not> visible (hd w)) spaceSeqs" "list_all (\<lambda>w. \<not> visible (hd w)) (map rev spaceSeqs)"
    by (simp_all add: spaceSeqs_def visible_def upt_rec)
  then show "w \<in> set spaceSeqs \<Longrightarrow> \<not> visible (hd w)" "w \<in> set (map rev spaceSeqs) \<Longrightarrow> \<not> visible (hd w)"
    by (auto simp: list_all_iff)
qed

lemma trimSeqs_one:
  assumes "[c] \<in> set ws" and "list_all (\<lambda>w. w \<noteq> [] \<longrightarrow> hd w = c \<longrightarrow> w = [c]) ws"
  shows "trimSeqs ws (c # s) = trimSeqs ws s"
proof (cases "find (\<lambda>w. w \<noteq> [] \<and> HasPrefix (c # s) w) ws")
  case None
  then show ?thesis using assms(1) by (auto simp: find_None_iff HasPrefix_def)
next
  case (Some w)
  then have "w \<in> set ws" "w \<noteq> []" "HasPrefix (c # s) w" by (auto simp: find_Some_iff)
  moreover from this(2,3) have "hd w = c" by (auto simp: HasPrefix_def neq_Nil_conv)
  ultimately have "w = [c]" using assms(2) by (simp add: list_all_iff)
  then show ?thesis using Some by (subst trimSeqs.simps) simp
qed

lemma trim_first: "trimSeqs spaceSeqs (CHR '' '' # s) = trimSeqs spaceSeqs s"
  by (rule trimSeqs_one) code_simp+

lemma trim_last: "trimSeqs (map rev spaceSeqs) (NL # CHR 0x0D # s) = trimSeqs (map rev spaceSeqs) s"
proof -
  have m: "[NL] \<in> set (map rev spaceSeqs)" "[CHR 0x0D] \<in> set (map rev spaceSeqs)" by code_simp+
  have l: "list_all (\<lambda>w. w \<noteq> [] \<longrightarrow> hd w = NL \<longrightarrow> w = [NL]) (map rev spaceSeqs)"
    "list_all (\<lambda>w. w \<noteq> [] \<longrightarrow> hd w = CHR 0x0D \<longrightarrow> w = [CHR 0x0D]) (map rev spaceSeqs)" by code_simp+
  show ?thesis using trimSeqs_one [OF m(1) l(1)] trimSeqs_one [OF m(2) l(2)] by simp
qed

lemma TrimSpace_visible:
  assumes "s \<noteq> []" and "visible (hd s)" and "visible (last s)"
  shows "TrimSpace (s @ EOL) = s" and "TrimSpace (CHR '' '' # s @ EOL) = s"
proof -
  have f: "trimSeqs spaceSeqs (s @ EOL) = s @ EOL"
    by (rule trimSeqs_hd) (use assms(1,2) spaceSeqs_visible(1) in \<open>auto dest: spaceSeqs_visible(1)\<close>)
  have "trimSeqs (map rev spaceSeqs) (rev s) = rev s"
    by (rule trimSeqs_hd) (use assms(1,3) spaceSeqs_visible(2) in \<open>simp, metis hd_rev\<close>)
  then show "TrimSpace (s @ EOL) = s" "TrimSpace (CHR '' '' # s @ EOL) = s"
    using f trim_last by (simp_all add: TrimSpace_def trim_first)
qed

text \<open>Hexadecimal sizes.\<close>

lemma hexDigit_props:
  assumes "d < 16"
  shows "digit_val (hexDigit d) = Some d" and "visible (hexDigit d)" and "hexDigit d \<noteq> CHR ''-''" and "hexDigit d \<noteq> CHR ''+''"
    and "hexDigit d \<noteq> NL"
proof -
  have n: "(of_char (hexDigit d) :: nat) = (if d < 10 then 48 + d else 87 + d)" using assms by (simp add: hexDigit_def)
  show "digit_val (hexDigit d) = Some d" "visible (hexDigit d)"
    using assms n by (auto simp: digit_val_def visible_def)
  show "hexDigit d \<noteq> CHR ''-''" "hexDigit d \<noteq> CHR ''+''" "hexDigit d \<noteq> NL"
    using n by (auto split: if_splits)
qed

lemma fmtHex_chars: "set (fmtHex n) \<subseteq> hexDigit ` {..<16}"
proof (induction n rule: fmtHex.induct)
  case (1 n)
  then show ?case by (subst fmtHex.simps) auto
qed

lemma fmtHex_not_Nil [simp]: "fmtHex n \<noteq> []"
  by (subst fmtHex.simps) simp

lemma fmtHex_char:
  assumes "c \<in> set (fmtHex n)"
  shows "visible c \<and> c \<noteq> CHR ''-'' \<and> c \<noteq> CHR ''+'' \<and> c \<noteq> NL"
proof -
  obtain d where "d < 16" "c = hexDigit d" using subsetD [OF fmtHex_chars assms] by auto
  then show ?thesis using hexDigit_props(2-5) by simp
qed

lemma NL_fmtHex [simp]: "NL \<notin> set (fmtHex n)"
  using fmtHex_char by blast

lemma uintLoop_append:
  "uintLoop base mx n xs = (m, None) \<Longrightarrow> uintLoop base mx n (xs @ ys) = uintLoop base mx m ys"
  by (induction xs arbitrary: n) (auto split: option.splits if_splits)

lemma uintLoop_hex: "n \<le> mx \<Longrightarrow> uintLoop 16 mx 0 (fmtHex n) = (n, None)"
proof (induction n rule: fmtHex.induct)
  case (1 n)
  show ?case
  proof (cases "n < 16")
    case True
    then show ?thesis using 1(2) hexDigit_props(1) [of n] by (simp add: fmtHex.simps)
  next
    case False
    then have "uintLoop 16 mx 0 (fmtHex (n div 16)) = (n div 16, None)" using 1 by simp
    moreover have "n div 16 * 16 + n mod 16 = n" by simp
    ultimately show ?thesis
      using False 1(2) hexDigit_props(1) [of "n mod 16"]
      by (subst fmtHex.simps) (simp add: uintLoop_append [of _ _ _ _ "n div 16"])
  qed
qed

lemma ParseHex_fmtHex: "n < 2 ^ 63 \<Longrightarrow> ParseHex (fmtHex n) = (int n, None)"
  using uintLoop_hex [of n "2 ^ 64 - 1"] fmtHex_char [OF hd_in_set [OF fmtHex_not_Nil], of n]
  by (simp add: ParseHex_def ParseUint_def)

lemma TrimSpace_hex: "TrimSpace (fmtHex n @ EOL) = fmtHex n"
  using fmtHex_char [OF hd_in_set [OF fmtHex_not_Nil]] fmtHex_char [OF last_in_set [OF fmtHex_not_Nil]]
  by (intro TrimSpace_visible) auto

text \<open>Header fields.\<close>

lemma ReadString_field:
  assumes "NL \<notin> set k" and "NL \<notin> set v"
  shows "ReadString (printField (k, v) @ r) = (Some (printField (k, v)), r)"
  using assms ReadString_line [of "k @ '': '' @ v @ [CHR 0x0D]" r] by (simp add: printField_def)

lemma readHeaders_field:
  assumes "NL \<notin> set k" and "NL \<notin> set v"
  shows "readHeaders st (printField (k, v) @ r) = readHeaders (headerStep (printField (k, v)) st) r"
proof -
  have "printField (k, v) \<noteq> EOL" "printField (k, v) \<noteq> [NL]" by (auto simp: printField_def Cons_eq_append_conv)
  then show ?thesis using ReadString_field [OF assms] by (subst readHeaders.simps) simp
qed

lemma readHeaders_end: "readHeaders st (EOL @ r) = (Some st, r)"
  using ReadString_line [of "[CHR 0x0D]" r] by (subst readHeaders.simps) simp

lemma headerStep_field:
  assumes "CHR '':'' \<notin> set k"
  shows "headerStep (printField (k, v)) (cl, chunked)
    = (if foldsTo k ''content-length'' then (fst (Atoi (TrimSpace (CHR '' '' # v @ EOL))), chunked)
       else if foldsTo k ''transfer-encoding'' \<and> Contains (TrimSpace (CHR '' '' # v @ EOL)) ''chunked'' then (cl, True)
       else (cl, chunked))"
  using IndexByte_split [OF assms, of "'' '' @ v @ EOL"] by (simp add: headerStep_def printField_def Let_def)

lemma readHeaders_fields:
  assumes "\<forall>(k, v) \<in> set hs. NL \<notin> set k \<and> CHR '':'' \<notin> set k \<and> NL \<notin> set v
          \<and> \<not> foldsTo k ''content-length'' \<and> \<not> foldsTo k ''transfer-encoding''"
  shows "readHeaders st (concat (map printField hs) @ r) = readHeaders st r"
  using assms
proof (induction hs)
  case (Cons kv hs)
  then show ?case by (cases kv; cases st) (simp add: readHeaders_field headerStep_field)
qed simp

text \<open>Bodies.\<close>

lemma readChunks_chunk:
  assumes "b \<noteq> []" and "int (length b) < 2 ^ 63 - 2"
  shows "readChunks (printChunk b @ r) = readChunks r"
proof -
  have n: "ParseHex (TrimSpace (fmtHex (length b) @ EOL)) = (int (length b), None)"
    using assms(2) by (simp add: TrimSpace_hex ParseHex_fmtHex)
  have i: "i64 (int (length b) + 2) = int (length b) + 2" using assms(2) by (simp add: i64_id in_i64_def)
  have "ReadString (printChunk b @ r) = (Some (fmtHex (length b) @ EOL), b @ EOL @ r)"
    using ReadString_line [of "fmtHex (length b) @ [CHR 0x0D]" "b @ EOL @ r"] by (simp add: printChunk_def)
  then show ?thesis
    using n i assms(1) by (subst readChunks.simps) (simp add: discardN_def nat_add_distrib)
qed

lemma readChunks_print:
  assumes "\<forall>b \<in> set bs. b \<noteq> [] \<and> int (length b) < 2 ^ 63 - 2"
  shows "readChunks (concat (map printChunk bs) @ fmtHex 0 @ EOL @ EOL @ r) = (True, r)"
  using assms
proof (induction bs)
  case Nil
  have "ReadString (fmtHex 0 @ EOL @ EOL @ r) = (Some (fmtHex 0 @ EOL), EOL @ r)"
    using ReadString_line [of "fmtHex 0 @ [CHR 0x0D]" "EOL @ r"] by simp
  moreover have "ParseHex (TrimSpace (fmtHex 0 @ EOL)) = (0, None)" by (simp add: TrimSpace_hex ParseHex_fmtHex)
  moreover have "snd (ReadString (EOL @ r)) = r" using ReadString_line [of "[CHR 0x0D]" r] by simp
  ultimately show ?case by (subst readChunks.simps) simp
qed (simp add: readChunks_chunk)

lemma visible_FormatInt: "c \<in> set (FormatInt n) \<Longrightarrow> visible c"
  using FormatInt_chars [of c n] by (auto simp: is_dec_def visible_def)

lemma TrimSpace_int: "TrimSpace (CHR '' '' # FormatInt n @ EOL) = FormatInt n"
  using visible_FormatInt [OF hd_in_set [OF FormatInt_not_Nil]] visible_FormatInt [OF last_in_set [OF FormatInt_not_Nil]]
  by (intro TrimSpace_visible(2)) simp_all

lemma framing_names:
  "foldsTo ''Content-Length'' ''content-length''" "\<not> foldsTo ''Transfer-Encoding'' ''content-length''"
  "foldsTo ''Transfer-Encoding'' ''transfer-encoding''" "Contains ''chunked'' ''chunked''"
  by code_simp+

lemma TrimSpace_chunked: "TrimSpace ('' chunked'' @ EOL) = ''chunked''"
  using TrimSpace_visible(2) [of "''chunked''"] by (simp add: visible_def)

lemma readHeaders_Sized:
  assumes "int (length b) < 2 ^ 63"
  shows "readHeaders (0, False) (printBody (Sized b) @ r) = (Some (int (length b), False), b @ r)"
  using assms readHeaders_field [of "''Content-Length''" "Itoa (int (length b))" "(0, False)" "EOL @ b @ r"] readHeaders_end
  by (simp add: headerStep_field TrimSpace_int ParseInt_FormatInt in_i64_def framing_names)

lemma readHeaders_Chunked:
  "readHeaders (0, False) (printBody (Chunked bs) @ r)
   = (Some (0, True), concat (map printChunk bs) @ fmtHex 0 @ EOL @ EOL @ r)"
  using TrimSpace_chunked
  by (simp add: readHeaders_field headerStep_field framing_names readHeaders_end [simplified] del: Contains.simps)

lemma readHTTP_print:
  assumes "wire_ok w"
  shows "readHTTP (printWire w @ r) = (Some (wStatus w), r)"
proof -
  let ?rest = "concat (map printField (wHeaders w)) @ printBody (wBody w) @ r"
  let ?line = "''HTTP/1.1 '' @ Itoa (wStatus w) @ '' '' @ wReason w @ EOL"
  have line: "ReadString (printWire w @ r) = (Some ?line, ?rest)"
    using assms ReadString_line [of "''HTTP/1.1 '' @ Itoa (wStatus w) @ '' '' @ wReason w @ [CHR 0x0D]" ?rest]
    by (simp add: printWire_def wire_ok_def)
  have "CHR '' '' \<notin> set (Itoa (wStatus w))" using visible_FormatInt by (fastforce simp: visible_def)
  then have f: "secondField ?line = Some (Itoa (wStatus w))"
    using IndexByte_split [of "CHR '' ''" "''HTTP/1.1''" "Itoa (wStatus w) @ '' '' @ wReason w @ EOL"]
      IndexByte_split [of "CHR '' ''" "Itoa (wStatus w)" "wReason w @ EOL"]
    by (simp add: secondField_def)
  have a: "Atoi (Itoa (wStatus w)) = (wStatus w, None)" using assms by (simp add: wire_ok_def ParseInt_FormatInt)
  have h: "readHeaders (0, False) ?rest = readHeaders (0, False) (printBody (wBody w) @ r)"
    by (rule readHeaders_fields) (use assms in \<open>simp add: wire_ok_def\<close>)
  show ?thesis
  proof (cases "wBody w")
    case (Sized b)
    then show ?thesis
      using assms line f a h readHeaders_Sized [of b r] by (auto simp: readHTTP_def wire_ok_def discardN_def)
  next
    case (Chunked bs)
    then show ?thesis
      using assms line f a h readHeaders_Chunked [of bs r] readChunks_print [of bs r] by (auto simp: readHTTP_def wire_ok_def)
  qed
qed

text \<open>The templates frame their bodies: after the request line, the headers of a POST announce exactly its body, and
  those of a GET announce none.\<close>

lemma request_frames:
  assumes "NL \<notin> set path" and "int (length body) < 2 ^ 63"
  shows "\<exists>line rest. ReadString (postReq path body) = (Some line, rest) \<and> readHeaders (0, False) rest = (Some (int (length body), False), body)"
    and "\<exists>line rest. ReadString (getReq path) = (Some line, rest) \<and> readHeaders (0, False) rest = (Some (0, False), [])"
proof -
  let ?fields = "[(''Host'', ''x''), (''content-type'', ''application/json'')]"
  have n: "\<not> foldsTo ''Host'' ''content-length''" "\<not> foldsTo ''Host'' ''transfer-encoding''"
    "\<not> foldsTo ''content-type'' ''content-length''" "\<not> foldsTo ''content-type'' ''transfer-encoding''"
    "foldsTo ''content-length'' ''content-length''" by code_simp+
  let ?rest = "concat (map printField ?fields) @ printField (''content-length'', Itoa (int (length body))) @ EOL @ body"
  have "readHeaders (0, False) ?rest = readHeaders (0, False) (printField (''content-length'', Itoa (int (length body))) @ EOL @ body)"
    by (rule readHeaders_fields) (use n in simp)
  then have "readHeaders (0, False) ?rest = (Some (int (length body), False), body)"
    using assms(2) n readHeaders_end [of _ body]
    by (simp add: readHeaders_field headerStep_field TrimSpace_int ParseInt_FormatInt in_i64_def)
  moreover have "ReadString (postReq path body) = (Some (''POST '' @ path @ '' HTTP/1.1'' @ EOL), ?rest)"
    using assms(1) ReadString_line [of "''POST '' @ path @ '' HTTP/1.1'' @ [CHR 0x0D]" ?rest]
    by (simp add: postReq_def printField_def)
  ultimately show "\<exists>line rest. ReadString (postReq path body) = (Some line, rest)
      \<and> readHeaders (0, False) rest = (Some (int (length body), False), body)" by blast
  have "readHeaders (0, False) (concat (map printField [(''Host'', ''x'')]) @ EOL) = (Some (0, False), [])"
    using n readHeaders_fields [of "[(''Host'', ''x'')]" "(0, False)" EOL] readHeaders_end [of _ "[]"] by simp
  moreover have "ReadString (getReq path) = (Some (''GET '' @ path @ '' HTTP/1.1'' @ EOL), concat (map printField [(''Host'', ''x'')]) @ EOL)"
    using assms(1) ReadString_line [of "''GET '' @ path @ '' HTTP/1.1'' @ [CHR 0x0D]" "concat (map printField [(''Host'', ''x'')]) @ EOL"]
    by (simp add: getReq_def printField_def)
  ultimately show "\<exists>line rest. ReadString (getReq path) = (Some line, rest) \<and> readHeaders (0, False) rest = (Some (0, False), [])"
    by blast
qed

section \<open>A blast counts what it gets\<close>

definition failing :: "wire \<Rightarrow> bool" where
  "failing w \<longleftrightarrow> wStatus w < 200 \<or> 400 \<le> wStatus w"

lemma writeLoop_ok:
  "\<exists>i w. writeLoop (\<lambda>_. True) len n p c = (p + n, c\<lparr>cn_i := i, cn_writes := w\<rparr>)"
proof (induction n arbitrary: p c)
  case 0
  have "c = c\<lparr>cn_i := cn_i c, cn_writes := cn_writes c\<rparr>" by simp
  then show ?case by (metis add_0_right writeLoop.simps(1))
next
  case (Suc n)
  from Suc [of "p + 1" "c\<lparr>cn_writes := cn_writes c + 1, cn_i := (cn_i c + 1) mod len\<rparr>"] show ?case
    by (auto simp: Let_def)
qed

lemma readLoop_print:
  "\<forall>w \<in> set ws. wire_ok w \<Longrightarrow> cn_rest c = concat (map printWire ws) @ r
   \<Longrightarrow> readLoop (length ws) got c
       = (got + length ws, c\<lparr>cn_rest := r, cn_non2xx := cn_non2xx c + int (length (filter failing ws))\<rparr>)"
proof (induction ws arbitrary: got c)
  case (Cons w ws)
  have "readHTTP (cn_rest c) = (Some (wStatus w), concat (map printWire ws) @ r)"
    using Cons(2,3) readHTTP_print by simp
  then show ?case using Cons by (simp add: failing_def)
qed simp

lemma connLoop_print:
  fixes rnd :: "rat \<Rightarrow> rat" and len :: nat
  assumes "0 < pipe" and "\<forall>w \<in> set ws. wire_ok w" and "length ws = pipe * length uss"
    and "cn_rest c = concat (map printWire ws) @ r"
  defines "c' \<equiv> connLoop rnd (\<lambda>_. True) len pipe uss c"
  shows "cn_total c' = cn_total c + int (length ws)" and "cn_non2xx c' = cn_non2xx c + int (length (filter failing ws))"
    and "cn_errs c' = cn_errs c" and "length (cn_lat c') = length (cn_lat c) + length uss"
proof -
  have "cn_total c' = cn_total c + int (length ws) \<and> cn_non2xx c' = cn_non2xx c + int (length (filter failing ws))
    \<and> cn_errs c' = cn_errs c \<and> length (cn_lat c') = length (cn_lat c) + length uss"
    unfolding c'_def using assms(2-4)
  proof (induction uss arbitrary: ws c)
    case (Cons us uss)
    let ?a = "take pipe ws" and ?b = "drop pipe ws"
    have len: "length ?a = pipe" "length ?b = pipe * length uss" using Cons(3) by simp_all
    have ws: "ws = ?a @ ?b" by simp
    obtain i w where w: "writeLoop (\<lambda>_. True) len pipe 0 c = (pipe, c\<lparr>cn_i := i, cn_writes := w\<rparr>)"
      using writeLoop_ok [of len pipe 0 c] by auto
    have "cn_rest c = concat (map printWire ?a) @ concat (map printWire ?b) @ r"
      using Cons(4) ws by (metis append.assoc concat_append map_append)
    then have rd: "readLoop pipe 0 (c\<lparr>cn_i := i, cn_writes := w\<rparr>)
        = (pipe, c\<lparr>cn_i := i, cn_writes := w, cn_rest := concat (map printWire ?b) @ r,
                   cn_non2xx := cn_non2xx c + int (length (filter failing ?a))\<rparr>)"
      using readLoop_print [of ?a "c\<lparr>cn_i := i, cn_writes := w\<rparr>" _ 0] Cons(2) len(1) by (auto dest: in_set_takeD)
    obtain el ls where step: "connLoop rnd (\<lambda>_. True) len pipe (us # uss) c = connLoop rnd (\<lambda>_. True) len pipe uss
        (c\<lparr>cn_i := i, cn_writes := w, cn_rest := concat (map printWire ?b) @ r,
           cn_non2xx := cn_non2xx c + int (length (filter failing ?a)), cn_latSum := ls, cn_total := cn_total c + int pipe,
           cn_lat := cn_lat c @ [el]\<rparr>)"
      using assms(1) w rd by (simp add: Let_def)
    have b: "\<forall>w \<in> set ?b. wire_ok w" using Cons(2) by (auto dest: in_set_dropD)
    have f: "length (filter failing ws) = length (filter failing ?a) + length (filter failing ?b)"
      by (metis ws filter_append length_append)
    have "length ws = pipe + length ?b" using len ws by (metis length_append)
    then show ?case unfolding step f using Cons(1) [OF b len(2)] by simp
  qed simp
  then show "cn_total c' = cn_total c + int (length ws)" and "cn_non2xx c' = cn_non2xx c + int (length (filter failing ws))"
    and "cn_errs c' = cn_errs c" and "length (cn_lat c') = length (cn_lat c) + length uss" by simp_all
qed

text \<open>A float has 53 bits: rounding is exact up to that relative error, in a range that leaves out only underflow
  and overflow.\<close>

definition float53 :: "(rat \<Rightarrow> rat) \<Rightarrow> bool" where
  "float53 rnd \<longleftrightarrow> (\<forall>x. 1 / 2 \<le> x \<and> x \<le> 2 ^ 1000 \<longrightarrow> \<bar>rnd x - x\<bar> \<le> x / 2 ^ 53)"

lemma float53_bounds:
  assumes "float53 rnd" and "1 / 2 \<le> x" and "x \<le> 2 ^ 1000"
  shows "x * (1 - 1 / 2 ^ 53) \<le> rnd x" and "rnd x \<le> x * (1 + 1 / 2 ^ 53)"
  using assms abs_le_iff [of "rnd x - x" "x / 2 ^ 53"] by (auto simp: float53_def algebra_simps)

lemma p99_index:
  assumes "float53 rnd" and "0 < n" and "n \<le> 2 ^ 53"
  shows "0 \<le> truncRat (rnd (rnd (of_nat n) * rnd (99 / 100)))" and "truncRat (rnd (rnd (of_nat n) * rnd (99 / 100))) < int n"
proof -
  let ?e = "1 / 2 ^ 53 :: rat" and ?n = "of_nat n :: rat"
  have n: "1 \<le> ?n" "?n \<le> 2 ^ 53" using assms(2) of_nat_mono [OF assms(3), where 'a = rat] by simp_all
  have a: "?n * (1 - ?e) \<le> rnd ?n" "rnd ?n \<le> ?n * (1 + ?e)"
    using float53_bounds [OF assms(1), of ?n] n by simp_all
  have b: "99 / 100 * (1 - ?e) \<le> rnd (99 / 100)" "rnd (99 / 100) \<le> 99 / 100 * (1 + ?e)"
    using float53_bounds [OF assms(1), of "99 / 100"] by simp_all
  let ?x = "rnd ?n * rnd (99 / 100)"
  have pos: "0 \<le> rnd ?n" "0 \<le> rnd (99 / 100)" using a b n by simp_all
  have hi: "?x \<le> (?n * (1 + ?e)) * (99 / 100 * (1 + ?e))" using a(2) b(2) pos by (intro mult_mono) auto
  have lo: "(?n * (1 - ?e)) * (99 / 100 * (1 - ?e)) \<le> ?x" using a(1) b(1) pos n by (intro mult_mono) auto
  have x: "1 / 2 \<le> ?x" "?x \<le> 2 ^ 1000" using lo hi n by simp_all
  have "rnd ?x \<le> ?x * (1 + ?e)" "?x * (1 - ?e) \<le> rnd ?x" using float53_bounds [OF assms(1) x] by simp_all
  then have "0 \<le> rnd ?x" "rnd ?x < ?n" using x hi n by simp_all
  then show "0 \<le> truncRat (rnd ?x)" "truncRat (rnd ?x) < int n" by (simp_all add: truncRat_def floor_less_iff)
qed

text \<open>A connection on which every request is answered: its responses and the durations of its rounds.\<close>

definition answered :: "wire list \<times> int list \<Rightarrow> link" where
  "answered wu = \<lparr>lk_write = (\<lambda>_. True), lk_in = concat (map printWire (fst wu)), lk_rounds = snd wu\<rparr>"

definition responses :: "(wire list \<times> int list) option list \<Rightarrow> wire list" where
  "responses peers = concat (map (\<lambda>x. case x of None \<Rightarrow> [] | Some (ws, _) \<Rightarrow> ws) peers)"

definition rounds :: "(wire list \<times> int list) option list \<Rightarrow> nat" where
  "rounds peers = sum_list (map (\<lambda>x. case x of None \<Rightarrow> 0 | Some (_, uss) \<Rightarrow> length uss) peers)"

definition peer_ok :: "nat \<Rightarrow> (wire list \<times> int list) option \<Rightarrow> bool" where
  "peer_ok pipe x \<longleftrightarrow>
     (case x of None \<Rightarrow> True | Some (ws, uss) \<Rightarrow> length ws = pipe * length uss \<and> list_all wire_ok ws)"

lemma worker_counts:
  assumes "reqs \<noteq> []" and "0 < pipe" and "peer_ok pipe x"
  obtains c where "worker rnd reqs pipe n (map_option answered x) = Some c"
    and "cn_total c = int (length (responses [x]))" and "cn_non2xx c = int (length (filter failing (responses [x])))"
    and "cn_errs c = int (length (filter Option.is_none [x]))" and "length (cn_lat c) = rounds [x]"
proof (cases x)
  case None
  then show thesis using that by (simp add: worker_def newConn_def responses_def rounds_def)
next
  case (Some wu)
  obtain ws uss where wu: "wu = (ws, uss)" by (cases wu)
  let ?c = "newConn (n mod length reqs) (concat (map printWire ws))"
  have "length ws = pipe * length uss" "\<forall>w \<in> set ws. wire_ok w" "cn_rest ?c = concat (map printWire ws) @ []"
    using assms(3) Some wu by (simp_all add: peer_ok_def list_all_iff newConn_def)
  note l = connLoop_print [OF assms(2) this(2,1,3), of rnd "length reqs"]
  show thesis
    by (rule that) (use l assms(1) Some wu in \<open>simp_all add: worker_def answered_def responses_def rounds_def newConn_def\<close>)
qed

lemma workers_counts:
  assumes "reqs \<noteq> []" and "0 < pipe" and "list_all (peer_ok pipe) peers"
  shows "\<exists>cs. foldOpt (\<lambda>(n, l) cs. map_option (\<lambda>c. cs @ [c]) (worker rnd reqs pipe n l))
        (enumerate k (map (map_option answered) peers)) acc = Some (acc @ cs)
      \<and> sum_list (map cn_total cs) = int (length (responses peers))
      \<and> sum_list (map cn_non2xx cs) = int (length (filter failing (responses peers)))
      \<and> sum_list (map cn_errs cs) = int (length (filter Option.is_none peers))
      \<and> length (concat (map cn_lat cs)) = rounds peers"
  using assms(3)
proof (induction peers arbitrary: k acc)
  case Nil
  then show ?case by (simp add: responses_def rounds_def)
next
  case (Cons x xs)
  then have x: "peer_ok pipe x" "list_all (peer_ok pipe) xs" by simp_all
  obtain c where c: "worker rnd reqs pipe k (map_option answered x) = Some c"
    "cn_total c = int (length (responses [x]))" "cn_non2xx c = int (length (filter failing (responses [x])))"
    "cn_errs c = int (length (filter Option.is_none [x]))" "length (cn_lat c) = rounds [x]"
    by (rule worker_counts [OF assms(1,2) x(1)]) (rule that)
  obtain cs where cs: "foldOpt (\<lambda>(n, l) cs. map_option (\<lambda>c. cs @ [c]) (worker rnd reqs pipe n l))
        (enumerate (Suc k) (map (map_option answered) xs)) (acc @ [c]) = Some ((acc @ [c]) @ cs)"
      "sum_list (map cn_total cs) = int (length (responses xs))"
      "sum_list (map cn_non2xx cs) = int (length (filter failing (responses xs)))"
      "sum_list (map cn_errs cs) = int (length (filter Option.is_none xs))" "length (concat (map cn_lat cs)) = rounds xs"
    using Cons(1) [OF x(2), of "Suc k" "acc @ [c]"] by blast
  have r: "responses (x # xs) = responses [x] @ responses xs" "rounds (x # xs) = rounds [x] + rounds xs"
    by (simp_all add: responses_def rounds_def)
  show ?case by (rule exI [of _ "c # cs"]) (use c cs r in simp)
qed

text \<open>C38. The load generator counts exactly what the servers send: when every request of every dialled connection is
  answered by one well-formed response, whichever of them are sized and which chunked and however deep the
  pipelining, a blast ends without a panic, reports as many requests as responses were sent, as many failures as
  responses had a status outside 200 to 399, and one error per refused connection and no other.\<close>

theorem blast_counts:
  assumes "reqs \<noteq> []" and "0 < pipe" and "float53 rnd" and "list_all (peer_ok pipe) peers" and "rounds peers \<le> 2 ^ 53"
  shows "\<exists>res. blast rnd reqs pipe (map (map_option answered) peers) = Some res
    \<and> rs_reqs res = i64 (int (length (responses peers)))
    \<and> rs_non2xx res = i64 (int (length (filter failing (responses peers))))
    \<and> rs_errs res = i64 (int (length (filter Option.is_none peers)))"
proof -
  obtain cs where cs: "foldOpt (\<lambda>(n, l) cs. map_option (\<lambda>c. cs @ [c]) (worker rnd reqs pipe n l))
        (enumerate 0 (map (map_option answered) peers)) [] = Some cs"
      "sum_list (map cn_total cs) = int (length (responses peers))"
      "sum_list (map cn_non2xx cs) = int (length (filter failing (responses peers)))"
      "sum_list (map cn_errs cs) = int (length (filter Option.is_none peers))" "length (concat (map cn_lat cs)) = rounds peers"
    using workers_counts [OF assms(1,2,4), of rnd 0 "[]"] by auto
  have n: "length (sort (concat (map cn_lat cs))) = rounds peers" using cs(5) by (simp only: length_sort)
  have "\<exists>res. summary rnd cs = Some res \<and> rs_reqs res = i64 (int (length (responses peers)))
    \<and> rs_non2xx res = i64 (int (length (filter failing (responses peers))))
    \<and> rs_errs res = i64 (int (length (filter Option.is_none peers)))"
    unfolding summary_def Let_def n using cs(2-4) p99_index [OF assms(3) _ assms(5)] by auto
  then show ?thesis by (simp add: blast_def cs(1))
qed

theorem blast_counts_witness:
  "\<exists>res. blast id [getReq ''/bk0''] 2
     [None, Some (answered ([Wire 302 ''Found'' [(''Location'', ''https://x'')] (Sized []),
                             Wire 404 ''Not Found'' [] (Chunked [''{}''])], [500]))] = Some res
   \<and> rs_reqs res = 2 \<and> rs_non2xx res = 1 \<and> rs_errs res = 1"
proof -
  let ?ws = "[Wire 302 ''Found'' [(''Location'', ''https://x'')] (Sized []), Wire 404 ''Not Found'' [] (Chunked [''{}''])]"
  have n: "\<not> foldsTo ''Location'' ''content-length''" "\<not> foldsTo ''Location'' ''transfer-encoding''" by code_simp+
  have "list_all (peer_ok 2) [None, Some (?ws, [500])]"
    using n by (simp add: peer_ok_def wire_ok_def in_i64_def)
  from blast_counts [OF _ _ _ this, of "[getReq ''/bk0'']" id] show ?thesis
    by (simp add: float53_def responses_def rounds_def failing_def i64_id in_i64_def)
qed

section \<open>The servers it starts\<close>

definition benchEnvInt :: "(bytes \<Rightarrow> bytes) \<Rightarrow> bytes \<Rightarrow> int \<Rightarrow> int" where
  "benchEnvInt getenv k dflt =
     (let v = getenv k
      in if v \<noteq> [] then (case Atoi v of (n, None) \<Rightarrow> n | _ \<Rightarrow> dflt) else dflt)"

text \<open>Duration in seconds and number of connections.\<close>

definition benchSettings :: "(bytes \<Rightarrow> bytes) \<Rightarrow> int \<times> int" where
  "benchSettings getenv = (benchEnvInt getenv ''BENCH_DURATION'' 5, benchEnvInt getenv ''CONNECTIONS'' 64)"

text \<open>\<open>envFor\<close> in the temporary directory \<open>tmp\<close>: the directory it removes, the variables of a server, and the next
  port.\<close>

definition envFor :: "bytes \<Rightarrow> environ \<Rightarrow> bytes \<Rightarrow> int \<Rightarrow> bytes \<times> environ \<times> int" where
  "envFor tmp extra tag portSeq =
     (let dir = tmp @ ''/bench-go-'' @ tag @ ''-'' @ Itoa portSeq;
          env = [(''PORT'', Itoa portSeq), (''DATA_DIR'', dir)]
      in (dir, fold (\<lambda>(k, v). AList.update k v) extra env, portSeq + 10))"

text \<open>The environment \<open>startServer\<close> gives its command, with the variables in the order the map is visited.\<close>

definition startEnv :: "environ \<Rightarrow> environ \<Rightarrow> environ" where
  "startEnv os kvs = dedupEnv (os @ kvs)"

lemma map_of_updates:
  "map_of (fold (\<lambda>(k, v). AList.update k v) extra env) k = (case map_of (rev extra) k of None \<Rightarrow> map_of env k | Some v \<Rightarrow> Some v)"
proof (induction extra arbitrary: env)
  case (Cons kv extra)
  obtain a b where "kv = (a, b)" by (cases kv)
  then show ?case using Cons by (auto simp: update_conv' map_add_def split: option.split)
qed simp

lemma distinct_updates: "distinct (map fst env) \<Longrightarrow> distinct (map fst (fold (\<lambda>(k, v). AList.update k v) extra env))"
  by (induction extra arbitrary: env) (auto simp: distinct_update)

text \<open>A server started for a scenario listens on its own port, in the directory that was emptied for it: variables of the scenario win
  over inherited ones, whatever the order in which the map is visited, and the next scenario has a higher port.\<close>

lemma bench_server:
  assumes "envFor tmp extra tag p = (dir, env, p')" and "set kvs = set env" and "distinct (map fst kvs)"
    and "''PORT'' \<notin> fst ` set extra" and "''DATA_DIR'' \<notin> fst ` set extra" and "in_i64 p"
  shows "se_port (loadSettings (Getenv (startEnv os kvs))) = p" and "se_dataDir (loadSettings (Getenv (startEnv os kvs))) = dir"
    and "p < p'"
proof -
  have env: "env = fold (\<lambda>(k, v). AList.update k v) extra [(''PORT'', Itoa p), (''DATA_DIR'', dir)]" "p' = p + 10" "dir \<noteq> []"
    using assms(1) by (auto simp: envFor_def Let_def)
  have "distinct (map fst env)" unfolding env(1) by (rule distinct_updates) simp
  then have "map_of (rev kvs) = map_of env"
    using assms(2,3) by (intro map_of_inject_set [THEN iffD2]) (simp_all add: rev_map [symmetric])
  then have g: "Getenv (startEnv os kvs) k = (case map_of env k of None \<Rightarrow> Getenv (rev os) k | Some v \<Rightarrow> v)" for k
    by (simp add: Getenv_def startEnv_def map_of_dedupEnv map_add_def split: option.split)
  have "map_of (rev extra) ''PORT'' = None" "map_of (rev extra) ''DATA_DIR'' = None"
    using assms(4,5) by (simp_all add: map_of_eq_None_iff)
  then have "Getenv (startEnv os kvs) ''PORT'' = Itoa p" "Getenv (startEnv os kvs) ''DATA_DIR'' = dir"
    unfolding g env(1) by (simp_all add: map_of_updates)
  then show "se_port (loadSettings (Getenv (startEnv os kvs))) = p"
    "se_dataDir (loadSettings (Getenv (startEnv os kvs))) = dir"
    using assms(6) env(3) by (simp_all add: loadSettings_def mainEnvInt_def mainEnvStr_def ParseInt_FormatInt)
  show "p < p'" using env(2) by simp
qed

section \<open>The links it creates\<close>

definition makeCode :: "nat \<Rightarrow> bytes" where
  "makeCode i = ''bk'' @ Itoa (int i)"

definition makeBody :: "nat \<Rightarrow> bytes" where
  "makeBody i = ''{\"url\":\"https://bench.example/'' @ Itoa (int i) @ ''\",\"alias\":\"'' @ makeCode i @ ''\"}''"

text \<open>\<open>post\<close> is the HTTP client: the status of the reply to a body, or an error.\<close>

definition makeCodes :: "(bytes \<Rightarrow> 's \<Rightarrow> int option \<times> 's) \<Rightarrow> nat \<Rightarrow> 's \<Rightarrow> (bytes list \<times> 's) option" where
  "makeCodes post n s =
     foldOpt (\<lambda>i (codes, s). case post (makeBody i) s of
                               (st, s) \<Rightarrow> if st = Some 201 then Some (codes @ [makeCode i], s) else None) [0..<n] ([], s)"

lemma makeCodes_list:
  assumes "makeCodes post n s = Some (codes, s')"
  shows "codes = map makeCode [0..<n]"
proof -
  have "codes' = cs @ map makeCode xs"
    if "foldOpt (\<lambda>i (codes, s). case post (makeBody i) s of
          (st, s) \<Rightarrow> if st = Some 201 then Some (codes @ [makeCode i], s) else None) xs (cs, s) = Some (codes', s')" for xs cs codes' s
    using that by (induction xs arbitrary: cs s) (fastforce simp: bind_eq_Some_conv split: if_splits prod.splits)+
  then show ?thesis using assms by (fastforce simp: makeCodes_def)
qed

text \<open>The aliases it asks for are valid codes, and no two are equal: no request can fail because of another.\<close>

lemma makeCodes_ok:
  assumes "int n \<le> 2 ^ 63" and "makeCodes post n s = Some (codes, s')"
  shows "distinct codes" and "list_all codeOK codes" and "''metrics'' \<notin> set codes"
proof -
  note codes = makeCodes_list [OF assms(2)]
  have i: "in_i64 (int k)" if "k < n" for k using that assms(1) by (simp add: in_i64_def)
  have "Itoa (int j) = Itoa (int k) \<longrightarrow> j = k" if "j < n" "k < n" for j k
    using dec_int.enc_inj [OF i [OF that(1)] i [OF that(2)]] by simp
  then show "distinct codes" by (auto simp: codes makeCode_def distinct_map inj_on_def)
  have "codeChar c" if "c \<in> set (Itoa (int k))" for c k
    using FormatInt_chars [OF that] by (auto simp: codeChar_def is_dec_def less_eq_char_def)
  moreover have "codeChar (CHR ''b'')" "codeChar (CHR ''k'')" by (simp_all add: codeChar_def less_eq_char_def)
  ultimately have "codeOK (''bk'' @ Itoa (int k))" if "k < n" for k
    using length_FormatInt [OF i [OF that]] by (simp add: codeOK_def list_all_iff)
  then show "list_all codeOK codes" by (auto simp: codes makeCode_def list_all_iff)
  show "''metrics'' \<notin> set codes" by (auto simp: codes makeCode_def)
qed

end
