(* ===== verification/Spec2Isabelle.thy ===== *)
theory Spec2Isabelle
  imports Timers KvBulk KvHits Pool Shutdown Bench
begin

text \<open>
  A verification library for the URL shortener \<^verbatim>\<open>shrt-go\<close>.

  \<^bold>\<open>The program.\<close> A process serves \<^verbatim>\<open>POST /api/shorten\<close>, \<^verbatim>\<open>POST /api/shorten/bulk\<close>, redirects, an
  administration interface and metrics (\<^verbatim>\<open>internal/app\<close>), over a store that hides behind one interface
  (\<^verbatim>\<open>store.API\<close>). There are three engines: an in-memory index with an append-only log per instance
  (\<^verbatim>\<open>internal/store/store.go\<close> over \<^verbatim>\<open>internal/aof\<close>), where several instances share a directory and read
  each other's logs; an embedded Pebble database (\<^verbatim>\<open>pebblestore.go\<close>); and an external RESP server
  (\<^verbatim>\<open>kvstore.go\<close> over the client \<^verbatim>\<open>kv.go\<close>). The last two share a read cache. A token-bucket limiter
  (\<^verbatim>\<open>internal/ratelimit\<close>) guards the writes and a set of counters (\<^verbatim>\<open>internal/metrics\<close>) reports.

  \<^bold>\<open>Theories.\<close> Bytes are characters, Go's \<^verbatim>\<open>int64\<close> is \<^typ>\<open>int\<close> with the wrap-around \<open>i64\<close> written out
  at every operation that may overflow, hashes and merge counters are words. Errors and early returns are
  values; \<open>None\<close> as the outermost result of an operation is a panic or the end of the random draws
  supplied to a retry loop. Clocks, random bytes and map iteration orders are arguments. So are the results of the system
  calls on files that a running process makes: of every write and fsync on the log, of opening it, and of
  every call on lock files and on the snapshot that \<open>Compact\<close> writes; the code ignores most of them, and so do the definitions.
  Reading a log, its size, and removing the own lock are taken to succeed.

  \<^item> \<open>Prelude\<close>, \<open>Strconv\<close>: the Go values, strings and maps the program uses, \<^verbatim>\<open>strconv\<close>, the locales for
    codecs and for invariants of runs.
  \<^item> \<open>Base62\<close> (\<^verbatim>\<open>internal/base62\<close>), \<open>LogLine\<close> (the printers and the hand-written parser of log lines in
    \<^verbatim>\<open>store.go\<close>), \<open>Aof\<close> (\<^verbatim>\<open>internal/aof\<close>: queue, flush, fsync, truncate, replay, tails, lock files, over an
    explicit file system in which every file remembers how much of it is durable).
  \<^item> \<open>Index\<close>, \<open>Store\<close>: the sharded index, the folding of log lines into it, and every operation of the
    engine; \<open>Links\<close>: what each operation does; \<open>Recovery\<close>, \<open>Durability\<close>: the run of an instance as a step
    relation, its refinement of a table of links, crashes and restarts; \<open>StoreSteps\<close>: the steps of one instance beside others, and
    the codes it generates; \<open>Siblings\<close>: several instances.
  \<^item> \<open>HotCache\<close> (cache, pending hits and value codec of \<^verbatim>\<open>kvstore.go\<close>), \<open>Pebble\<close> and \<open>PebbleRun\<close>
    (\<^verbatim>\<open>pebblestore.go\<close> and its runs), \<open>Resp\<close> (\<^verbatim>\<open>kv.go\<close>), \<open>Pool\<close> (its
    connection pool under concurrent callers), \<open>KvStore\<close> (\<^verbatim>\<open>kvstore.go\<close>), \<open>KvEngine\<close> (the laws of
    the server's commands and what each operation does over them), \<open>KvBulk\<close> (its bulk creation), \<open>KvHits\<close> (its hit counters), \<open>KvRun\<close> (runs beside other
    writers), \<open>KvMem\<close> (a RESP server in memory that satisfies the laws),
    \<open>Timers\<close> (the intervals and ticks of the timers of both engines).
  \<^item> \<open>Api\<close>: the interface as a record of operations, and the locale \<open>store_api\<close> with what the handler
    relies on; it is interpreted for the log engine in \<open>Api\<close>, for Pebble in \<open>Pebble\<close> and for the RESP engine
    in \<open>KvEngine\<close>. \<open>store_family\<close> of theory \<open>App\<close> is an engine with changing clocks and draws.
  \<^item> \<open>RateLimit\<close>, \<open>Metrics\<close>, \<open>App\<close> (\<^verbatim>\<open>app.go\<close> over any engine), \<open>Service\<close> (handler and log engine together),
    \<open>Engines\<close> (handler over the other two).
  \<^item> \<open>Transport\<close> (\<^verbatim>\<open>fast.go\<close>, \<^verbatim>\<open>std.go\<close>), \<open>Process\<close> (\<^verbatim>\<open>cmd/shrt/main.go\<close>: settings, supervisor, workers),
    \<open>Shutdown\<close> (the life of a serving process and its timers), \<open>Bench\<close> (the load generator \<^verbatim>\<open>cmd/bench\<close>).

  \<^bold>\<open>What is shown.\<close> Durability, for an instance alone in a directory that was fresh when it first started there and
  has seen no earlier crash, while its system calls on the log succeed: after any run and a crash at any
  byte beyond the last fsync, a restart
  has the table after a prefix of the changes that includes all durable ones, and compaction and a clean
  restart lose nothing; a link acknowledged over HTTP and followed by one fsync tick redirects after the
  crash. When a call fails this is no longer so: \<open>Durability\<close> shows that a compaction whose rename
  fails loses the links, and that a failed write loses the queued lines. Refinement: in every reachable state the index is the abstract table; the cache of the Pebble
  engine cannot be observed. Functional behaviour of every operation of the log engine, on errors too.
  Uniqueness of codes within an instance, and across instances of the log engine that hold different ids (workers of a supervisor in a
  data directory, processes that claim ids one after the other). Round trips of the number format, the log lines, the
  stored values and the RESP protocol. Bounds of the limiter (in rounded arithmetic), the cache and the stray-hit buffer.
  Conservation of hits through the merge operator and through increments on
  the RESP server. The administration gate and the absence of effects of a
  refused request; over the log engine the handler returns for every request but one kind. Created links redirect over every engine, over the RESP
  engine to the submitted url unless its cache still answers for the code; over a shared RESP server bulk creation places every url
  under a code of its own, aliases are exclusive and the staleness of redirects is bounded. The frontends agree; workers only serve and never generate
  the same code. A clean stop loses no link. Concurrent callers of the RESP client never see each other's
  replies. The load generator counts exactly the responses it is sent.

  \<^bold>\<open>Fuel and bounds.\<close> Retry loops run over a list of draws; \<open>Links\<close> shows that the loop of \<open>Shorten\<close> returns, for draws that
  contain a free code, and that there is such a draw while not all \<open>62^7\<close> codes of the instance are in use. The loops
  of bulk creation and of the other engines have no such theorem; what is shown of them is shown for the case that they return.
  \<open>readResp\<close> recurses at most as deep as there are bytes (lemma \<open>readRespAt_enough\<close>), so its bound on the depth changes
  nothing. The cursor loops \<open>scanLoop\<close> and \<open>hscanLoop\<close> end when the server says so;
  their fuel is the number of round trips and running out is \<open>None\<close>. A crash cuts the log of the instance;
  snapshots and lock files are taken as written.

  \<^bold>\<open>Parameters.\<close> Code outside the repository is an argument: the JSON library, \<^verbatim>\<open>net/url\<close>, the rounding of
  floating-point numbers, Pebble (with its laws as \<open>pebble_laws\<close>) and the RESP server (\<open>serves\<close> for the
  protocol, \<open>string_laws\<close> and \<open>hash_laws\<close> for its commands; the expiry of a key on the server is a change by another writer). \<open>mapDB\<close> and \<open>memServe\<close> are concrete instances
  that satisfy the laws.

  \<^bold>\<open>Not modelled.\<close> Locks and the memory model: every operation of a store is one atomic step; timers are steps of
  the run relations, and callers interleave only in \<open>Pool\<close>. Sockets, signal delivery, process exit and the
  waiting for children in \<^verbatim>\<open>cmd/shrt\<close>; the options \<^verbatim>\<open>NewFastServer\<close> sets; the file of the user interface. Of
  \<^verbatim>\<open>cmd/bench\<close>, the starting and stopping of processes, the health checks, the report it prints and the list of
  scenarios in \<^verbatim>\<open>main\<close>, which only sequence the parts that are modelled.
\<close>

end
